(* ===== verification/Prelude.thy ===== *)
theory Prelude
  imports Main "HOL-Library.Word" "HOL-Library.AList"
begin

text \<open>
  The shared vocabulary of the development: the machine types of the C++ sources, the
  result type of operations that may throw, and the generic facts on lists, options,
  association lists and words that the component theories rest on.

  \<^item> A \<^verbatim>\<open>char*\<close> buffer is a \<^typ>\<open>string\<close>: a HOL \<^typ>\<open>char\<close> is exactly one byte.
  \<^item> \<^verbatim>\<open>std::uint16_t\<close>, \<^verbatim>\<open>std::uint32_t\<close> and \<^verbatim>\<open>std::uint64_t\<close> are words of that width, so that
    every sum that can wrap around does wrap around in the model.
  \<^item> \<^verbatim>\<open>std::size_t\<close> values that count bytes held in memory are \<^typ>\<open>nat\<close>: on the 64-bit
    targets of the program no such sum can reach $2^{64}$.
  \<^item> \<^verbatim>\<open>std::time_t\<close> is \<^typ>\<open>int\<close>, and a C \<^verbatim>\<open>int\<close> that is only compared is an \<^typ>\<open>int\<close>.
\<close>

unbundle bit_operations_syntax

type_synonym u8 = "8 word"
type_synonym u16 = "16 word"
type_synonym u32 = "32 word"
type_synonym u64 = "64 word"
type_synonym time_t = int

text \<open>
  The exceptions of the program.  An operation that may throw returns a sum whose left
  part is the exception.
\<close>

datatype exn =
    Logic_error string
  | Runtime_error string
  | Invalid_argument
  | Out_of_range
  | Not_a_number
  | Parse_error nat
  | Not_found string
  | Illegal_value string
  | Bad_config string
  | Bad_address string

named_theorems model_simps \<open>unfolding rules for the operations of the components\<close>
named_theorems inv_intros \<open>preservation rules for the invariants of the components\<close>

section \<open>Sums as results\<close>

definition bind_res :: "'e + 'a \<Rightarrow> ('a \<Rightarrow> 'e + 'b) \<Rightarrow> 'e + 'b" where
  "bind_res r f = (case r of Inl e \<Rightarrow> Inl e | Inr x \<Rightarrow> f x)"

lemma bind_res_simps [simp]:
  "bind_res (Inl e) f = Inl e"
  "bind_res (Inr x) f = f x"
  by (simp_all add: bind_res_def)

lemma bind_res_eq_Inr [simp]:
  "bind_res r f = Inr y \<longleftrightarrow> (\<exists>x. r = Inr x \<and> f x = Inr y)"
  by (cases r) simp_all

lemma bind_res_eq_Inl:
  "bind_res r f = Inl e \<longleftrightarrow> r = Inl e \<or> (\<exists>x. r = Inr x \<and> f x = Inl e)"
  by (cases r) auto

text \<open>A sequence of statements that each may throw.\<close>

fun run_steps :: "('a \<Rightarrow> 'e + 'a) list \<Rightarrow> 'a \<Rightarrow> 'e + 'a" where
  "run_steps [] x = Inr x"
| "run_steps (f # fs) x = bind_res (f x) (run_steps fs)"

text \<open>A statement keeps a property if the property holds after it whenever it held before.\<close>

definition keeps :: "('a \<Rightarrow> bool) \<Rightarrow> ('a \<Rightarrow> 'e + 'a) \<Rightarrow> bool" where
  "keeps P f \<longleftrightarrow> (\<forall>x y. P x \<longrightarrow> f x = Inr y \<longrightarrow> P y)"

lemma keepsI: "(\<And>x y. P x \<Longrightarrow> f x = Inr y \<Longrightarrow> P y) \<Longrightarrow> keeps P f"
  by (simp add: keeps_def)

lemma keepsD: "keeps P f \<Longrightarrow> f x = Inr y \<Longrightarrow> P x \<Longrightarrow> P y"
  by (simp add: keeps_def)

lemma keeps_run_steps: "list_all (keeps P) fs \<Longrightarrow> keeps P (run_steps fs)"
proof (induction fs)
  case (Cons f fs)
  show ?case
  proof (rule keepsI)
    fix x y
    assume "P x" "run_steps (f # fs) x = Inr y"
    then obtain z where "f x = Inr z" "run_steps fs z = Inr y" by auto
    with Cons \<open>P x\<close> show "P y" using keepsD [of P f x z] keepsD [of P "run_steps fs" z y] by simp
  qed
qed (simp add: keeps_def)

section \<open>Lists\<close>

lemma dropWhile_suffix: "\<exists>n. dropWhile P xs = drop n xs"
  by (induction xs) (auto intro: exI [of _ "Suc _"] exI [of _ 0])

lemma takeWhile_all: "(\<And>x. x \<in> set xs \<Longrightarrow> P x) \<Longrightarrow> takeWhile P xs = xs"
  by simp

lemma takeWhile_append_stop:
  "(\<And>x. x \<in> set xs \<Longrightarrow> P x) \<Longrightarrow> \<not> P y \<Longrightarrow> takeWhile P (xs @ y # ys) = xs"
  by (induction xs) auto

lemma dropWhile_append_stop:
  "(\<And>x. x \<in> set xs \<Longrightarrow> P x) \<Longrightarrow> \<not> P y \<Longrightarrow> dropWhile P (xs @ y # ys) = y # ys"
  by (induction xs) auto

lemma take_map_the_Some: "map the (map Some xs) = xs"
  by (induction xs) auto

lemma nth_list_update_in_set: "i < length xs \<Longrightarrow> x \<in> set (xs[i := x])"
  by (rule set_update_memI)

lemma concat_update:
  "i < length xss \<Longrightarrow> concat (xss[i := ys]) = concat (take i xss) @ ys @ concat (drop (Suc i) xss)"
  by (simp add: upd_conv_take_nth_drop)

lemma concat_split:
  "i < length xss \<Longrightarrow> concat xss = concat (take i xss) @ xss ! i @ concat (drop (Suc i) xss)"
  by (metis concat.simps(2) concat_append id_take_nth_drop)

section \<open>Association lists\<close>

lemma map_of_append_disjoint:
  "k \<notin> fst ` set xs \<Longrightarrow> map_of (xs @ ys) k = map_of ys k"
  by (force simp: map_add_def dest: map_of_SomeD split: option.splits)

lemma map_of_distinct_iff:
  "distinct (map fst xs) \<Longrightarrow> map_of xs k = Some v \<longleftrightarrow> (k, v) \<in> set xs"
  by (auto dest: map_of_SomeD)

section \<open>Words\<close>

lemma unat_plus_no_wrap:
  fixes a b :: "'a::len word"
  shows "unat a + unat b < 2 ^ LENGTH('a) \<Longrightarrow> unat (a + b) = unat a + unat b"
  by (simp add: unat_word_ariths)

lemma unat_minus_le:
  fixes a b :: "'a::len word"
  shows "b \<le> a \<Longrightarrow> unat (a - b) = unat a - unat b"
  by (simp add: unat_sub word_le_nat_alt)

end
