(* ===== verification/Util.thy ===== *)
theory Util
  imports Prelude
begin

text \<open>
  Models \<^verbatim>\<open>cybozu/util.hpp\<close> and \<^verbatim>\<open>cybozu/util.cpp\<close> (network byte order, tokenizing, clearing
  memory) and the parts of the C and C++ libraries the sources use for decimal numbers:
  \<^verbatim>\<open>strtoull\<close>, \<^verbatim>\<open>std::stoull\<close>, \<^verbatim>\<open>std::stoi\<close> and the \<^verbatim>\<open>%llu\<close> conversion of \<^verbatim>\<open>snprintf\<close>.
\<close>

section \<open>Network byte order\<close>

text \<open>The value of a big-endian byte sequence, and the low \<open>k\<close> bytes of a value.\<close>

definition be_val :: "string \<Rightarrow> nat" where
  "be_val p = foldl (\<lambda>a c. a * 256 + of_char c) 0 p"

primrec be_bytes :: "nat \<Rightarrow> nat \<Rightarrow> string" where
  "be_bytes 0 n = []"
| "be_bytes (Suc k) n = be_bytes k (n div 256) @ [char_of n]"

text \<open>
  \<^verbatim>\<open>ntoh\<close> reads \<^verbatim>\<open>sizeof(UInt)\<close> bytes, \<^verbatim>\<open>hton\<close> writes them; the width comes from the type, as
  the template parameter does.
\<close>

definition ntoh :: "string \<Rightarrow> 'a::len word" where
  "ntoh p = word_of_nat (be_val (take (LENGTH('a) div 8) p))"

definition hton :: "'a::len word \<Rightarrow> string" where
  "hton d = be_bytes (LENGTH('a) div 8) (unat d)"

section \<open>Tokenizing and clearing memory\<close>

text \<open>
  \<^verbatim>\<open>tokenize\<close>: the loop keeps the token started and not yet ended (\<open>cur\<close>, empty when
  \<^verbatim>\<open>start == end\<close>) and the tokens found so far.
\<close>

fun tokenize_loop :: "char \<Rightarrow> string \<Rightarrow> string \<Rightarrow> string list \<Rightarrow> string list" where
  "tokenize_loop c [] cur v = (if cur \<noteq> [] then v @ [cur] else v)"
| "tokenize_loop c (x # xs) cur v =
     (if x \<noteq> c then tokenize_loop c xs (cur @ [x]) v
      else if cur \<noteq> [] then tokenize_loop c xs [] (v @ [cur])
      else tokenize_loop c xs [] v)"

definition tokenize :: "string \<Rightarrow> char \<Rightarrow> string list" where
  "tokenize s c = tokenize_loop c s [] []"

text \<open>\<^verbatim>\<open>clear_memory(s, n)\<close> on a block of cells, from its start.\<close>

definition clear_memory :: "nat \<Rightarrow> char option list \<Rightarrow> char option list" where
  "clear_memory n cells = replicate (min n (length cells)) (Some (CHR 0x00)) @ drop n cells"

section \<open>Decimal numbers of the C library\<close>

definition is_digit :: "char \<Rightarrow> bool" where
  "is_digit c \<longleftrightarrow> 48 \<le> (of_char c :: nat) \<and> (of_char c :: nat) \<le> 57"

definition digit_val :: "char \<Rightarrow> nat" where
  "digit_val c = of_char c - 48"

text \<open>\<^verbatim>\<open>isspace\<close> of the C locale: space, \<^verbatim>\<open>\t\<close>, \<^verbatim>\<open>\n\<close>, \<^verbatim>\<open>\v\<close>, \<^verbatim>\<open>\f\<close>, \<^verbatim>\<open>\r\<close>.\<close>

definition is_space :: "char \<Rightarrow> bool" where
  "is_space c \<longleftrightarrow> c \<in> {CHR 0x20, CHR 0x09, CHR 0x0A, CHR 0x0B, CHR 0x0C, CHR 0x0D}"

definition dec_val :: "string \<Rightarrow> nat" where
  "dec_val ds = foldl (\<lambda>a c. a * 10 + digit_val c) 0 ds"

text \<open>
  \<^verbatim>\<open>strtoull(p, &end, 10)\<close>: leading white space, an optional sign, digits.  The result is
  the value, the text from \<^verbatim>\<open>end\<close> on, whether any conversion took place (if not, \<^verbatim>\<open>end == p\<close>)
  and whether \<^verbatim>\<open>errno\<close> was set to \<^verbatim>\<open>ERANGE\<close>.  A minus sign negates the value as an unsigned
  number.
\<close>

record strtoull_result =
  sr_value :: nat
  sr_end :: string
  sr_conv :: bool
  sr_erange :: bool

definition ULLONG_MAX :: nat where
  "ULLONG_MAX = 18446744073709551615"

definition strtoull :: "string \<Rightarrow> strtoull_result" where
  "strtoull p =
     (let s = dropWhile is_space p;
          neg = (case s of c # _ \<Rightarrow> c = CHR ''-'' | [] \<Rightarrow> False);
          t = (case s of c # r \<Rightarrow> (if c = CHR ''-'' \<or> c = CHR ''+'' then r else s) | [] \<Rightarrow> s);
          ds = takeWhile is_digit t;
          v = dec_val ds
      in if ds = [] then \<lparr>sr_value = 0, sr_end = p, sr_conv = False, sr_erange = False\<rparr>
         else if v > ULLONG_MAX
         then \<lparr>sr_value = ULLONG_MAX, sr_end = dropWhile is_digit t, sr_conv = True,
               sr_erange = True\<rparr>
         else \<lparr>sr_value = (if neg \<and> v \<noteq> 0 then ULLONG_MAX + 1 - v else v),
               sr_end = dropWhile is_digit t, sr_conv = True, sr_erange = False\<rparr>)"

text \<open>\<^verbatim>\<open>std::stoull\<close>: throws when nothing was converted or the value is out of range.\<close>

definition stoull :: "string \<Rightarrow> exn + u64" where
  "stoull s =
     (let r = strtoull s
      in if \<not> sr_conv r then Inl Invalid_argument
         else if sr_erange r then Inl Out_of_range
         else Inr (word_of_nat (sr_value r)))"

text \<open>\<^verbatim>\<open>std::stoi\<close>: \<^verbatim>\<open>strtol\<close>, then the range of \<^verbatim>\<open>int\<close>.\<close>

definition stoi :: "string \<Rightarrow> exn + int" where
  "stoi p =
     (let s = dropWhile is_space p;
          neg = (case s of c # _ \<Rightarrow> c = CHR ''-'' | [] \<Rightarrow> False);
          t = (case s of c # r \<Rightarrow> (if c = CHR ''-'' \<or> c = CHR ''+'' then r else s) | [] \<Rightarrow> s);
          ds = takeWhile is_digit t;
          v = (if neg then - int (dec_val ds) else int (dec_val ds))
      in if ds = [] then Inl Invalid_argument
         else if v < - 2147483648 \<or> v > 2147483647 then Inl Out_of_range
         else Inr v)"

text \<open>The decimal digits \<^verbatim>\<open>snprintf(..., "%llu", n)\<close> writes.\<close>

fun to_decimal :: "nat \<Rightarrow> string" where
  "to_decimal n =
     (if n < 10 then [char_of (48 + n)] else to_decimal (n div 10) @ [char_of (48 + n mod 10)])"

declare to_decimal.simps [simp del]

section \<open>Facts\<close>

subsection \<open>Byte order\<close>

lemma length_be_bytes [simp]: "length (be_bytes k n) = k"
  by (induction k arbitrary: n) simp_all

lemma be_val_append1: "be_val (p @ [c]) = be_val p * 256 + of_char c"
  by (simp add: be_val_def)

lemma be_val_be_bytes: "be_val (be_bytes k n) = n mod 256 ^ k"
proof (induction k arbitrary: n)
  case 0
  then show ?case by (simp add: be_val_def)
next
  case (Suc k)
  have "n mod 256 ^ Suc k = 256 * (n div 256 mod 256 ^ k) + n mod 256"
    by (simp add: mod_mult2_eq)
  with Suc.IH show ?case by (simp add: be_val_append1)
qed

lemma length_hton [simp]: "length (hton (d :: 'a::len word)) = LENGTH('a) div 8"
  by (simp add: hton_def)

lemma ntoh_hton_append:
  fixes d :: "'a::len word"
  assumes "8 dvd LENGTH('a)"
  shows "ntoh (hton d @ s) = d"
proof -
  have "(256::nat) ^ (LENGTH('a) div 8) = 2 ^ (8 * (LENGTH('a) div 8))"
    by (simp add: power_mult)
  also have "\<dots> = 2 ^ LENGTH('a)" using assms by simp
  finally have "unat d mod 256 ^ (LENGTH('a) div 8) = unat d" by simp
  then show ?thesis by (simp add: ntoh_def hton_def be_val_be_bytes)
qed

lemma ntoh_hton_simps [simp]:
  "ntoh (hton (a :: u16) @ s) = a"
  "ntoh (hton (b :: u32) @ s) = b"
  "ntoh (hton (c :: u64) @ s) = c"
  by (simp_all add: ntoh_hton_append)

lemma be_val_less: "be_val p < 256 ^ length p"
proof (induction p rule: rev_induct)
  case (snoc c p)
  have "be_val (p @ [c]) < 256 * 256 ^ length p"
    unfolding be_val_append1 using snoc nat_of_char_less_256 [of c] by linarith
  then show ?case by simp
qed (simp add: be_val_def)

lemma be_bytes_be_val: "be_bytes (length p) (be_val p) = p"
proof (induction p rule: rev_induct)
  case (snoc c p)
  have c: "(of_char c :: nat) < 256" by (rule nat_of_char_less_256)
  then have "char_of (be_val p * 256 + of_char c) = c"
    by (metis char_of_mod_256 char_of_char mod_mult_self3)
  with snoc c show ?case by (simp add: be_val_append1)
qed (simp add: be_val_def)

lemma hton_ntoh_simps [simp]:
  "length p = 2 \<Longrightarrow> hton (ntoh p :: u16) = p"
  "length p = 4 \<Longrightarrow> hton (ntoh p :: u32) = p"
  "length p = 8 \<Longrightarrow> hton (ntoh p :: u64) = p"
  using be_bytes_be_val [of p] be_val_less [of p] by (simp_all add: ntoh_def hton_def unat_of_nat)
subsection \<open>Tokens\<close>

text \<open>What a tokenizer promises: the maximal runs without the delimiter, in order.\<close>

fun splits_at :: "char \<Rightarrow> string \<Rightarrow> string list" where
  "splits_at c [] = [[]]"
| "splits_at c (x # xs) =
     (if x = c then [] # splits_at c xs
      else (case splits_at c xs of [] \<Rightarrow> [[x]] | t # ts \<Rightarrow> (x # t) # ts))"

lemma splits_at_nonempty: "splits_at c s \<noteq> []"
  by (cases s) (auto split: list.splits)

lemma tokenize_loop_spec:
  "tokenize_loop c s cur v =
     v @ filter (\<lambda>t. t \<noteq> []) (case splits_at c s of [] \<Rightarrow> [] | t # ts \<Rightarrow> (cur @ t) # ts)"
proof (induction c s cur v rule: tokenize_loop.induct)
  case (2 c x xs cur v)
  then show ?case
    using splits_at_nonempty [of c xs] by (auto split: list.splits)
qed auto

lemma tokenize_splits: "tokenize s c = filter (\<lambda>t. t \<noteq> []) (splits_at c s)"
  using splits_at_nonempty [of c s]
  by (auto simp: tokenize_def tokenize_loop_spec split: list.splits)

lemma splits_at_no_delimiter: "t \<in> set (splits_at c s) \<Longrightarrow> c \<notin> set t"
proof (induction c s arbitrary: t rule: splits_at.induct)
  case (2 c x xs)
  then show ?case by (auto split: list.splits if_splits)
qed auto

lemma concat_splits_at: "concat (splits_at c s) = filter (\<lambda>x. x \<noteq> c) s"
  using splits_at_nonempty
  by (induction c s rule: splits_at.induct) (auto split: list.splits)

subsection \<open>Decimal numbers\<close>

lemma char_of_inject: "n < 256 \<Longrightarrow> m < 256 \<Longrightarrow> char_of n = char_of m \<longleftrightarrow> n = (m::nat)"
  by (metis mod_less of_char_of)

lemma digit_char:
  assumes "n < 10"
  shows "is_digit (char_of (48 + n))" "digit_val (char_of (48 + n)) = n"
  using assms by (simp_all add: is_digit_def digit_val_def of_char_of)

lemma dec_val_append1: "dec_val (ds @ [c]) = dec_val ds * 10 + digit_val c"
  by (simp add: dec_val_def)

lemma to_decimal_nonempty [simp]: "to_decimal n \<noteq> []"
  by (subst to_decimal.simps) simp

lemma to_decimal_digits: "c \<in> set (to_decimal n) \<Longrightarrow> is_digit c"
proof (induction n rule: to_decimal.induct)
  case (1 n)
  then show ?case
    by (subst (asm) to_decimal.simps) (auto simp: digit_char split: if_splits)
qed

lemma dec_val_to_decimal [simp]: "dec_val (to_decimal n) = n"
proof (induction n rule: to_decimal.induct)
  case (1 n)
  show ?case
  proof (cases "n < 10")
    case True
    then show ?thesis by (subst to_decimal.simps) (simp add: dec_val_def digit_char)
  next
    case False
    with "1.IH" show ?thesis
      by (subst to_decimal.simps) (simp add: dec_val_append1 digit_char)
  qed
qed

lemma length_to_decimal: "n < 10 ^ k \<Longrightarrow> 0 < k \<Longrightarrow> length (to_decimal n) \<le> k"
proof (induction k arbitrary: n)
  case (Suc k)
  show ?case
  proof (cases "n < 10")
    case True
    then show ?thesis by (subst to_decimal.simps) simp
  next
    case False
    with Suc.prems have "n div 10 < 10 ^ k" "0 < k"
      by (auto simp: less_mult_imp_div_less intro: ccontr)
    with Suc.IH have "length (to_decimal (n div 10)) \<le> k" by simp
    with False show ?thesis by (subst to_decimal.simps) simp
  qed
qed simp

lemma is_digit_not_space: "is_digit c \<Longrightarrow> \<not> is_space c \<and> c \<noteq> CHR ''-'' \<and> c \<noteq> CHR ''+''"
  by (auto simp: is_digit_def is_space_def)

text \<open>Parsing what was printed gives the number back, whatever non-digit follows.\<close>

lemma strtoull_digits:
  assumes ds: "ds \<noteq> []" "\<And>c. c \<in> set ds \<Longrightarrow> is_digit c"
    and rest: "rest = [] \<or> \<not> is_digit (hd rest)"
    and small: "dec_val ds \<le> ULLONG_MAX"
  shows "strtoull (ds @ rest) =
    \<lparr>sr_value = dec_val ds, sr_end = rest, sr_conv = True, sr_erange = False\<rparr>"
proof -
  obtain d ds' where Cons: "ds = d # ds'" using ds(1) by (cases ds) auto
  with ds(2) have d: "is_digit d" by simp
  have tw: "takeWhile is_digit (ds @ rest) = ds"
    using ds(2) rest by (cases rest) (simp_all add: takeWhile_append_stop takeWhile_all)
  have dw: "dropWhile is_digit (ds @ rest) = rest"
    using ds(2) rest by (cases rest) (simp_all add: dropWhile_append_stop)
  show ?thesis
    using tw dw small is_digit_not_space [OF d] Cons
    by (simp add: strtoull_def)
qed

lemma strtoull_to_decimal:
  assumes "n \<le> ULLONG_MAX" "rest = [] \<or> \<not> is_digit (hd rest)"
  shows "strtoull (to_decimal n @ rest) =
    \<lparr>sr_value = n, sr_end = rest, sr_conv = True, sr_erange = False\<rparr>"
  using strtoull_digits [of "to_decimal n" rest] assms to_decimal_digits by simp

lemma unat_le_ULLONG_MAX: "unat (w :: u64) \<le> ULLONG_MAX"
  using unsigned_less [of w, where 'a = nat] by (simp add: ULLONG_MAX_def)

lemma stoull_to_decimal [simp]: "stoull (to_decimal (unat (w :: u64))) = Inr w"
  using strtoull_to_decimal [of "unat w" "[]"] unat_le_ULLONG_MAX [of w]
  by (simp add: stoull_def Let_def)

end
