(* ===== verification/Siphash.thy ===== *)
theory Siphash
  imports Util
begin

text \<open>
  Models \<^verbatim>\<open>cybozu/siphash.cpp\<close>: the keyed hash of the hash map's keys.  The two global key
  words are an argument.  \<open>sip_spec\<close> is SipHash-2-4 as its designers define it (padding
  the message to whole words first); \<open>siphash24_spec\<close> proves the routine computes it.
\<close>

type_synonym sip_key = "u64 \<times> u64"
type_synonym sip_state = "u64 \<times> u64 \<times> u64 \<times> u64"

definition ROTATE :: "u64 \<Rightarrow> nat \<Rightarrow> u64" where
  "ROTATE x b = push_bit b x OR drop_bit (64 - b) x"

text \<open>\<^verbatim>\<open>HALF_ROUND(a,b,c,d,s,t)\<close> assigns its four variables; the result lists them in order.\<close>

definition HALF_ROUND :: "u64 \<Rightarrow> u64 \<Rightarrow> u64 \<Rightarrow> u64 \<Rightarrow> nat \<Rightarrow> nat \<Rightarrow> sip_state" where
  "HALF_ROUND a b c d s t =
     (let a = a + b; c = c + d;
          b = ROTATE b s XOR a;
          d = ROTATE d t XOR c;
          a = ROTATE a 32
      in (a, b, c, d))"

definition DOUBLE_ROUND :: "sip_state \<Rightarrow> sip_state" where
  "DOUBLE_ROUND v =
     (let (v0, v1, v2, v3) = v;
          (v0, v1, v2, v3) = HALF_ROUND v0 v1 v2 v3 13 16;
          (v2, v1, v0, v3) = HALF_ROUND v2 v1 v0 v3 17 21;
          (v0, v1, v2, v3) = HALF_ROUND v0 v1 v2 v3 13 16;
          (v2, v1, v0, v3) = HALF_ROUND v2 v1 v0 v3 17 21
      in (v0, v1, v2, v3))"

text \<open>\<^verbatim>\<open>memcpy\<close> of eight bytes and \<^verbatim>\<open>le64toh\<close>: the first byte is the least significant.\<close>

definition le64 :: "string \<Rightarrow> u64" where
  "le64 m = foldr (\<lambda>c w. of_char c OR push_bit 8 w) (take 8 m) 0"

definition siphash24_seed :: "string \<Rightarrow> sip_key" where
  "siphash24_seed key = (le64 key, le64 (drop 8 key))"

text \<open>The loop over whole words; it also returns the bytes that are left.\<close>

function sip_words :: "string \<Rightarrow> sip_state \<Rightarrow> sip_state \<times> string" where
  "sip_words m v =
     (if length m \<ge> 8
      then (let (v0, v1, v2, v3) = v;
                mi = le64 m;
                (v0, v1, v2, v3) = DOUBLE_ROUND (v0, v1, v2, v3 XOR mi)
            in sip_words (drop 8 m) (v0 XOR mi, v1, v2, v3))
      else (v, m))"
  by pat_completeness auto
termination
  by (relation "measure (\<lambda>(m, v). length m)") auto

declare sip_words.simps [simp del]

text \<open>The \<^verbatim>\<open>switch\<close> on the remaining length falls through from the last byte to the first.\<close>

definition sip_tail :: "u64 \<Rightarrow> string \<Rightarrow> u64" where
  "sip_tail b m =
     (let b = (if length m \<ge> 7 then b OR push_bit 48 (of_char (m ! 6)) else b);
          b = (if length m \<ge> 6 then b OR push_bit 40 (of_char (m ! 5)) else b);
          b = (if length m \<ge> 5 then b OR push_bit 32 (of_char (m ! 4)) else b);
          b = (if length m \<ge> 4 then b OR push_bit 24 (of_char (m ! 3)) else b);
          b = (if length m \<ge> 3 then b OR push_bit 16 (of_char (m ! 2)) else b);
          b = (if length m \<ge> 2 then b OR push_bit 8 (of_char (m ! 1)) else b)
      in (if length m \<ge> 1 then b OR of_char (m ! 0) else b))"

definition siphash24 :: "sip_key \<Rightarrow> string \<Rightarrow> u64" where
  "siphash24 k src =
     (let b = push_bit 56 (word_of_nat (length src));
          v = (fst k XOR 0x736f6d6570736575, snd k XOR 0x646f72616e646f6d,
               fst k XOR 0x6c7967656e657261, snd k XOR 0x7465646279746573);
          ((v0, v1, v2, v3), m) = sip_words src v;
          b = sip_tail b m;
          (v0, v1, v2, v3) = DOUBLE_ROUND (v0, v1, v2, v3 XOR b);
          (v0, v1, v2, v3) = (v0 XOR b, v1, v2 XOR 0xff, v3);
          (v0, v1, v2, v3) = DOUBLE_ROUND (v0, v1, v2, v3);
          (v0, v1, v2, v3) = DOUBLE_ROUND (v0, v1, v2, v3)
      in (v0 XOR v1) XOR (v2 XOR v3))"

section \<open>SipHash-2-4 as specified\<close>

text \<open>One SipRound, with the library's rotation.\<close>

definition sip_round :: "sip_state \<Rightarrow> sip_state" where
  "sip_round v =
     (let (v0, v1, v2, v3) = v;
          v0 = v0 + v1; v2 = v2 + v3;
          v1 = word_rotl 13 v1; v3 = word_rotl 16 v3;
          v1 = v1 XOR v0; v3 = v3 XOR v2;
          v0 = word_rotl 32 v0;
          v2 = v2 + v1; v0 = v0 + v3;
          v1 = word_rotl 17 v1; v3 = word_rotl 21 v3;
          v1 = v1 XOR v2; v3 = v3 XOR v0;
          v2 = word_rotl 32 v2
      in (v0, v1, v2, v3))"

text \<open>The message, zero bytes up to seven modulo eight, and the length modulo 256.\<close>

definition sip_pad :: "string \<Rightarrow> string" where
  "sip_pad m = m @ replicate (7 - length m mod 8) (CHR 0x00) @ [char_of (length m)]"

fun chunks8 :: "string \<Rightarrow> string list" where
  "chunks8 m = (if m = [] then [] else take 8 m # chunks8 (drop 8 m))"

declare chunks8.simps [simp del]

definition sip_compress :: "sip_state \<Rightarrow> u64 \<Rightarrow> sip_state" where
  "sip_compress v mi =
     (let (v0, v1, v2, v3) = v;
          (v0, v1, v2, v3) = sip_round (sip_round (v0, v1, v2, v3 XOR mi))
      in (v0 XOR mi, v1, v2, v3))"

definition sip_spec :: "sip_key \<Rightarrow> string \<Rightarrow> u64" where
  "sip_spec k m =
     (let v = (fst k XOR 0x736f6d6570736575, snd k XOR 0x646f72616e646f6d,
               fst k XOR 0x6c7967656e657261, snd k XOR 0x7465646279746573);
          (v0, v1, v2, v3) = foldl sip_compress v (map le64 (chunks8 (sip_pad m)));
          (v0, v1, v2, v3) = (sip_round ^^ 4) (v0, v1, v2 XOR 0xff, v3)
      in v0 XOR v1 XOR v2 XOR v3)"

section \<open>The routine computes SipHash-2-4\<close>

lemma ROTATE_rotl:
  assumes "0 < b" "b < 64"
  shows "ROTATE x b = word_rotl b x"
proof (rule bit_word_eqI)
  fix n assume "n < LENGTH(64)"
  then have n: "n < 64" by simp
  show "bit (ROTATE x b) n = bit (word_rotl b x) n"
  proof (cases "b \<le> n")
    case True
    then have "(n + 64 - b) mod 64 = n - b" using n by (simp add: le_mod_geq)
    with True n assms show ?thesis
      by (auto simp: ROTATE_def bit_simps dest: bit_imp_le_length)
  next
    case False
    then have "(n + 64 - b) mod 64 = 64 + n - b" using n by simp
    with False n assms show ?thesis by (auto simp: ROTATE_def bit_simps)
  qed
qed

lemma DOUBLE_ROUND_sip_round: "DOUBLE_ROUND v = sip_round (sip_round v)"
  by (cases v) (simp add: DOUBLE_ROUND_def HALF_ROUND_def sip_round_def ROTATE_rotl Let_def)

lemma le64_take8 [simp]: "le64 (take 8 m) = le64 m"
  by (simp add: le64_def)

lemma sip_words_spec:
  "sip_words m v =
     (foldl sip_compress v (map le64 (chunks8 (take (8 * (length m div 8)) m))),
      drop (8 * (length m div 8)) m)"
proof (induction m v rule: sip_words.induct)
  case (1 m v)
  obtain v0 v1 v2 v3 where v: "v = (v0, v1, v2, v3)" by (cases v)
  obtain w0 w1 w2 w3 where w: "DOUBLE_ROUND (v0, v1, v2, v3 XOR le64 m) = (w0, w1, w2, w3)"
    by (metis surj_pair)
  show ?case
  proof (cases "length m \<ge> 8")
    case True
    then have len: "8 * (length m div 8) = 8 + 8 * (length (drop 8 m) div 8)"
      by (simp add: le_div_geq)
    have "take (8 * (length m div 8)) m =
        take 8 m @ take (8 * (length (drop 8 m) div 8)) (drop 8 m)"
      unfolding len by (rule take_add)
    with True have ch: "chunks8 (take (8 * (length m div 8)) m) =
        take 8 m # chunks8 (take (8 * (length (drop 8 m) div 8)) (drop 8 m))"
      by (subst chunks8.simps) auto
    have dr: "drop (8 * (length m div 8)) m = drop (8 * (length (drop 8 m) div 8)) (drop 8 m)"
      unfolding len by (simp add: add.commute)
    have step: "sip_words m v = sip_words (drop 8 m) (w0 XOR le64 m, w1, w2, w3)"
      using True v w by (subst sip_words.simps) simp
    have cp: "sip_compress v (le64 m) = (w0 XOR le64 m, w1, w2, w3)"
      using v w by (simp add: sip_compress_def DOUBLE_ROUND_sip_round)
    have IH: "sip_words (drop 8 m) (w0 XOR le64 m, w1, w2, w3) =
        (foldl sip_compress (w0 XOR le64 m, w1, w2, w3)
          (map le64 (chunks8 (take (8 * (length (drop 8 m) div 8)) (drop 8 m)))),
         drop (8 * (length (drop 8 m) div 8)) (drop 8 m))"
      by (rule "1.IH" [OF True refl v [symmetric] refl refl refl refl w [symmetric] refl refl])
    show ?thesis
      by (simp only: step IH ch dr list.map foldl_Cons le64_take8 cp)
  next
    case False
    then show ?thesis by (subst sip_words.simps) (simp add: chunks8.simps)
  qed
qed

lemma push_bit_char_of: "push_bit 56 (of_char (char_of n) :: u64) = push_bit 56 (word_of_nat n)"
proof (rule bit_word_eqI)
  fix k assume "k < LENGTH(64)"
  have "(of_char (char_of n) :: u64) = word_of_nat (of_char (char_of n :: char) :: nat)"
    by (rule of_nat_of_char [symmetric])
  also have "\<dots> = word_of_nat (take_bit 8 n)"
    by (simp add: of_char_of take_bit_eq_mod)
  finally have "(of_char (char_of n) :: u64) = word_of_nat (take_bit 8 n)" .
  then show "bit (push_bit 56 (of_char (char_of n) :: u64)) k = bit (push_bit 56 (word_of_nat n :: u64)) k"
    using \<open>k < LENGTH(64)\<close> by (auto simp: bit_simps)
qed

lemma list_shorter_than_8:
  assumes "length m < 8"
  obtains "m = []" | a where "m = [a]" | a b where "m = [a, b]" | a b c where "m = [a, b, c]"
    | a b c d where "m = [a, b, c, d]" | a b c d e where "m = [a, b, c, d, e]"
    | a b c d e f where "m = [a, b, c, d, e, f]"
    | a b c d e f g where "m = [a, b, c, d, e, f, g]"
proof -
  have "length m = 0 \<or> length m = 1 \<or> length m = 2 \<or> length m = 3 \<or> length m = 4 \<or>
      length m = 5 \<or> length m = 6 \<or> length m = 7"
    using assms by linarith
  then show thesis
    by (elim disjE) (auto simp: length_Suc_conv numeral_eq_Suc intro: that)
qed

lemma push_bit_funpow: "(push_bit 8 ^^ k) x = push_bit (8 * k) (x :: u64)"
  by (induction k) simp_all

lemma sip_tail_le64:
  assumes "length m < 8"
  shows "sip_tail (push_bit 56 (word_of_nat n)) m =
    le64 (m @ replicate (7 - length m) (CHR 0x00) @ [char_of n])"
  using assms
  by (rule list_shorter_than_8)
    (simp_all add: sip_tail_def le64_def Let_def push_bit_char_of push_bit_or push_bit_funpow
      or.assoc or.commute or.left_commute)

lemma chunks8_append:
  "8 dvd length a \<Longrightarrow> chunks8 (a @ b) = chunks8 a @ chunks8 b"
proof (induction a rule: chunks8.induct)
  case (1 a)
  show ?case
  proof (cases "a = []")
    case False
    with "1.prems" have "length a \<ge> 8" by (auto dest: dvd_imp_le)
    then have "chunks8 (a @ b) = take 8 a # chunks8 (drop 8 a @ b)"
      by (subst chunks8.simps) auto
    moreover have "8 dvd length (drop 8 a)"
      using "1.prems" by (simp add: dvd_diff_nat)
    ultimately show ?thesis
      using "1.IH" [OF False] False by (simp add: chunks8.simps [of a])
  qed (simp add: chunks8.simps)
qed

lemma chunks8_single: "length a = 8 \<Longrightarrow> chunks8 a = [a]"
  by (subst chunks8.simps) (auto simp: chunks8.simps)

lemma sip_pad_chunks:
  "map le64 (chunks8 (sip_pad m)) =
     map le64 (chunks8 (take (8 * (length m div 8)) m)) @
     [sip_tail (push_bit 56 (word_of_nat (length m))) (drop (8 * (length m div 8)) m)]"
proof -
  let ?w = "take (8 * (length m div 8)) m" and ?r = "drop (8 * (length m div 8)) m"
  have len: "length ?r = length m mod 8"
    by (simp add: minus_mult_div_eq_mod)
  let ?last = "?r @ replicate (7 - length ?r) (CHR 0x00) @ [char_of (length m)]"
  have "sip_pad m = (?w @ ?r) @ replicate (7 - length ?r) (CHR 0x00) @ [char_of (length m)]"
    by (simp only: sip_pad_def len append_take_drop_id)
  then have "sip_pad m = ?w @ ?last"
    by (simp only: append_assoc)
  moreover have "8 dvd length ?w" by (simp add: min_absorb2)
  moreover have "length ?last = 8" using len by simp
  moreover have "le64 ?last = sip_tail (push_bit 56 (word_of_nat (length m))) ?r"
    using len by (subst sip_tail_le64) simp_all
  ultimately show ?thesis
    by (simp add: chunks8_append chunks8_single)
qed

text \<open>
  C19: \<^verbatim>\<open>siphash24\<close>, with its unrolled loop and its fall-through switch, computes SipHash-2-4 of
  the key and the message, for every key and every message.
\<close>

theorem siphash24_correct: "siphash24 k m = sip_spec k m"
proof -
  let ?v = "(fst k XOR 0x736f6d6570736575, snd k XOR 0x646f72616e646f6d,
    fst k XOR 0x6c7967656e657261, snd k XOR 0x7465646279746573) :: sip_state"
  have four: "(sip_round ^^ 4) x = DOUBLE_ROUND (DOUBLE_ROUND x)" for x
    by (simp add: numeral_eq_Suc DOUBLE_ROUND_sip_round)
  show ?thesis
    unfolding siphash24_def sip_spec_def sip_words_spec sip_pad_chunks four
    by (simp add: sip_compress_def DOUBLE_ROUND_sip_round Let_def xor.assoc split: prod.splits)
qed

end
