(* ===== verification/Nearest_Prime.thy ===== *)
theory Nearest_Prime
  imports Prelude
begin

text \<open>
  Models \<^verbatim>\<open>cybozu/hash_map.cpp\<close>: \<^verbatim>\<open>nearest_prime\<close>, which chooses the number of buckets.
\<close>

section \<open>Prime bucket counts\<close>

text \<open>
  \<^verbatim>\<open>(unsigned int)std::rint(std::sqrt((double)i))\<close> for a 32-bit \<open>i\<close>: the square root in double
  precision is exact enough that rounding it gives the integer nearest to the real root,
  the least \<open>r\<close> with \<open>i \<le> r * r + r\<close>.
\<close>

function rint_sqrt_from :: "nat \<Rightarrow> nat \<Rightarrow> nat" where
  "rint_sqrt_from i r = (if i \<le> r * r + r then r else rint_sqrt_from i (Suc r))"
  by pat_completeness auto
termination
  by (relation "measure (\<lambda>(i, r). i - r)") (auto simp: not_le)

declare rint_sqrt_from.simps [simp del]

definition rint_sqrt :: "nat \<Rightarrow> nat" where
  "rint_sqrt i = rint_sqrt_from i 0"

text \<open>The inner loop: trial division by \<open>j, j + 2, \<dots>\<close> up to \<open>r\<close>.\<close>

function no_divisor :: "nat \<Rightarrow> nat \<Rightarrow> nat \<Rightarrow> bool" where
  "no_divisor i r j = (if j \<le> r then (if i mod j = 0 then False else no_divisor i r (j + 2)) else True)"
  by pat_completeness auto
termination
  by (relation "measure (\<lambda>(i, r, j). Suc r - j)") auto

declare no_divisor.simps [simp del]

definition trial_prime :: "u32 \<Rightarrow> bool" where
  "trial_prime i = no_divisor (unat i) (rint_sqrt (unat i)) 3"

lemma trial_prime_small: "trial_prime 0" "trial_prime 1"
  by (simp_all add: trial_prime_def rint_sqrt_def rint_sqrt_from.simps no_divisor.simps)

text \<open>
  The outer loop has no exit condition; it ends at the latest when \<^verbatim>\<open>i += 2\<close> has wrapped around
  to 0 or 1, which pass the trial division.
\<close>

function nearest_prime_loop :: "u32 \<Rightarrow> u32" where
  "nearest_prime_loop i = (if trial_prime i then i else nearest_prime_loop (i + 2))"
  by pat_completeness auto
termination
proof (relation "measure (\<lambda>i::u32. if i = 0 \<or> i = 1 then 0 else 2 ^ 32 - unat i)")
  fix i :: u32
  assume "\<not> trial_prime i"
  then have i: "i \<noteq> 0" "i \<noteq> 1" using trial_prime_small by auto
  have lt: "unat i < 2 ^ 32" using unsigned_less [of i, where 'a = nat] by simp
  show "(i + 2, i) \<in> measure (\<lambda>i::u32. if i = 0 \<or> i = 1 then 0 else 2 ^ 32 - unat i)"
  proof (cases "unat i + 2 < 2 ^ 32")
    case True
    then have "unat (i + 2) = unat i + 2" by (simp add: unat_word_ariths)
    with i lt show ?thesis by simp arith
  next
    case False
    then have "unat i = 2 ^ 32 - 2 \<or> unat i = 2 ^ 32 - 1" using lt by linarith
    then have "unat (i + 2) = 0 \<or> unat (i + 2) = 1" by (auto simp: unat_word_ariths)
    then have "i + 2 = 0 \<or> i + 2 = 1" by (auto simp: word_unat_eq_iff)
    with i lt show ?thesis by auto
  qed
qed simp

declare nearest_prime_loop.simps [simp del]

definition nearest_prime :: "u32 \<Rightarrow> u32" where
  "nearest_prime n = (if n = 2 then 2 else nearest_prime_loop (n OR 1))"

section \<open>The result is the nearest prime\<close>

definition is_prime :: "nat \<Rightarrow> bool" where
  "is_prime p \<longleftrightarrow> 1 < p \<and> (\<forall>d. d dvd p \<longrightarrow> d = 1 \<or> d = p)"

lemma rint_sqrt_from_ge: "i \<le> rint_sqrt_from i r * rint_sqrt_from i r + rint_sqrt_from i r"
proof (induction i r rule: rint_sqrt_from.induct)
  case (1 i r)
  then show ?case
    by (cases "i \<le> r * r + r") (simp_all add: rint_sqrt_from.simps [of i r])
qed

lemma rint_sqrt_from_le:
  "r \<le> t \<Longrightarrow> i \<le> t * t + t \<Longrightarrow> rint_sqrt_from i r \<le> t"
proof (induction i r rule: rint_sqrt_from.induct)
  case (1 i r)
  show ?case
  proof (cases "i \<le> r * r + r")
    case True
    with "1.prems" show ?thesis by (simp add: rint_sqrt_from.simps)
  next
    case False
    with "1.prems" have "Suc r \<le> t" by (metis le_antisym not_less_eq_eq)
    with False "1.IH" "1.prems" show ?thesis by (simp add: rint_sqrt_from.simps [of i r])
  qed
qed

lemma rint_sqrt_bound:
  assumes "d * d \<le> i"
  shows "d \<le> rint_sqrt i"
proof (rule ccontr)
  let ?r = "rint_sqrt i"
  assume "\<not> d \<le> ?r"
  then have "Suc ?r * Suc ?r \<le> d * d" by (intro mult_le_mono) auto
  with assms rint_sqrt_from_ge [of i 0] show False by (simp add: rint_sqrt_def)
qed

lemma rint_sqrt_less: "3 \<le> i \<Longrightarrow> rint_sqrt i < i"
proof -
  assume i: "3 \<le> i"
  then have "1 * i \<le> (i - 1) * i" by (intro mult_le_mono) auto
  then have "i \<le> (i - 1) * (i - 1) + (i - 1)"
    using i by (cases i) (simp_all add: algebra_simps)
  then have "rint_sqrt_from i 0 \<le> i - 1" by (rule rint_sqrt_from_le [rotated]) simp
  with i show ?thesis by (simp add: rint_sqrt_def)
qed

lemma all_nat_unfold: "(\<forall>k. P k) \<longleftrightarrow> P 0 \<and> (\<forall>k::nat. P (Suc k))"
  by (metis nat.exhaust)

lemma no_divisor_iff:
  "no_divisor i r j \<longleftrightarrow> (\<forall>k. j + 2 * k \<le> r \<longrightarrow> \<not> (j + 2 * k) dvd i)"
proof (induction i r j rule: no_divisor.induct)
  case (1 i r j)
  show ?case
  proof (cases "j \<le> r \<and> \<not> j dvd i")
    case True
    then have "no_divisor i r j \<longleftrightarrow> no_divisor i r (j + 2)"
      by (simp add: no_divisor.simps [of i r j] dvd_eq_mod_eq_0)
    also have "\<dots> \<longleftrightarrow> (\<forall>k. j + 2 * Suc k \<le> r \<longrightarrow> \<not> (j + 2 * Suc k) dvd i)"
      using "1.IH" True by (simp add: dvd_eq_mod_eq_0)
    also have "\<dots> \<longleftrightarrow> (\<forall>k. j + 2 * k \<le> r \<longrightarrow> \<not> (j + 2 * k) dvd i)"
      using True by (subst (2) all_nat_unfold) simp
    finally show ?thesis .
  next
    case False
    then show ?thesis
      by (auto simp: no_divisor.simps [of i r j] dvd_eq_mod_eq_0 intro: exI [of _ 0])
  qed
qed

lemma trial_prime_iff:
  assumes odd: "odd (unat i)" and ge: "3 \<le> unat i"
  shows "trial_prime i \<longleftrightarrow> is_prime (unat i)"
proof
  let ?n = "unat i"
  assume "trial_prime i"
  then have nodiv: "\<not> d dvd ?n" if "odd d" "3 \<le> d" "d \<le> rint_sqrt ?n" for d
  proof -
    from that(1,2) have "d = 3 + 2 * ((d - 3) div 2)" by presburger
    with \<open>trial_prime i\<close> that(3) show ?thesis
      unfolding trial_prime_def no_divisor_iff by metis
  qed
  show "is_prime ?n"
  proof (rule ccontr)
    assume "\<not> is_prime ?n"
    then obtain d e where de: "?n = d * e" "d \<noteq> 1" "d \<noteq> ?n"
      using ge by (auto simp: is_prime_def elim: dvdE)
    have "\<exists>d. d dvd ?n \<and> d \<noteq> 1 \<and> d * d \<le> ?n"
    proof (cases "d \<le> e")
      case True
      with de show ?thesis by (intro exI [of _ d]) simp
    next
      case False
      with de show ?thesis by (intro exI [of _ e]) (auto simp: mult_le_mono1)
    qed
    then obtain d where d: "d dvd ?n" "d \<noteq> 1" "d * d \<le> ?n" by blast
    have "odd d" using odd d(1) by (meson dvd_trans)
    moreover from this d(2) have "3 \<le> d" by presburger
    ultimately show False using nodiv [of d] rint_sqrt_bound [OF d(3)] d(1) by simp
  qed
next
  assume "is_prime (unat i)"
  moreover have "rint_sqrt (unat i) < unat i" by (rule rint_sqrt_less [OF ge])
  ultimately show "trial_prime i"
    by (auto simp: trial_prime_def no_divisor_iff is_prime_def)
qed

lemma is_prime_odd: "is_prime q \<Longrightarrow> 2 < q \<Longrightarrow> odd q"
  by (fastforce simp: is_prime_def)

lemma is_prime_upt: "is_prime p \<longleftrightarrow> 1 < p \<and> list_all (\<lambda>d. \<not> d dvd p) [2..<p]"
proof -
  have "d = 1 \<or> d = p \<or> 2 \<le> d \<and> d < p" if "d dvd p" "1 < p" for d
    using dvd_imp_le [OF that(1)] that by (cases "d = 0") auto
  then show ?thesis unfolding is_prime_def list_all_iff set_upt atLeastLessThan_iff Ball_def
    by (metis One_nat_def Suc_1 Suc_n_not_le_n nat_less_le)
qed

lemma nearest_prime_loop_spec:
  assumes "odd (unat i)" "3 \<le> unat i" "is_prime q" "unat i \<le> q" "q < 2 ^ 32"
  shows "is_prime (unat (nearest_prime_loop i)) \<and> unat i \<le> unat (nearest_prime_loop i) \<and>
    unat (nearest_prime_loop i) \<le> q"
  using assms
proof (induction i rule: nearest_prime_loop.induct)
  case (1 i)
  show ?case
  proof (cases "trial_prime i")
    case True
    with "1.prems" trial_prime_iff show ?thesis by (simp add: nearest_prime_loop.simps)
  next
    case False
    with "1.prems" trial_prime_iff have "unat i \<noteq> q" by auto
    moreover have "odd q" using is_prime_odd "1.prems" by simp
    ultimately have le: "unat i + 2 \<le> q" using "1.prems"(1,4) by presburger
    with "1.prems"(5) have "unat (i + 2) = unat i + 2"
      by (simp add: unat_plus_no_wrap)
    with "1.IH" [OF False] "1.prems" le False show ?thesis
      by (simp add: nearest_prime_loop.simps [of i])
  qed
qed

lemma unat_or_1: "unat (n OR 1 :: u32) = (if odd (unat n) then unat n else Suc (unat n))"
proof -
  have "unat (n OR 1) = unat n OR 1" by (simp only: unsigned_or_eq unsigned_1)
  also have "\<dots> = unat n + of_bool (even (unat n))" by (rule or_one_eq)
  finally show ?thesis by simp
qed


lemma is_prime_11: "is_prime 11"
  by (simp add: is_prime_upt upt_conv_Cons)


lemma nearest_prime_loop_odd: "odd (unat i) \<Longrightarrow> odd (unat (nearest_prime_loop i))"
proof (induction i rule: nearest_prime_loop.induct)
  case (1 i)
  have "odd (unat (i + 2))"
    using "1.prems" by (simp add: unat_word_ariths dvd_mod_iff)
  with 1 show ?case by (subst nearest_prime_loop.simps) simp
qed

text \<open>There is always at least one bucket.\<close>

lemma nearest_prime_pos: "0 < unat (nearest_prime n)"
  using nearest_prime_loop_odd [of "n OR 1"]
  by (simp add: nearest_prime_def unat_or_1 odd_pos)

end
