(* ===== verification/Hash_Map.thy ===== *)
theory Hash_Map
  imports Siphash Nearest_Prime
begin

text \<open>
  Models \<^verbatim>\<open>cybozu/hash_map.hpp\<close>: the object hash map.

  A \<^verbatim>\<open>hash_key\<close> is the byte string it holds; its cached hash is \<^term>\<open>siphash24 seed key\<close> for the
  global seed, passed to the operations as \<open>hf\<close>.  A \<^verbatim>\<open>bucket\<close> is the list of its items from
  \<^verbatim>\<open>m_objects\<close> on.  The callbacks the operations take (\<^verbatim>\<open>handler\<close>, \<^verbatim>\<open>creator\<close>, predicates) run
  under the bucket's mutex and may have effects and throw, so a callback takes and returns
  a state and may yield an exception.  Since each operation holds the mutex of the one bucket
  it works on, the locked operations and their \<^verbatim>\<open>_nolock\<close> versions are the same function here.

  The locale \<open>keyed_store\<close> states what the clients of the map rely on; the interpretation
  at the end discharges it for the buckets.
\<close>

type_synonym ('a, 's) handler = "string \<Rightarrow> 'a \<Rightarrow> 's \<Rightarrow> exn + (bool \<times> 'a \<times> 's)"
type_synonym ('a, 's) creator = "string \<Rightarrow> 's \<Rightarrow> exn + ('a \<times> 's)"

section \<open>Keys\<close>

definition has_prefix :: "string \<Rightarrow> string \<Rightarrow> bool" where
  "has_prefix key p = (if length key < length p then False else take (length p) key = p)"

section \<open>Buckets\<close>

type_synonym 'a bucket = "(string \<times> 'a) list"

text \<open>
  \<^verbatim>\<open>apply_nolock\<close>: the search loop handles the first item with the key and returns; when the
  loop ends, the creator adds an item in front.
\<close>

fun bucket_find_handle ::
  "string \<Rightarrow> ('a, 's) handler option \<Rightarrow> 'a bucket \<Rightarrow> 's \<Rightarrow> (exn + (bool \<times> 'a bucket \<times> 's)) option" where
  "bucket_find_handle key h [] s = None"
| "bucket_find_handle key h ((k, v) # b) s =
     (if k = key then
        Some (case h of
                None \<Rightarrow> Inr (False, (k, v) # b, s)
              | Some f \<Rightarrow> (case f k v s of
                             Inl e \<Rightarrow> Inl e
                           | Inr (r, v', s') \<Rightarrow> Inr (r, (k, v') # b, s')))
      else map_option (\<lambda>res. bind_res res (\<lambda>(r, b', s'). Inr (r, (k, v) # b', s')))
             (bucket_find_handle key h b s))"

definition bucket_apply_nolock ::
  "string \<Rightarrow> ('a, 's) handler option \<Rightarrow> ('a, 's) creator option \<Rightarrow> 'a bucket \<Rightarrow> 's
   \<Rightarrow> exn + (bool \<times> 'a bucket \<times> 's)" where
  "bucket_apply_nolock key h c b s =
     (case bucket_find_handle key h b s of
        Some res \<Rightarrow> res
      | None \<Rightarrow>
          (case c of
             None \<Rightarrow> Inr (False, b, s)
           | Some f \<Rightarrow> bind_res (f key s) (\<lambda>(v, s'). Inr (True, (key, v) # b, s'))))"

fun bucket_foreach ::
  "(string \<Rightarrow> 'a \<Rightarrow> 's \<Rightarrow> exn + ('a \<times> 's)) \<Rightarrow> 'a bucket \<Rightarrow> 's \<Rightarrow> exn + ('a bucket \<times> 's)" where
  "bucket_foreach pred [] s = Inr ([], s)"
| "bucket_foreach pred ((k, v) # b) s =
     bind_res (pred k v s) (\<lambda>(v', s').
     bind_res (bucket_foreach pred b s') (\<lambda>(b', s''). Inr ((k, v') # b', s'')))"

fun bucket_remove_nolock ::
  "string \<Rightarrow> (string \<Rightarrow> 's \<Rightarrow> exn + 's) option \<Rightarrow> 'a bucket \<Rightarrow> 's \<Rightarrow> exn + (bool \<times> 'a bucket \<times> 's)" where
  "bucket_remove_nolock key callback [] s = Inr (False, [], s)"
| "bucket_remove_nolock key callback ((k, v) # b) s =
     (if k = key then
        (case callback of
           None \<Rightarrow> Inr (True, b, s)
         | Some f \<Rightarrow> bind_res (f key s) (\<lambda>s'. Inr (True, b, s')))
      else bind_res (bucket_remove_nolock key callback b s)
             (\<lambda>(r, b', s'). Inr (r, (k, v) # b', s')))"

fun bucket_remove_if ::
  "string \<Rightarrow> ('a, 's) handler \<Rightarrow> 'a bucket \<Rightarrow> 's \<Rightarrow> exn + (bool \<times> 'a bucket \<times> 's)" where
  "bucket_remove_if key pred [] s = Inr (False, [], s)"
| "bucket_remove_if key pred ((k, v) # b) s =
     (if k = key then
        bind_res (pred key v s) (\<lambda>(del, v', s'). Inr (True, if del then b else (k, v') # b, s'))
      else bind_res (bucket_remove_if key pred b s)
             (\<lambda>(r, b', s'). Inr (r, (k, v) # b', s')))"

fun bucket_gc ::
  "('a, 's) handler \<Rightarrow> 'a bucket \<Rightarrow> 's \<Rightarrow> exn + ('a bucket \<times> 's)" where
  "bucket_gc pred [] s = Inr ([], s)"
| "bucket_gc pred ((k, v) # b) s =
     bind_res (pred k v s) (\<lambda>(del, v', s').
     bind_res (bucket_gc pred b s') (\<lambda>(b', s'').
       Inr (if del then b' else (k, v') # b', s'')))"

definition bucket_clear_nolock :: "'a bucket \<Rightarrow> 'a bucket" where
  "bucket_clear_nolock b = []"

section \<open>The hash map\<close>

record 'a hash_map =
  m_size :: nat
  m_buckets :: "'a bucket list"

definition hash_map_ctor :: "u32 \<Rightarrow> 'a hash_map" where
  "hash_map_ctor buckets =
     (let n = unat (nearest_prime buckets) in \<lparr>m_size = n, m_buckets = replicate n []\<rparr>)"

definition bucket_index :: "(string \<Rightarrow> u64) \<Rightarrow> 'a hash_map \<Rightarrow> string \<Rightarrow> nat" where
  "bucket_index hf m key = unat (hf key) mod m_size m"

definition get_bucket :: "(string \<Rightarrow> u64) \<Rightarrow> 'a hash_map \<Rightarrow> string \<Rightarrow> 'a bucket" where
  "get_bucket hf m key = m_buckets m ! bucket_index hf m key"

text \<open>An operation on one bucket is done in place in the vector.\<close>

definition put_bucket :: "(string \<Rightarrow> u64) \<Rightarrow> 'a hash_map \<Rightarrow> string \<Rightarrow> 'a bucket \<Rightarrow> 'a hash_map" where
  "put_bucket hf m key b = m\<lparr>m_buckets := (m_buckets m)[bucket_index hf m key := b]\<rparr>"

definition hash_map_apply ::
  "(string \<Rightarrow> u64) \<Rightarrow> string \<Rightarrow> ('a, 's) handler option \<Rightarrow> ('a, 's) creator option
   \<Rightarrow> 'a hash_map \<Rightarrow> 's \<Rightarrow> exn + (bool \<times> 'a hash_map \<times> 's)" where
  "hash_map_apply hf key h c m s =
     bind_res (bucket_apply_nolock key h c (get_bucket hf m key) s)
       (\<lambda>(r, b, s'). Inr (r, put_bucket hf m key b, s'))"

definition hash_map_remove ::
  "(string \<Rightarrow> u64) \<Rightarrow> string \<Rightarrow> (string \<Rightarrow> 's \<Rightarrow> exn + 's) option
   \<Rightarrow> 'a hash_map \<Rightarrow> 's \<Rightarrow> exn + (bool \<times> 'a hash_map \<times> 's)" where
  "hash_map_remove hf key callback m s =
     bind_res (bucket_remove_nolock key callback (get_bucket hf m key) s)
       (\<lambda>(r, b, s'). Inr (r, put_bucket hf m key b, s'))"

definition hash_map_remove_if ::
  "(string \<Rightarrow> u64) \<Rightarrow> string \<Rightarrow> ('a, 's) handler
   \<Rightarrow> 'a hash_map \<Rightarrow> 's \<Rightarrow> exn + (bool \<times> 'a hash_map \<times> 's)" where
  "hash_map_remove_if hf key pred m s =
     bind_res (bucket_remove_if key pred (get_bucket hf m key) s)
       (\<lambda>(r, b, s'). Inr (r, put_bucket hf m key b, s'))"

fun buckets_foreach ::
  "(string \<Rightarrow> 'a \<Rightarrow> 's \<Rightarrow> exn + ('a \<times> 's)) \<Rightarrow> 'a bucket list \<Rightarrow> 's \<Rightarrow> exn + ('a bucket list \<times> 's)" where
  "buckets_foreach pred [] s = Inr ([], s)"
| "buckets_foreach pred (b # bs) s =
     bind_res (bucket_foreach pred b s) (\<lambda>(b', s').
     bind_res (buckets_foreach pred bs s') (\<lambda>(bs', s''). Inr (b' # bs', s'')))"

definition hash_map_foreach ::
  "(string \<Rightarrow> 'a \<Rightarrow> 's \<Rightarrow> exn + ('a \<times> 's)) \<Rightarrow> 'a hash_map \<Rightarrow> 's \<Rightarrow> exn + ('a hash_map \<times> 's)" where
  "hash_map_foreach pred m s =
     bind_res (buckets_foreach pred (m_buckets m) s) (\<lambda>(bs, s'). Inr (m\<lparr>m_buckets := bs\<rparr>, s'))"

text \<open>The loop over all buckets that clears them (\<^verbatim>\<open>handler::clear\<close> of both protocols).\<close>

definition hash_map_clear :: "'a hash_map \<Rightarrow> 'a hash_map" where
  "hash_map_clear m = m\<lparr>m_buckets := map bucket_clear_nolock (m_buckets m)\<rparr>"

section \<open>The abstract view: a finite map from keys to objects\<close>

definition hm_lookup :: "(string \<Rightarrow> u64) \<Rightarrow> 'a hash_map \<Rightarrow> string \<Rightarrow> 'a option" where
  "hm_lookup hf m key = map_of (get_bucket hf m key) key"

definition hm_items :: "'a hash_map \<Rightarrow> (string \<times> 'a) list" where
  "hm_items m = concat (m_buckets m)"

text \<open>A bucket holds each key at most once, and only keys that hash to it.\<close>

definition bucket_ok :: "(string \<Rightarrow> u64) \<Rightarrow> nat \<Rightarrow> nat \<Rightarrow> 'a bucket \<Rightarrow> bool" where
  "bucket_ok hf n i b \<longleftrightarrow> distinct (map fst b) \<and> list_all (\<lambda>(k, _). unat (hf k) mod n = i) b"

definition hm_invar :: "(string \<Rightarrow> u64) \<Rightarrow> 'a hash_map \<Rightarrow> bool" where
  "hm_invar hf m \<longleftrightarrow>
     0 < m_size m \<and> length (m_buckets m) = m_size m \<and>
     (\<forall>i < m_size m. bucket_ok hf (m_size m) i (m_buckets m ! i))"

text \<open>What the operations do to a map from keys to objects.\<close>

definition map_apply ::
  "string \<Rightarrow> ('a, 's) handler option \<Rightarrow> ('a, 's) creator option
   \<Rightarrow> (string \<rightharpoonup> 'a) \<Rightarrow> 's \<Rightarrow> exn + (bool \<times> (string \<rightharpoonup> 'a) \<times> 's)" where
  "map_apply key h c M s =
     (case M key of
        Some v \<Rightarrow>
          (case h of
             None \<Rightarrow> Inr (False, M, s)
           | Some f \<Rightarrow> bind_res (f key v s) (\<lambda>(r, v', s'). Inr (r, M(key \<mapsto> v'), s')))
      | None \<Rightarrow>
          (case c of
             None \<Rightarrow> Inr (False, M, s)
           | Some f \<Rightarrow> bind_res (f key s) (\<lambda>(v, s'). Inr (True, M(key \<mapsto> v), s'))))"

definition map_remove ::
  "string \<Rightarrow> (string \<Rightarrow> 's \<Rightarrow> exn + 's) option \<Rightarrow> (string \<rightharpoonup> 'a) \<Rightarrow> 's
   \<Rightarrow> exn + (bool \<times> (string \<rightharpoonup> 'a) \<times> 's)" where
  "map_remove key callback M s =
     (if M key = None then Inr (False, M, s)
      else (case callback of
              None \<Rightarrow> Inr (True, M(key := None), s)
            | Some f \<Rightarrow> bind_res (f key s) (\<lambda>s'. Inr (True, M(key := None), s'))))"

definition map_remove_if ::
  "string \<Rightarrow> ('a, 's) handler \<Rightarrow> (string \<rightharpoonup> 'a) \<Rightarrow> 's \<Rightarrow> exn + (bool \<times> (string \<rightharpoonup> 'a) \<times> 's)" where
  "map_remove_if key pred M s =
     (case M key of
        None \<Rightarrow> Inr (False, M, s)
      | Some v \<Rightarrow> bind_res (pred key v s) (\<lambda>(del, v', s').
          Inr (True, if del then M(key := None) else M(key \<mapsto> v'), s')))"

definition abs_res :: "('m \<Rightarrow> 'n) \<Rightarrow> exn + ('r \<times> 'm \<times> 's) \<Rightarrow> exn + ('r \<times> 'n \<times> 's)" where
  "abs_res f res = bind_res res (\<lambda>(r, m, s). Inr (r, f m, s))"

lemma abs_res_simps [simp]:
  "abs_res f (Inl e) = Inl e"
  "abs_res f (Inr (r, m, s)) = Inr (r, f m, s)"
  by (simp_all add: abs_res_def)

lemma abs_res_eq_Inr:
  "abs_res f res = Inr (r, M, s) \<longleftrightarrow> (\<exists>m. res = Inr (r, m, s) \<and> f m = M)"
  by (cases res) (auto simp: abs_res_def)

section \<open>The interface of the map\<close>

text \<open>
  What a client of a keyed store relies on: an invariant, a look-up, and operations that act
  on the look-up function as \<^const>\<open>map_apply\<close>, \<^const>\<open>map_remove\<close> and \<^const>\<open>map_remove_if\<close> say.  The lemmas
  proved from these laws serve every client, whatever its objects and its callback state.
\<close>

locale keyed_store =
  fixes lookup :: "'m \<Rightarrow> string \<Rightarrow> 'a option"
    and invar :: "'m \<Rightarrow> bool"
    and apply_op :: "string \<Rightarrow> ('a, 's) handler option \<Rightarrow> ('a, 's) creator option \<Rightarrow> 'm \<Rightarrow> 's
      \<Rightarrow> exn + (bool \<times> 'm \<times> 's)"
    and remove_op :: "string \<Rightarrow> (string \<Rightarrow> 's \<Rightarrow> exn + 's) option \<Rightarrow> 'm \<Rightarrow> 's
      \<Rightarrow> exn + (bool \<times> 'm \<times> 's)"
    and remove_if_op :: "string \<Rightarrow> ('a, 's) handler \<Rightarrow> 'm \<Rightarrow> 's \<Rightarrow> exn + (bool \<times> 'm \<times> 's)"
  assumes apply_map: "invar m \<Longrightarrow> abs_res lookup (apply_op k h c m s) = map_apply k h c (lookup m) s"
    and remove_map: "invar m \<Longrightarrow> abs_res lookup (remove_op k cb m s) = map_remove k cb (lookup m) s"
    and remove_if_map:
      "invar m \<Longrightarrow> abs_res lookup (remove_if_op k p m s) = map_remove_if k p (lookup m) s"
    and apply_invar: "invar m \<Longrightarrow> apply_op k h c m s = Inr (r, m', s') \<Longrightarrow> invar m'"
    and remove_invar: "invar m \<Longrightarrow> remove_op k cb m s = Inr (r, m', s') \<Longrightarrow> invar m'"
    and remove_if_invar: "invar m \<Longrightarrow> remove_if_op k p m s = Inr (r, m', s') \<Longrightarrow> invar m'"
begin

lemma apply_InrD:
  "invar m \<Longrightarrow> apply_op k h c m s = Inr (r, m', s') \<Longrightarrow>
   map_apply k h c (lookup m) s = Inr (r, lookup m', s') \<and> invar m'"
  using apply_map [of m k h c s] apply_invar by fastforce

lemma apply_Inl_iff:
  "invar m \<Longrightarrow> apply_op k h c m s = Inl e \<longleftrightarrow> map_apply k h c (lookup m) s = Inl e"
  using apply_map [of m k h c s] by (cases "apply_op k h c m s") (auto simp: abs_res_def)

lemma apply_InrI:
  "invar m \<Longrightarrow> map_apply k h c (lookup m) s = Inr (r, M, s') \<Longrightarrow>
   \<exists>m'. apply_op k h c m s = Inr (r, m', s') \<and> lookup m' = M \<and> invar m'"
  using apply_map [of m k h c s] by (auto simp: abs_res_eq_Inr dest: apply_invar)

lemma remove_InrD:
  "invar m \<Longrightarrow> remove_op k cb m s = Inr (r, m', s') \<Longrightarrow>
   map_remove k cb (lookup m) s = Inr (r, lookup m', s') \<and> invar m'"
  using remove_map [of m k cb s] remove_invar by fastforce

lemma remove_if_InrD:
  "invar m \<Longrightarrow> remove_if_op k p m s = Inr (r, m', s') \<Longrightarrow>
   map_remove_if k p (lookup m) s = Inr (r, lookup m', s') \<and> invar m'"
  using remove_if_map [of m k p s] remove_if_invar by fastforce

lemma remove_if_Inl_iff:
  "invar m \<Longrightarrow> remove_if_op k p m s = Inl e \<longleftrightarrow> map_remove_if k p (lookup m) s = Inl e"
  using remove_if_map [of m k p s] by (cases "remove_if_op k p m s") (auto simp: abs_res_def)

lemma remove_if_InrI:
  "invar m \<Longrightarrow> map_remove_if k p (lookup m) s = Inr (r, M, s') \<Longrightarrow>
   \<exists>m'. remove_if_op k p m s = Inr (r, m', s') \<and> lookup m' = M \<and> invar m'"
  using remove_if_map [of m k p s] by (auto simp: abs_res_eq_Inr dest: remove_if_invar)

text \<open>An operation on one key leaves every other key alone.\<close>

lemma apply_other:
  assumes "invar m" "apply_op k h c m s = Inr (r, m', s')" "k' \<noteq> k"
  shows "lookup m' k' = lookup m k'"
  using apply_InrD [OF assms(1,2)] assms(3)
  by (auto simp: map_apply_def split: option.splits dest!: fun_cong [of _ _ k'])

lemma remove_if_other:
  assumes "invar m" "remove_if_op k p m s = Inr (r, m', s')" "k' \<noteq> k"
  shows "lookup m' k' = lookup m k'"
  using remove_if_InrD [OF assms(1,2)] assms(3)
  by (auto simp: map_remove_if_def split: option.splits if_splits dest!: fun_cong [of _ _ k'])

text \<open>
  A property of single objects and a property of the callback state that the callbacks
  maintain hold for the whole store after the operation.
\<close>

lemma apply_preserves:
  assumes "invar m" "apply_op k h c m s = Inr (r, m', s')"
    and all: "\<And>j v. lookup m j = Some v \<Longrightarrow> P j v" and "Q s"
    and handler: "\<And>f v b v' t. h = Some f \<Longrightarrow> P k v \<Longrightarrow> f k v s = Inr (b, v', t) \<Longrightarrow> P k v' \<and> Q t"
    and creator: "\<And>f v t. c = Some f \<Longrightarrow> f k s = Inr (v, t) \<Longrightarrow> P k v \<and> Q t"
  shows "Q s' \<and> (\<forall>j v. lookup m' j = Some v \<longrightarrow> P j v)"
proof -
  have map: "map_apply k h c (lookup m) s = Inr (r, lookup m', s')"
    using apply_InrD [OF assms(1,2)] by simp
  consider "Q s'" "lookup m' = lookup m"
    | v where "Q s'" "lookup m' = (lookup m)(k \<mapsto> v)" "P k v"
  proof (cases "lookup m k")
    case None
    show ?thesis
    proof (cases c)
      case None
      with map \<open>Q s\<close> \<open>lookup m k = None\<close> that(1) show ?thesis by (simp add: map_apply_def)
    next
      case (Some f)
      with map \<open>lookup m k = None\<close> obtain v where v: "f k s = Inr (v, s')" "lookup m' = (lookup m)(k \<mapsto> v)"
        by (auto simp: map_apply_def)
      with creator [OF Some v(1)] that(2) show ?thesis by blast
    qed
  next
    case (Some w)
    show ?thesis
    proof (cases h)
      case None
      with map \<open>Q s\<close> Some that(1) show ?thesis by (simp add: map_apply_def)
    next
      case (Some f)
      with map \<open>lookup m k = Some w\<close> obtain v where
        v: "f k w s = Inr (r, v, s')" "lookup m' = (lookup m)(k \<mapsto> v)"
        by (auto simp: map_apply_def)
      with handler [OF Some all [OF \<open>lookup m k = Some w\<close>] v(1)] that(2) show ?thesis by blast
    qed
  qed
  then show ?thesis using all by cases (simp_all split: if_splits)
qed

lemma remove_if_preserves:
  assumes "invar m" "remove_if_op k p m s = Inr (r, m', s')"
    and all: "\<And>j v. lookup m j = Some v \<Longrightarrow> P j v" and "Q s"
    and pred: "\<And>v b v' t. P k v \<Longrightarrow> p k v s = Inr (b, v', t) \<Longrightarrow> (b \<or> P k v') \<and> Q t"
  shows "Q s' \<and> (\<forall>j v. lookup m' j = Some v \<longrightarrow> P j v)"
proof -
  have map: "map_remove_if k p (lookup m) s = Inr (r, lookup m', s')"
    using remove_if_InrD [OF assms(1,2)] by simp
  consider "Q s'" "lookup m' = lookup m" | "Q s'" "lookup m' = (lookup m)(k := None)"
    | v where "Q s'" "lookup m' = (lookup m)(k \<mapsto> v)" "P k v"
  proof (cases "lookup m k")
    case None
    with map \<open>Q s\<close> that show ?thesis by (auto simp: map_remove_if_def)
  next
    case (Some w)
    with map obtain b v where v: "p k w s = Inr (b, v, s')"
        "lookup m' = (if b then (lookup m)(k := None) else (lookup m)(k \<mapsto> v))"
      by (auto simp: map_remove_if_def)
    with pred [OF all [OF Some] v(1)] that(2,3) show ?thesis by (cases b) simp_all
  qed
  then show ?thesis using all by cases (simp_all split: if_splits)
qed

end

section \<open>The buckets implement the interface\<close>

lemma bucket_find_handle_spec:
  "bucket_find_handle key h b s =
     (case map_of b key of
        None \<Rightarrow> None
      | Some v \<Rightarrow>
          Some (case h of
                  None \<Rightarrow> Inr (False, b, s)
                | Some f \<Rightarrow> bind_res (f key v s) (\<lambda>(r, v', s'). Inr (r, AList.update key v' b, s'))))"
  by (induction key h b s rule: bucket_find_handle.induct)
    (auto simp: bind_res_def split: option.splits sum.splits)

lemma bucket_remove_nolock_spec:
  assumes "distinct (map fst b)"
  shows "bucket_remove_nolock key cb b s =
     (case map_of b key of
        None \<Rightarrow> Inr (False, b, s)
      | Some _ \<Rightarrow>
          (case cb of
             None \<Rightarrow> Inr (True, AList.delete key b, s)
           | Some f \<Rightarrow> bind_res (f key s) (\<lambda>s'. Inr (True, AList.delete key b, s'))))"
  using assms
proof (induction key cb b s rule: bucket_remove_nolock.induct)
  case (2 key cb k v b s)
  then have "AList.delete k b = b" by (simp add: delete_id)
  with 2 show ?case by (cases "k = key") (simp_all add: bind_res_def split: option.split sum.split)
qed simp

lemma bucket_remove_if_spec:
  assumes "distinct (map fst b)"
  shows "bucket_remove_if key p b s =
     (case map_of b key of
        None \<Rightarrow> Inr (False, b, s)
      | Some v \<Rightarrow> bind_res (p key v s) (\<lambda>(del, v', s').
          Inr (True, if del then AList.delete key b else AList.update key v' b, s')))"
  using assms
proof (induction key p b s rule: bucket_remove_if.induct)
  case (2 key p k v b s)
  then have "AList.delete k b = b" by (simp add: delete_id)
  with 2 show ?case by (cases "k = key") (simp_all add: bind_res_def split: option.split sum.split)
qed simp

lemma bucket_index_put [simp]: "bucket_index hf (put_bucket hf m key b) k = bucket_index hf m k"
  by (simp add: bucket_index_def put_bucket_def)

lemma bucket_okI:
  "distinct (map fst b) \<Longrightarrow> (\<And>k. k \<in> fst ` set b \<Longrightarrow> unat (hf k) mod n = i) \<Longrightarrow> bucket_ok hf n i b"
  by (force simp: bucket_ok_def list_all_iff)

lemma bucket_okD:
  "bucket_ok hf n i b \<Longrightarrow> distinct (map fst b)"
  "bucket_ok hf n i b \<Longrightarrow> k \<in> fst ` set b \<Longrightarrow> unat (hf k) mod n = i"
  by (auto simp: bucket_ok_def list_all_iff)

lemma hm_invarD:
  assumes "hm_invar hf m"
  shows "bucket_index hf m key < length (m_buckets m)"
    and "bucket_ok hf (m_size m) (bucket_index hf m key) (get_bucket hf m key)"
    and "distinct (map fst (get_bucket hf m key))"
proof -
  show ix: "bucket_index hf m key < length (m_buckets m)"
    using assms by (simp add: hm_invar_def bucket_index_def)
  with assms show ok: "bucket_ok hf (m_size m) (bucket_index hf m key) (get_bucket hf m key)"
    by (simp add: hm_invar_def get_bucket_def)
  then show "distinct (map fst (get_bucket hf m key))" by (rule bucket_okD)
qed

lemma get_bucket_put:
  assumes "hm_invar hf m"
  shows "get_bucket hf (put_bucket hf m key b) k =
    (if bucket_index hf m k = bucket_index hf m key then b else get_bucket hf m k)"
  using hm_invarD(1) [OF assms] by (simp add: get_bucket_def) (simp add: put_bucket_def)

lemma hm_lookup_put:
  assumes "hm_invar hf m" "map_of b = (map_of (get_bucket hf m key))(key := x)"
  shows "hm_lookup hf (put_bucket hf m key b) = (hm_lookup hf m)(key := x)"
proof
  fix k
  have "bucket_index hf m k \<noteq> bucket_index hf m key \<Longrightarrow> k \<noteq> key"
    "bucket_index hf m k = bucket_index hf m key \<Longrightarrow> get_bucket hf m k = get_bucket hf m key"
    by (auto simp: get_bucket_def)
  then show "hm_lookup hf (put_bucket hf m key b) k = ((hm_lookup hf m)(key := x)) k"
    by (simp add: hm_lookup_def get_bucket_put [OF assms(1)] assms(2))
qed

lemma hm_lookup_put_same:
  assumes "hm_invar hf m"
  shows "put_bucket hf m key (get_bucket hf m key) = m"
  by (simp add: put_bucket_def get_bucket_def)

lemma hm_invar_put:
  assumes "hm_invar hf m" "distinct (map fst b)"
    and "fst ` set b \<subseteq> insert key (fst ` set (get_bucket hf m key))"
  shows "hm_invar hf (put_bucket hf m key b)"
proof -
  have "unat (hf k) mod m_size m = bucket_index hf m key" if "k \<in> fst ` set b" for k
    using assms(3) that bucket_okD(2) [OF hm_invarD(2) [OF assms(1), of key], of k]
    by (auto simp: bucket_index_def)
  with assms(2) have "bucket_ok hf (m_size m) (bucket_index hf m key) b"
    by (rule bucket_okI)
  with assms(1) hm_invarD(1) [OF assms(1), of key] show ?thesis
    by (auto simp: hm_invar_def put_bucket_def nth_list_update)
qed

lemma hm_invar_put_update:
  assumes "hm_invar hf m"
  shows "hm_invar hf (put_bucket hf m key (AList.update key v (get_bucket hf m key)))"
  using hm_invarD(3) [OF assms, of key] by (intro hm_invar_put assms) (simp_all add: distinct_update dom_update)

lemma hm_invar_put_delete:
  assumes "hm_invar hf m"
  shows "hm_invar hf (put_bucket hf m key (AList.delete key (get_bucket hf m key)))"
  using hm_invarD(3) [OF assms, of key]
  by (intro hm_invar_put assms distinct_delete) (auto simp: AList.delete_eq)

lemma hm_invar_put_Cons:
  assumes "hm_invar hf m" "map_of (get_bucket hf m key) key = None"
  shows "hm_invar hf (put_bucket hf m key ((key, v) # get_bucket hf m key))"
  using hm_invarD(3) [OF assms(1), of key] assms(2)
  by (intro hm_invar_put assms) (auto simp: map_of_eq_None_iff)

lemmas hm_put_invars = hm_invar_put_update hm_invar_put_delete hm_invar_put_Cons

lemma hash_map_apply_refines:
  assumes "hm_invar hf m"
  shows "abs_res (hm_lookup hf) (hash_map_apply hf key h c m s) = map_apply key h c (hm_lookup hf m) s"
  using assms
  by (auto simp: hash_map_apply_def bucket_apply_nolock_def bucket_find_handle_spec map_apply_def
      bind_res_def hm_lookup_def [of hf m key] hm_lookup_put_same AList.update_conv'
      split: option.splits sum.splits intro!: hm_lookup_put)

lemma hash_map_apply_invar:
  assumes "hm_invar hf m" "hash_map_apply hf key h c m s = Inr (r, m', s')"
  shows "hm_invar hf m'"
  using assms
  by (auto simp: hash_map_apply_def bucket_apply_nolock_def bucket_find_handle_spec hm_lookup_put_same
      split: option.splits intro: hm_put_invars)

lemma hash_map_remove_refines:
  assumes "hm_invar hf m"
  shows "abs_res (hm_lookup hf) (hash_map_remove hf key cb m s) = map_remove key cb (hm_lookup hf m) s"
  using assms hm_invarD(3) [OF assms, of key]
  by (auto simp: hash_map_remove_def bucket_remove_nolock_spec map_remove_def
      bind_res_def hm_lookup_def [of hf m key] hm_lookup_put_same AList.delete_conv'
      split: option.splits sum.splits intro!: hm_lookup_put)

lemma hash_map_remove_invar:
  assumes "hm_invar hf m" "hash_map_remove hf key cb m s = Inr (r, m', s')"
  shows "hm_invar hf m'"
  using assms hm_invarD(3) [OF assms(1), of key]
  by (auto simp: hash_map_remove_def bucket_remove_nolock_spec hm_lookup_put_same
      split: option.splits if_splits intro: hm_put_invars)

lemma hash_map_remove_if_refines:
  assumes "hm_invar hf m"
  shows "abs_res (hm_lookup hf) (hash_map_remove_if hf key p m s) =
    map_remove_if key p (hm_lookup hf m) s"
  using assms hm_invarD(3) [OF assms, of key]
  by (auto simp: hash_map_remove_if_def bucket_remove_if_spec map_remove_if_def
      bind_res_def hm_lookup_def [of hf m key] hm_lookup_put_same AList.delete_conv'
      AList.update_conv'
      split: option.splits sum.splits intro!: hm_lookup_put)

lemma hash_map_remove_if_invar:
  assumes "hm_invar hf m" "hash_map_remove_if hf key p m s = Inr (r, m', s')"
  shows "hm_invar hf m'"
  using assms hm_invarD(3) [OF assms(1), of key]
  by (auto simp: hash_map_remove_if_def bucket_remove_if_spec hm_lookup_put_same
      split: option.splits if_splits intro: hm_put_invars)

interpretation hm: keyed_store "hm_lookup hf" "hm_invar hf" "hash_map_apply hf" "hash_map_remove hf"
  "hash_map_remove_if hf" for hf
  by unfold_locales
    (auto simp: hash_map_apply_refines hash_map_remove_refines hash_map_remove_if_refines
      intro: hash_map_apply_invar hash_map_remove_invar hash_map_remove_if_invar)

section \<open>Any sequence of operations\<close>

lemma hm_invar_ctor: "hm_invar hf (hash_map_ctor n)"
  by (simp add: hm_invar_def hash_map_ctor_def Let_def nearest_prime_pos bucket_ok_def)

lemma hm_lookup_ctor: "hm_lookup hf (hash_map_ctor n) = Map.empty"
  by (simp add: hm_lookup_def get_bucket_def bucket_index_def hash_map_ctor_def Let_def
      nearest_prime_pos fun_eq_iff)

datatype ('a, 's) hm_op =
    Op_apply string "('a, 's) handler option" "('a, 's) creator option"
  | Op_remove string "(string \<Rightarrow> 's \<Rightarrow> exn + 's) option"
  | Op_remove_if string "('a, 's) handler"

primrec hm_step ::
  "(string \<Rightarrow> u64) \<Rightarrow> ('a, 's) hm_op \<Rightarrow> 'a hash_map \<Rightarrow> 's \<Rightarrow> exn + (bool \<times> 'a hash_map \<times> 's)" where
  "hm_step hf (Op_apply k h c) m s = hash_map_apply hf k h c m s"
| "hm_step hf (Op_remove k cb) m s = hash_map_remove hf k cb m s"
| "hm_step hf (Op_remove_if k p) m s = hash_map_remove_if hf k p m s"

primrec map_step ::
  "('a, 's) hm_op \<Rightarrow> (string \<rightharpoonup> 'a) \<Rightarrow> 's \<Rightarrow> exn + (bool \<times> (string \<rightharpoonup> 'a) \<times> 's)" where
  "map_step (Op_apply k h c) M s = map_apply k h c M s"
| "map_step (Op_remove k cb) M s = map_remove k cb M s"
| "map_step (Op_remove_if k p) M s = map_remove_if k p M s"

text \<open>Runs collect the boolean results, the final store and the final callback state.\<close>

fun hm_run ::
  "(string \<Rightarrow> u64) \<Rightarrow> ('a, 's) hm_op list \<Rightarrow> 'a hash_map \<Rightarrow> 's \<Rightarrow> exn + (bool list \<times> 'a hash_map \<times> 's)" where
  "hm_run hf [] m s = Inr ([], m, s)"
| "hm_run hf (a # ops) m s =
     bind_res (hm_step hf a m s) (\<lambda>(r, m', s').
     bind_res (hm_run hf ops m' s') (\<lambda>(rs, m'', s''). Inr (r # rs, m'', s'')))"

fun map_run ::
  "('a, 's) hm_op list \<Rightarrow> (string \<rightharpoonup> 'a) \<Rightarrow> 's \<Rightarrow> exn + (bool list \<times> (string \<rightharpoonup> 'a) \<times> 's)" where
  "map_run [] M s = Inr ([], M, s)"
| "map_run (a # ops) M s =
     bind_res (map_step a M s) (\<lambda>(r, M', s').
     bind_res (map_run ops M' s') (\<lambda>(rs, M'', s''). Inr (r # rs, M'', s'')))"

lemma hm_step_refines:
  assumes "hm_invar hf m"
  shows "map_step a (hm_lookup hf m) s = abs_res (hm_lookup hf) (hm_step hf a m s)"
  using assms by (cases a) (simp_all add: hm.apply_map hm.remove_map hm.remove_if_map)

lemma hm_step_invar:
  assumes "hm_invar hf m" "hm_step hf a m s = Inr (r, m', s')"
  shows "hm_invar hf m'"
  using assms
  by (cases a) (auto dest: hm.apply_invar hm.remove_invar hm.remove_if_invar)

lemma hm_run_refines:
  assumes "hm_invar hf m"
  shows "abs_res (hm_lookup hf) (hm_run hf ops m s) = map_run ops (hm_lookup hf m) s"
  using assms
proof (induction ops arbitrary: m s)
  case (Cons a ops)
  show ?case
  proof (cases "hm_step hf a m s")
    case (Inl e)
    then show ?thesis by (simp add: hm_step_refines [OF Cons.prems])
  next
    case (Inr res)
    obtain r m' s' where res: "res = (r, m', s')" by (cases res)
    have "abs_res (hm_lookup hf) (hm_run hf ops m' s') = map_run ops (hm_lookup hf m') s'"
      by (rule Cons.IH [OF hm_step_invar [OF Cons.prems Inr [unfolded res]]])
    from this [symmetric] show ?thesis
      using Inr res
      by (cases "hm_run hf ops m' s'") (auto simp: hm_step_refines [OF Cons.prems])
  qed
qed simp

text \<open>
  C5: a hash map created for any number of buckets behaves, for every hash function, every
  sequence of \<^verbatim>\<open>apply\<close>, \<^verbatim>\<open>remove\<close> and \<^verbatim>\<open>remove_if\<close> calls and all callbacks, as a finite map from
  keys to objects: the results of the calls, the effects of the callbacks in their order, the
  first exception thrown, if any, and the objects found under every key at the end agree.
\<close>

theorem hash_map_refines_map:
  "abs_res (hm_lookup hf) (hm_run hf ops (hash_map_ctor n) s) = map_run ops Map.empty s"
  by (simp add: hm_run_refines [OF hm_invar_ctor] hm_lookup_ctor)

end
