(* ===== verification/Config_Parser.thy ===== *)
theory Config_Parser
  imports Util
begin

text \<open>
  Models \<^verbatim>\<open>cybozu/config_parser.hpp\<close> and \<^verbatim>\<open>cybozu/config_parser.cpp\<close>: files of \<^verbatim>\<open>key = value\<close> lines.

  A file is its bytes; a file that cannot be opened is \<^const>\<open>None\<close>.  The table of the parser is a
  map from keys to values.
\<close>

type_synonym config_table = "string \<rightharpoonup> string"

section \<open>Loading\<close>

text \<open>\<^verbatim>\<open>white_spaces\<close> holds exactly the characters of \<^const>\<open>is_space\<close>.\<close>

definition rtrim :: "string \<Rightarrow> string" where
  "rtrim s = rev (dropWhile is_space (rev s))"

definition ltrim :: "string \<Rightarrow> string" where
  "ltrim s = dropWhile is_space s"

text \<open>The lines \<^verbatim>\<open>std::getline\<close> yields: a last line without a newline counts, an empty rest does not.\<close>

fun getlines :: "string \<Rightarrow> string \<Rightarrow> string list" where
  "getlines cur [] = (if cur = [] then [] else [cur])"
| "getlines cur (c # s) = (if c = CHR 0x0A then cur # getlines [] s else getlines (cur @ [c]) s)"

definition unquote :: "string \<Rightarrow> string" where
  "unquote value =
     (if 2 \<le> length value \<and> hd value = CHR 0x22 \<and> last value = CHR 0x22
      then butlast (tl value) else value)"

definition parser_set :: "string \<Rightarrow> string \<Rightarrow> config_table \<Rightarrow> config_table" where
  "parser_set key value t = t(key \<mapsto> value)"

text \<open>The body of the loop on one line: skip, reject or store.\<close>

definition load_line :: "nat \<Rightarrow> string \<Rightarrow> config_table \<Rightarrow> exn + config_table" where
  "load_line lineno l0 t =
     (let l = rtrim (ltrim l0)
      in if l = [] \<or> hd l = CHR ''#'' then Inr t
         else if CHR ''='' \<notin> set l then Inl (Parse_error lineno)
         else
           (let key = rtrim (takeWhile (\<lambda>c. c \<noteq> CHR ''='') l);
                value = ltrim (tl (dropWhile (\<lambda>c. c \<noteq> CHR ''='') l))
            in Inr (parser_set key (unquote value) t)))"

fun load_lines :: "nat \<Rightarrow> string list \<Rightarrow> config_table \<Rightarrow> exn + config_table" where
  "load_lines lineno [] t = Inr t"
| "load_lines lineno (l # ls) t = bind_res (load_line (Suc lineno) l t) (load_lines (Suc lineno) ls)"

definition parser_load :: "string option \<Rightarrow> exn + config_table" where
  "parser_load contents =
     (case contents of
        None \<Rightarrow> Inl (Runtime_error ''failed to open'')
      | Some s \<Rightarrow> load_lines 0 (getlines [] s) Map.empty)"

section \<open>Look-up\<close>

definition parser_get :: "config_table \<Rightarrow> string \<Rightarrow> exn + string" where
  "parser_get t key = (case t key of None \<Rightarrow> Inl (Not_found key) | Some v \<Rightarrow> Inr v)"

definition parser_exists :: "config_table \<Rightarrow> string \<Rightarrow> bool" where
  "parser_exists t key \<longleftrightarrow> t key \<noteq> None"

text \<open>The handlers turn the exceptions of the conversions into \<^verbatim>\<open>illegal_value\<close>.\<close>

definition as_illegal_value :: "string \<Rightarrow> exn + 'a \<Rightarrow> exn + 'a" where
  "as_illegal_value key r =
     (case r of
        Inl e \<Rightarrow> (if e = Invalid_argument \<or> e = Out_of_range then Inl (Illegal_value key) else Inl e)
      | Inr x \<Rightarrow> Inr x)"

definition get_as_int :: "config_table \<Rightarrow> string \<Rightarrow> exn + int" where
  "get_as_int t key = as_illegal_value key (bind_res (parser_get t key) stoi)"

definition get_as_uint64 :: "config_table \<Rightarrow> string \<Rightarrow> exn + u64" where
  "get_as_uint64 t key = as_illegal_value key (bind_res (parser_get t key) stoull)"

definition get_as_bool :: "config_table \<Rightarrow> string \<Rightarrow> exn + bool" where
  "get_as_bool t key =
     bind_res (parser_get t key) (\<lambda>s.
       if s = ''true'' then Inr True
       else if s = ''false'' then Inr False
       else Inl (Illegal_value key))"

section \<open>Writing a file and loading it\<close>

text \<open>
  The format: one \<^verbatim>\<open>key = "value"\<close> line per entry.  A key that survives trimming, is not a
  comment and holds no equals sign, and a value without newlines, are read back.
\<close>

definition print_entry :: "string \<times> string \<Rightarrow> string" where
  "print_entry e = fst e @ '' = '' @ [CHR 0x22] @ snd e @ [CHR 0x22]"

definition print_entries :: "(string \<times> string) list \<Rightarrow> string" where
  "print_entries es = concat (map (\<lambda>e. print_entry e @ [CHR 0x0A]) es)"

definition plain_key :: "string \<Rightarrow> bool" where
  "plain_key k \<longleftrightarrow> k \<noteq> [] \<and> \<not> is_space (hd k) \<and> \<not> is_space (last k) \<and> hd k \<noteq> CHR ''#'' \<and>
     CHR ''='' \<notin> set k \<and> CHR 0x0A \<notin> set k"

lemma getlines_line:
  "CHR 0x0A \<notin> set l \<Longrightarrow> getlines cur (l @ CHR 0x0A # s) = (cur @ l) # getlines [] s"
  by (induction l arbitrary: cur) auto

lemma ltrim_id: "s = [] \<or> \<not> is_space (hd s) \<Longrightarrow> ltrim s = s"
  by (cases s) (auto simp: ltrim_def)

lemma rtrim_id: "s = [] \<or> \<not> is_space (last s) \<Longrightarrow> rtrim s = s"
  by (cases s rule: rev_cases) (auto simp: rtrim_def)

lemma rtrim_blank: "k \<noteq> [] \<Longrightarrow> \<not> is_space (last k) \<Longrightarrow> rtrim (k @ '' '') = k"
  by (cases k rule: rev_cases) (auto simp: rtrim_def is_space_def)

lemma load_print_entry:
  assumes "plain_key (fst e)"
  shows "load_line n (print_entry e) t = Inr (parser_set (fst e) (snd e) t)"
proof -
  obtain k v where e: "e = (k, v)" by (cases e)
  let ?q = "[CHR 0x22] @ v @ [CHR 0x22]"
  have k: "k \<noteq> []" "\<not> is_space (hd k)" "\<not> is_space (last k)" "hd k \<noteq> CHR ''#''" "CHR ''='' \<notin> set k"
    using assms e by (auto simp: plain_key_def)
  have line: "print_entry e = (k @ '' '') @ CHR ''='' # CHR '' '' # ?q" by (simp add: print_entry_def e)
  have trim: "rtrim (ltrim (print_entry e)) = print_entry e"
    using k(1,2) by (simp add: line ltrim_id rtrim_id is_space_def)
  have ks: "\<And>c. c \<in> set (k @ '' '') \<Longrightarrow> c \<noteq> CHR ''=''" using k(5) by auto
  have "takeWhile (\<lambda>c. c \<noteq> CHR ''='') (print_entry e) = k @ '' ''"
    unfolding line by (rule takeWhile_append_stop) (use ks in auto)
  moreover have "dropWhile (\<lambda>c. c \<noteq> CHR ''='') (print_entry e) = CHR ''='' # CHR '' '' # ?q"
    unfolding line by (rule dropWhile_append_stop) (use ks in auto)
  moreover have "ltrim (CHR '' '' # ?q) = ?q" by (simp add: ltrim_def is_space_def)
  moreover have "unquote ?q = v" by (simp add: unquote_def butlast_append)
  moreover have "print_entry e \<noteq> []" "hd (print_entry e) \<noteq> CHR ''#''" "CHR ''='' \<in> set (print_entry e)"
    using k(1,4) by (simp_all add: line)
  ultimately show ?thesis
    using rtrim_blank [OF k(1,3)] e unfolding load_line_def trim Let_def by simp
qed

lemma load_print_entries:
  assumes "\<And>e. e \<in> set es \<Longrightarrow> plain_key (fst e) \<and> CHR 0x0A \<notin> set (snd e)"
  shows "load_lines n (getlines [] (print_entries es)) t = Inr (t ++ map_of (rev es))"
  using assms
proof (induction es arbitrary: n t)
  case (Cons e es)
  have nl: "CHR 0x0A \<notin> set (print_entry e)" "plain_key (fst e)"
    using Cons.prems [of e] by (auto simp: print_entry_def plain_key_def)
  have "getlines [] (print_entries (e # es)) = print_entry e # getlines [] (print_entries es)"
    using getlines_line [OF nl(1), of "[]"] by (simp add: print_entries_def)
  moreover have "load_lines (Suc n) (getlines [] (print_entries es)) (parser_set (fst e) (snd e) t) =
      Inr (parser_set (fst e) (snd e) t ++ map_of (rev es))"
    using Cons by simp
  moreover have "parser_set (fst e) (snd e) t ++ map_of (rev es) = t ++ map_of (rev (e # es))"
    by (simp add: parser_set_def)
  ultimately show ?case by (simp add: load_print_entry [OF nl(2)])
qed (simp add: print_entries_def)

text \<open>
  C36: a configuration file written as \<^verbatim>\<open>key = "value"\<close> lines loads to exactly the table it was
  written from, a later entry for a key overriding an earlier one, whatever characters other
  than a newline the values hold.
\<close>

theorem parser_load_print:
  assumes "\<And>e. e \<in> set es \<Longrightarrow> plain_key (fst e) \<and> CHR 0x0A \<notin> set (snd e)"
  shows "parser_load (Some (print_entries es)) = Inr (map_of (rev es))"
  using load_print_entries [OF assms] by (simp add: parser_load_def)

theorem parser_load_print_witness:
  "parser_load (Some (print_entries [(''port'', ''11211''), (''user'', '' a=#b '')])) =
   Inr (map_of (rev [(''port'', ''11211''), (''user'', '' a=#b '')]))"
  by (rule parser_load_print) (auto simp: plain_key_def is_space_def)

end
