(* ===== verification/Config.thy ===== *)
theory Config
  imports Config_Parser
begin

text \<open>
  Models \<^verbatim>\<open>src/config.hpp\<close> and \<^verbatim>\<open>src/config.cpp\<close>: the server configuration, its defaults and the
  checks made while it is loaded, and \<^verbatim>\<open>src/constants.hpp\<close>.

  What the operating system answers is the argument \<open>env\<close>: the parsing of addresses and the
  tests on directories.  Warnings go to the log only and are left out.
\<close>

section \<open>Constants\<close>

definition DEFAULT_MEMCACHE_PORT :: nat where "DEFAULT_MEMCACHE_PORT = 11211"
definition DEFAULT_REPL_PORT :: nat where "DEFAULT_REPL_PORT = 11213"
definition DEFAULT_COUNTER_PORT :: nat where "DEFAULT_COUNTER_PORT = 11215"
definition DEFAULT_BUCKETS :: nat where "DEFAULT_BUCKETS = 1000000"
definition DEFAULT_MAX_DATA_SIZE :: nat where "DEFAULT_MAX_DATA_SIZE = 2 ^ 20"
definition DEFAULT_HEAP_DATA_LIMIT :: nat where "DEFAULT_HEAP_DATA_LIMIT = 256 * 2 ^ 10"
definition DEFAULT_MEMORY_LIMIT :: nat where "DEFAULT_MEMORY_LIMIT = 2 ^ 30"
definition DEFAULT_REPL_BUFSIZE :: nat where "DEFAULT_REPL_BUFSIZE = 30"
definition DEFAULT_WORKER_THREADS :: nat where "DEFAULT_WORKER_THREADS = 8"
definition DEFAULT_GC_INTERVAL :: nat where "DEFAULT_GC_INTERVAL = 10"
definition DEFAULT_SLAVE_TIMEOUT :: nat where "DEFAULT_SLAVE_TIMEOUT = 10"
definition DEFAULT_STAT_INTERVAL :: nat where "DEFAULT_STAT_INTERVAL = 86400"
definition MAX_KEY_LENGTH :: nat where "MAX_KEY_LENGTH = 250"
definition FLUSH_AGE :: nat where "FLUSH_AGE = 10"
definition MAX_RECVSIZE :: nat where "MAX_RECVSIZE = 2 * 2 ^ 20"
definition MAX_WORKERS :: nat where "MAX_WORKERS = 64"
definition MAX_REQUEST_LENGTH :: nat where "MAX_REQUEST_LENGTH = 30 * 2 ^ 20"
definition MAX_SLAVES :: nat where "MAX_SLAVES = 5"
definition MAX_CONSECUTIVE_GCS :: nat where "MAX_CONSECUTIVE_GCS = 3"
definition VERSION :: string where "VERSION = ''yrmcds version 1.1.12''"

section \<open>The configuration\<close>

datatype severity = Sev_error | Sev_warning | Sev_info | Sev_debug

record counter_config =
  cc_enable :: bool
  cc_port :: nat
  cc_max_connections :: nat
  cc_buckets :: nat
  cc_stat_interval :: nat

definition counter_config_default :: counter_config where
  "counter_config_default =
     \<lparr>cc_enable = False, cc_port = DEFAULT_COUNTER_PORT, cc_max_connections = 0,
      cc_buckets = DEFAULT_BUCKETS, cc_stat_interval = DEFAULT_STAT_INTERVAL\<rparr>"

record 'ip config =
  vip :: 'ip
  port :: nat
  repl_port :: nat
  bind_ip :: "'ip list"
  max_connections :: nat
  tempdir :: string
  user :: string
  group :: string
  threshold :: severity
  logfile :: string
  buckets :: nat
  max_data_size :: nat
  heap_data_limit :: nat
  memory_limit :: nat
  repl_bufsize :: nat
  initial_repl_sleep_delay_usec :: u64
  secure_erase :: bool
  lock_memory :: bool
  workers :: nat
  gc_interval :: nat
  slave_timeout :: nat
  counter :: counter_config

record 'ip config_env =
  ce_parse_ip :: "string \<Rightarrow> exn + 'ip"
  ce_is_dir :: "string \<Rightarrow> bool"
  ce_is_writable :: "string \<Rightarrow> bool"

text \<open>The constructor; \<open>lo\<close> is the parsed default address 127.0.0.1.\<close>

definition config_default :: "'ip \<Rightarrow> 'ip config" where
  "config_default lo =
     \<lparr>vip = lo, port = DEFAULT_MEMCACHE_PORT, repl_port = DEFAULT_REPL_PORT, bind_ip = [],
      max_connections = 0, tempdir = ''/var/tmp'', user = [], group = [], threshold = Sev_info,
      logfile = [], buckets = DEFAULT_BUCKETS, max_data_size = DEFAULT_MAX_DATA_SIZE,
      heap_data_limit = DEFAULT_HEAP_DATA_LIMIT, memory_limit = DEFAULT_MEMORY_LIMIT,
      repl_bufsize = DEFAULT_REPL_BUFSIZE, initial_repl_sleep_delay_usec = 0,
      secure_erase = False, lock_memory = False, workers = DEFAULT_WORKER_THREADS,
      gc_interval = DEFAULT_GC_INTERVAL, slave_timeout = DEFAULT_SLAVE_TIMEOUT,
      counter = counter_config_default\<rparr>"

section \<open>Loading\<close>

definition unit_base :: "char \<Rightarrow> nat" where
  "unit_base b =
     (if b = CHR ''k'' \<or> b = CHR ''K'' then 2 ^ 10
      else if b = CHR ''m'' \<or> b = CHR ''M'' then 2 ^ 20
      else if b = CHR ''g'' \<or> b = CHR ''G'' then 2 ^ 30
      else 1)"

definition parse_unit :: "string \<Rightarrow> string \<Rightarrow> exn + nat" where
  "parse_unit s cmd =
     (let base = unit_base (last s);
          s' = (if base \<noteq> 1 then butlast s else s)
      in bind_res (stoi s') (\<lambda>n.
           if n < 1 then Inl (Bad_config (cmd @ '' must be > 0'')) else Inr (base * nat n)))"

definition parse_threshold :: "string \<Rightarrow> severity option" where
  "parse_threshold s =
     map_of [(''error'', Sev_error), (''warning'', Sev_warning), (''info'', Sev_info),
             (''debug'', Sev_debug)] s"

text \<open>The common shapes of the blocks \<^verbatim>\<open>if( cp.exists(KEY) ) { ... }\<close>.\<close>

definition opt_key :: "config_table \<Rightarrow> string \<Rightarrow> (string \<Rightarrow> 'c \<Rightarrow> exn + 'c) \<Rightarrow> 'c \<Rightarrow> exn + 'c" where
  "opt_key cp key f c = (if parser_exists cp key then bind_res (parser_get cp key) (\<lambda>v. f v c) else Inr c)"

definition opt_int ::
  "config_table \<Rightarrow> string \<Rightarrow> (string \<Rightarrow> int \<Rightarrow> string option) \<Rightarrow> (nat \<Rightarrow> 'c \<Rightarrow> 'c) \<Rightarrow> 'c \<Rightarrow> exn + 'c" where
  "opt_int cp key check upd c =
     (if parser_exists cp key then
        bind_res (get_as_int cp key) (\<lambda>n.
        bind_res (parser_get cp key) (\<lambda>raw.
          case check raw n of Some msg \<Rightarrow> Inl (Bad_config msg) | None \<Rightarrow> Inr (upd (nat n) c)))
      else Inr c)"

definition at_least :: "int \<Rightarrow> string \<Rightarrow> string \<Rightarrow> int \<Rightarrow> string option" where
  "at_least lo msg raw n = (if n < lo then Some msg else None)"

definition check_port :: "string \<Rightarrow> string \<Rightarrow> int \<Rightarrow> string option" where
  "check_port msg raw n = (if n < 1 \<or> n > 65535 then Some (msg @ raw) else None)"

definition check_workers :: "string \<Rightarrow> int \<Rightarrow> string option" where
  "check_workers raw n =
     (if n < 1 then Some ''workers must be > 0''
      else if n > int MAX_WORKERS then Some (''workers must be <= '' @ to_decimal MAX_WORKERS)
      else None)"

definition opt_bool :: "config_table \<Rightarrow> string \<Rightarrow> (bool \<Rightarrow> 'c \<Rightarrow> 'c) \<Rightarrow> 'c \<Rightarrow> exn + 'c" where
  "opt_bool cp key upd c =
     (if parser_exists cp key then bind_res (get_as_bool cp key) (\<lambda>b. Inr (upd b c)) else Inr c)"

definition opt_unit ::
  "config_table \<Rightarrow> string \<Rightarrow> (nat \<Rightarrow> 'c \<Rightarrow> exn + 'c) \<Rightarrow> 'c \<Rightarrow> exn + 'c" where
  "opt_unit cp key upd =
     opt_key cp key (\<lambda>t c.
       if t = [] then Inl (Bad_config (key @ '' must not be empty''))
       else bind_res (parse_unit t key) (\<lambda>n. upd n c))"

definition counter_config_load :: "config_table \<Rightarrow> counter_config \<Rightarrow> exn + counter_config" where
  "counter_config_load cp =
     run_steps
      [opt_bool cp ''counter.enable'' (\<lambda>b. cc_enable_update (\<lambda>_. b)),
       opt_int cp ''counter.port'' (check_port ''Bad port: '') (\<lambda>n. cc_port_update (\<lambda>_. n)),
       opt_int cp ''counter.max_connections'' (at_least 0 ''counter.max_connections must be >= 0'')
         (\<lambda>n. cc_max_connections_update (\<lambda>_. n)),
       opt_int cp ''counter.buckets'' (at_least 1 ''buckets must be > 0'')
         (\<lambda>n. cc_buckets_update (\<lambda>_. n)),
       opt_int cp ''counter.stat_interval'' (at_least 10 ''counter.stat_interval must be >= 10'')
         (\<lambda>n. cc_stat_interval_update (\<lambda>_. n))]"

definition load_bind_ip :: "'ip config_env \<Rightarrow> string \<Rightarrow> 'ip config \<Rightarrow> exn + 'ip config" where
  "load_bind_ip env v c =
     run_steps (map (\<lambda>s c. bind_res (ce_parse_ip env s) (\<lambda>a. Inr (c\<lparr>bind_ip := bind_ip c @ [a]\<rparr>)))
                  (tokenize v (CHR '' ''))) c"

definition load_temp_dir :: "'ip config_env \<Rightarrow> string \<Rightarrow> 'ip config \<Rightarrow> exn + 'ip config" where
  "load_temp_dir env v c =
     (if \<not> ce_is_dir env v then Inl (Bad_config (''Not a directory: '' @ v))
      else if \<not> ce_is_writable env v then Inl (Bad_config (''Directory not writable: '' @ v))
      else Inr (c\<lparr>tempdir := v\<rparr>))"

definition load_log_threshold :: "string \<Rightarrow> 'ip config \<Rightarrow> exn + 'ip config" where
  "load_log_threshold v c =
     (case parse_threshold v of
        None \<Rightarrow> Inl (Bad_config (''Invalid threshold: '' @ v))
      | Some s \<Rightarrow> Inr (c\<lparr>threshold := s\<rparr>))"

definition load_log_file :: "string \<Rightarrow> 'ip config \<Rightarrow> exn + 'ip config" where
  "load_log_file v c =
     (if v = [] \<or> hd v \<noteq> CHR ''/'' then Inl (Bad_config (''Invalid log file: '' @ v))
      else Inr (c\<lparr>logfile := v\<rparr>))"

definition load_heap_data_limit :: "nat \<Rightarrow> 'ip config \<Rightarrow> exn + 'ip config" where
  "load_heap_data_limit n c =
     (if n < 4096 then Inl (Bad_config ''too small heap_data_limit'')
      else Inr (c\<lparr>heap_data_limit := n\<rparr>))"

definition load_sleep_delay :: "config_table \<Rightarrow> 'ip config \<Rightarrow> exn + 'ip config" where
  "load_sleep_delay cp c =
     (if parser_exists cp ''initial_repl_sleep_delay_usec'' then
        bind_res (get_as_uint64 cp ''initial_repl_sleep_delay_usec'')
          (\<lambda>n. Inr (c\<lparr>initial_repl_sleep_delay_usec := n\<rparr>))
      else Inr c)"

text \<open>The blocks of \<^verbatim>\<open>config::load\<close> in the order of the source.\<close>

definition load_steps :: "'ip config_env \<Rightarrow> config_table \<Rightarrow> ('ip config \<Rightarrow> exn + 'ip config) list" where
  "load_steps env cp =
    [opt_key cp ''virtual_ip'' (\<lambda>v c. bind_res (ce_parse_ip env v) (\<lambda>a. Inr (c\<lparr>vip := a\<rparr>))),
     opt_int cp ''port'' (check_port ''Bad port: '') (\<lambda>n. port_update (\<lambda>_. n)),
     opt_int cp ''repl_port'' (check_port ''Bad repl port: '') (\<lambda>n. repl_port_update (\<lambda>_. n)),
     opt_key cp ''bind_ip'' (load_bind_ip env),
     opt_int cp ''max_connections'' (at_least 0 ''max_connections must be >= 0'')
       (\<lambda>n. max_connections_update (\<lambda>_. n)),
     opt_key cp ''temp_dir'' (load_temp_dir env),
     opt_key cp ''user'' (\<lambda>v c. Inr (c\<lparr>user := v\<rparr>)),
     opt_key cp ''group'' (\<lambda>v c. Inr (c\<lparr>group := v\<rparr>)),
     opt_key cp ''log.threshold'' load_log_threshold,
     opt_key cp ''log.file'' load_log_file,
     opt_int cp ''buckets'' (at_least 1 ''buckets must be > 0'') (\<lambda>n. buckets_update (\<lambda>_. n)),
     opt_unit cp ''max_data_size'' (\<lambda>n c. Inr (c\<lparr>max_data_size := n\<rparr>)),
     opt_unit cp ''heap_data_limit'' load_heap_data_limit,
     opt_unit cp ''memory_limit'' (\<lambda>n c. Inr (c\<lparr>memory_limit := n\<rparr>)),
     opt_int cp ''repl_buffer_size'' (at_least 1 ''repl_buffer_size must be > 0'')
       (\<lambda>n. repl_bufsize_update (\<lambda>_. n)),
     load_sleep_delay cp,
     opt_bool cp ''secure_erase'' (\<lambda>b. secure_erase_update (\<lambda>_. b)),
     opt_bool cp ''lock_memory'' (\<lambda>b. lock_memory_update (\<lambda>_. b)),
     opt_int cp ''workers'' check_workers
       (\<lambda>n. workers_update (\<lambda>_. n)),
     opt_int cp ''gc_interval'' (at_least 1 ''gc_interval must be > 0'') (\<lambda>n. gc_interval_update (\<lambda>_. n)),
     opt_int cp ''slave_timeout'' (at_least 1 ''slave_timeout must be > 0'')
       (\<lambda>n. slave_timeout_update (\<lambda>_. n)),
     (\<lambda>c. bind_res (counter_config_load cp (counter c)) (\<lambda>cc. Inr (c\<lparr>counter := cc\<rparr>)))]"

definition config_load :: "'ip config_env \<Rightarrow> string option \<Rightarrow> 'ip config \<Rightarrow> exn + 'ip config" where
  "config_load env contents c =
     bind_res (parser_load contents) (\<lambda>cp. run_steps (load_steps env cp) c)"

section \<open>Every loaded configuration is within its bounds\<close>

definition counter_config_ok :: "counter_config \<Rightarrow> bool" where
  "counter_config_ok c \<longleftrightarrow>
     cc_port c \<in> {1..65535} \<and> cc_max_connections c < 2 ^ 31 \<and>
     cc_buckets c \<in> {1..<2 ^ 31} \<and> cc_stat_interval c \<in> {10..<2 ^ 31}"

definition config_ok :: "'ip config \<Rightarrow> bool" where
  "config_ok c \<longleftrightarrow>
     port c \<in> {1..65535} \<and> repl_port c \<in> {1..65535} \<and> max_connections c < 2 ^ 31 \<and>
     buckets c \<in> {1..<2 ^ 31} \<and> max_data_size c \<in> {1..<2 ^ 61} \<and>
     heap_data_limit c \<in> {4096..<2 ^ 61} \<and> memory_limit c \<in> {1..<2 ^ 61} \<and>
     repl_bufsize c \<in> {1..<2 ^ 31} \<and> workers c \<in> {1..MAX_WORKERS} \<and>
     gc_interval c \<in> {1..<2 ^ 31} \<and> slave_timeout c \<in> {1..<2 ^ 31} \<and>
     (logfile c = [] \<or> hd (logfile c) = CHR ''/'') \<and> counter_config_ok (counter c)"

lemma stoi_range: "stoi s = Inr n \<Longrightarrow> - 2147483648 \<le> n \<and> n \<le> 2147483647"
  by (auto simp: stoi_def Let_def split: if_splits)

lemma get_as_int_range: "get_as_int t key = Inr n \<Longrightarrow> n < 2 ^ 31"
  using stoi_range
  by (fastforce simp: get_as_int_def as_illegal_value_def split: sum.splits if_splits)

lemma unit_base_range: "1 \<le> unit_base b \<and> unit_base b \<le> 1073741824"
  by (simp add: unit_base_def)

lemma parse_unit_range:
  assumes "parse_unit s cmd = Inr n"
  shows "n \<in> {1..<2 ^ 61}"
proof -
  from assms obtain i s' b where i: "stoi s' = Inr i" "1 \<le> i" "n = unit_base b * nat i"
    unfolding parse_unit_def Let_def bind_res_eq_Inr by (metis Inl_Inr_False Inr_inject not_less)
  then have "nat i \<le> 2147483647" "1 \<le> nat i" using stoi_range [of s' i] by auto
  then have "unit_base b * nat i \<le> 1073741824 * 2147483647" "1 * 1 \<le> unit_base b * nat i"
    using unit_base_range [of b] by (intro mult_le_mono; simp)+
  with i(3) show ?thesis by simp
qed

lemma keeps_opt_int:
  "(\<And>raw n x. P x \<Longrightarrow> check raw n = None \<Longrightarrow> n < 2 ^ 31 \<Longrightarrow> P (upd (nat n) x)) \<Longrightarrow>
   keeps P (opt_int cp key check upd)"
  by (rule keepsI) (auto simp: opt_int_def split: if_splits option.splits dest: get_as_int_range)

lemma keeps_opt_at_least:
  assumes "\<And>n x. P x \<Longrightarrow> n \<in> {nat lo..<2 ^ 31} \<Longrightarrow> P (upd n x)"
  shows "keeps P (opt_int cp key (at_least lo msg) upd)"
  by (rule keeps_opt_int, rule assms) (auto simp: at_least_def split: if_splits)

lemma keeps_opt_port:
  assumes "\<And>n x. P x \<Longrightarrow> n \<in> {1..65535} \<Longrightarrow> P (upd n x)"
  shows "keeps P (opt_int cp key (check_port msg) upd)"
  by (rule keeps_opt_int, rule assms) (auto simp: check_port_def split: if_splits)

lemma keeps_opt_workers:
  assumes "\<And>n x. P x \<Longrightarrow> n \<in> {1..MAX_WORKERS} \<Longrightarrow> P (upd n x)"
  shows "keeps P (opt_int cp key check_workers upd)"
  by (rule keeps_opt_int, rule assms) (auto simp: check_workers_def split: if_splits)

lemma keeps_opt_key:
  "(\<And>v. keeps P (f v)) \<Longrightarrow> keeps P (opt_key cp key f)"
  by (rule keepsI) (auto simp: opt_key_def keeps_def split: if_splits)

lemma keeps_opt_unit:
  assumes "\<And>n. n \<in> {1..<2 ^ 61} \<Longrightarrow> keeps P (f n)"
  shows "keeps P (opt_unit cp key f)"
  unfolding opt_unit_def
proof (rule keeps_opt_key, rule keepsI)
  fix v x y
  assume "P x" and y: "(if v = [] then Inl (Bad_config (key @ '' must not be empty''))
      else bind_res (parse_unit v key) (\<lambda>n. f n x)) = Inr y"
  then obtain n where "parse_unit v key = Inr n" "f n x = Inr y" by (auto split: if_splits)
  with \<open>P x\<close> show "P y" using keepsD [OF assms [OF parse_unit_range]] by metis
qed

lemma keeps_opt_bool:
  "(\<And>b x. P x \<Longrightarrow> P (upd b x)) \<Longrightarrow> keeps P (opt_bool cp key upd)"
  by (rule keepsI) (auto simp: opt_bool_def split: if_splits)

lemmas keeps_opt = keeps_opt_at_least keeps_opt_port keeps_opt_workers keeps_opt_bool

lemma keeps_counter_config_load: "keeps counter_config_ok (counter_config_load cp)"
  unfolding counter_config_load_def
  by (intro keeps_run_steps; simp; intro conjI keeps_opt; simp add: counter_config_ok_def)

lemma config_ok_unchecked [simp]:
  "config_ok (c\<lparr>vip := a\<rparr>) = config_ok c" "config_ok (c\<lparr>bind_ip := as\<rparr>) = config_ok c"
  "config_ok (c\<lparr>tempdir := v\<rparr>) = config_ok c" "config_ok (c\<lparr>user := v\<rparr>) = config_ok c"
  "config_ok (c\<lparr>group := v\<rparr>) = config_ok c" "config_ok (c\<lparr>threshold := t\<rparr>) = config_ok c"
  "config_ok (c\<lparr>initial_repl_sleep_delay_usec := u\<rparr>) = config_ok c"
  "config_ok (c\<lparr>secure_erase := b\<rparr>) = config_ok c" "config_ok (c\<lparr>lock_memory := b\<rparr>) = config_ok c"
  by (simp_all add: config_ok_def)

lemma config_ok_checked:
  "config_ok c \<Longrightarrow> n \<in> {1..65535} \<Longrightarrow> config_ok (c\<lparr>port := n\<rparr>)"
  "config_ok c \<Longrightarrow> n \<in> {1..65535} \<Longrightarrow> config_ok (c\<lparr>repl_port := n\<rparr>)"
  "config_ok c \<Longrightarrow> n < 2 ^ 31 \<Longrightarrow> config_ok (c\<lparr>max_connections := n\<rparr>)"
  "config_ok c \<Longrightarrow> v = [] \<or> hd v = CHR ''/'' \<Longrightarrow> config_ok (c\<lparr>logfile := v\<rparr>)"
  "config_ok c \<Longrightarrow> n \<in> {1..<2 ^ 31} \<Longrightarrow> config_ok (c\<lparr>buckets := n\<rparr>)"
  "config_ok c \<Longrightarrow> n \<in> {1..<2 ^ 61} \<Longrightarrow> config_ok (c\<lparr>max_data_size := n\<rparr>)"
  "config_ok c \<Longrightarrow> n \<in> {4096..<2 ^ 61} \<Longrightarrow> config_ok (c\<lparr>heap_data_limit := n\<rparr>)"
  "config_ok c \<Longrightarrow> n \<in> {1..<2 ^ 61} \<Longrightarrow> config_ok (c\<lparr>memory_limit := n\<rparr>)"
  "config_ok c \<Longrightarrow> n \<in> {1..<2 ^ 31} \<Longrightarrow> config_ok (c\<lparr>repl_bufsize := n\<rparr>)"
  "config_ok c \<Longrightarrow> n \<in> {1..MAX_WORKERS} \<Longrightarrow> config_ok (c\<lparr>workers := n\<rparr>)"
  "config_ok c \<Longrightarrow> n \<in> {1..<2 ^ 31} \<Longrightarrow> config_ok (c\<lparr>gc_interval := n\<rparr>)"
  "config_ok c \<Longrightarrow> n \<in> {1..<2 ^ 31} \<Longrightarrow> config_ok (c\<lparr>slave_timeout := n\<rparr>)"
  "config_ok c \<Longrightarrow> counter_config_ok cc \<Longrightarrow> config_ok (c\<lparr>counter := cc\<rparr>)"
  "config_ok c \<Longrightarrow> counter_config_ok (counter c)"
  by (simp_all add: config_ok_def)

lemma keeps_load_bind_ip: "keeps config_ok (load_bind_ip env v)"
proof -
  have "list_all (keeps config_ok)
      (map (\<lambda>s c. bind_res (ce_parse_ip env s) (\<lambda>a. Inr (c\<lparr>bind_ip := bind_ip c @ [a]\<rparr>))) ts)" for ts
    by (auto simp: list_all_iff keeps_def)
  from keeps_run_steps [OF this] show ?thesis by (simp add: load_bind_ip_def keeps_def)
qed

lemma keeps_load_blocks:
  "keeps config_ok (load_temp_dir env v)" "keeps config_ok (load_log_threshold v)"
  "keeps config_ok (load_log_file v)" "keeps config_ok (load_sleep_delay cp)"
  "n \<in> {1..<2 ^ 61} \<Longrightarrow> keeps config_ok (load_heap_data_limit n)"
  by (auto simp: keeps_def load_temp_dir_def load_log_threshold_def load_log_file_def
      load_sleep_delay_def load_heap_data_limit_def split: if_splits option.splits
      intro!: config_ok_checked(1-13))

lemma keeps_load_simple:
  "keeps config_ok (\<lambda>c. bind_res (ce_parse_ip env v) (\<lambda>a. Inr (c\<lparr>vip := a\<rparr>)))"
  "keeps config_ok (\<lambda>c. Inr (c\<lparr>user := v\<rparr>))" "keeps config_ok (\<lambda>c. Inr (c\<lparr>group := v\<rparr>))"
  "n \<in> {1..<2 ^ 61} \<Longrightarrow> keeps config_ok (\<lambda>c. Inr (c\<lparr>max_data_size := n\<rparr>))"
  "n \<in> {1..<2 ^ 61} \<Longrightarrow> keeps config_ok (\<lambda>c. Inr (c\<lparr>memory_limit := n\<rparr>))"
  "keeps config_ok (\<lambda>c. bind_res (counter_config_load cp (counter c)) (\<lambda>cc. Inr (c\<lparr>counter := cc\<rparr>)))"
  using keepsD [OF keeps_counter_config_load]
  by (auto simp: keeps_def intro!: config_ok_checked(1-13) intro: config_ok_checked(14))

lemma keeps_load_steps: "list_all (keeps config_ok) (load_steps env cp)"
  unfolding load_steps_def list.pred_inject
  by (intro conjI TrueI keeps_opt keeps_opt_key keeps_opt_unit keeps_load_simple keeps_load_bind_ip
      keeps_load_blocks; (assumption | simp add: config_ok_checked))

text \<open>
  C37: whatever the contents of the configuration file, a configuration that loads without an
  exception is within its bounds: ports of 16 bits, at least one bucket, worker, replication
  buffer and second of each interval, at most 64 workers, a heap data limit of at least 4096
  bytes, and sizes that stay below $2^{61}$ after their unit is applied.
\<close>

theorem config_load_bounds:
  assumes "config_load env contents (config_default lo) = Inr c"
  shows "config_ok c"
proof -
  have "config_ok (config_default lo)"
    by (simp add: config_ok_def config_default_def counter_config_ok_def counter_config_default_def
        DEFAULT_MEMCACHE_PORT_def DEFAULT_REPL_PORT_def DEFAULT_COUNTER_PORT_def DEFAULT_BUCKETS_def
        DEFAULT_MAX_DATA_SIZE_def DEFAULT_HEAP_DATA_LIMIT_def DEFAULT_MEMORY_LIMIT_def
        DEFAULT_REPL_BUFSIZE_def DEFAULT_WORKER_THREADS_def DEFAULT_GC_INTERVAL_def
        DEFAULT_SLAVE_TIMEOUT_def DEFAULT_STAT_INTERVAL_def MAX_WORKERS_def)
  moreover from assms obtain cp where "run_steps (load_steps env cp) (config_default lo) = Inr c"
    by (auto simp: config_load_def)
  ultimately show ?thesis using keepsD [OF keeps_run_steps [OF keeps_load_steps]] by blast
qed

definition sample_env :: "unit config_env" where
  "sample_env = \<lparr>ce_parse_ip = (\<lambda>_. Inr ()), ce_is_dir = (\<lambda>_. True), ce_is_writable = (\<lambda>_. True)\<rparr>"

lemma parser_load_sample: "parser_load (Some ''workers = 4'') = Inr [''workers'' \<mapsto> ''4'']"
  by (simp add: parser_load_def load_line_def ltrim_def rtrim_def is_space_def unquote_def parser_set_def)

lemma get_as_int_sample: "get_as_int [''workers'' \<mapsto> ''4''] ''workers'' = Inr 4"
  by (simp add: get_as_int_def parser_get_def stoi_def is_space_def is_digit_def dec_val_def
      digit_val_def as_illegal_value_def)

lemma config_load_sample:
  "config_load sample_env (Some ''workers = 4'') (config_default ()) =
   Inr ((config_default ())\<lparr>workers := 4\<rparr>)"
  by (simp add: config_load_def parser_load_sample load_steps_def opt_key_def opt_int_def opt_bool_def
      opt_unit_def parser_exists_def get_as_int_sample load_sleep_delay_def counter_config_load_def
      check_workers_def MAX_WORKERS_def parser_get_def)

theorem config_load_bounds_witness: "config_ok ((config_default ())\<lparr>workers := 4\<rparr>)"
  by (rule config_load_bounds [OF config_load_sample])

end
