(* ===== verification/Stats.thy ===== *)
theory Stats
  imports Prelude
begin

text \<open>
  Models \<^verbatim>\<open>src/memcache/stats.hpp\<close> and \<^verbatim>\<open>src/memcache/stats.cpp\<close>: the counters of the memcache
  server.  Each counter is atomic, so an update is one step; the counters have the width the
  source gives them and wrap around.  The counters per command are indexed by the value of the
  command in its enumeration.
\<close>

record statistics =
  objects :: u32
  objects_under_1k :: u32
  objects_under_4k :: u32
  objects_under_16k :: u32
  objects_under_64k :: u32
  objects_under_256k :: u32
  objects_under_1m :: u32
  objects_under_4m :: u32
  objects_huge :: u32
  used_memory :: nat
  conflicts :: u32
  gc_count :: u32
  oldest_age :: u32
  largest_object_size :: nat
  last_expirations :: u32
  last_evictions :: u32
  total_evictions :: u64
  last_gc_elapsed :: u64
  total_gc_elapsed :: u64
  repl_created :: u64
  repl_updated :: u64
  repl_removed :: u64
  total_objects :: u64
  flush_time :: time_t
  curr_connections :: u64
  total_connections :: u64
  text_ops :: "nat \<Rightarrow> u64"
  bin_ops :: "nat \<Rightarrow> u64"
  get_hits :: u64
  get_misses :: u64
  cas_hits :: u64
  cas_misses :: u64
  cas_badval :: u64

definition statistics_reset :: statistics where
  "statistics_reset =
     \<lparr>objects = 0, objects_under_1k = 0, objects_under_4k = 0, objects_under_16k = 0,
      objects_under_64k = 0, objects_under_256k = 0, objects_under_1m = 0, objects_under_4m = 0,
      objects_huge = 0, used_memory = 0, conflicts = 0, gc_count = 0, oldest_age = 0,
      largest_object_size = 0, last_expirations = 0, last_evictions = 0, total_evictions = 0,
      last_gc_elapsed = 0, total_gc_elapsed = 0, repl_created = 0, repl_updated = 0,
      repl_removed = 0, total_objects = 0, flush_time = 0, curr_connections = 0,
      total_connections = 0, text_ops = (\<lambda>_. 0), bin_ops = (\<lambda>_. 0), get_hits = 0,
      get_misses = 0, cas_hits = 0, cas_misses = 0, cas_badval = 0\<rparr>"

end
