(* ===== verification/Dynbuf.thy ===== *)
theory Dynbuf
  imports Util
begin

text \<open>
  Models \<^verbatim>\<open>cybozu/dynbuf.hpp\<close>, the dynamic byte buffer.

  The block \<^verbatim>\<open>m_p\<close> points to is a list of cells, \<^const>\<open>None\<close> for a byte that has never been written;
  a null pointer is \<^const>\<open>None\<close> instead of a block.  Each operation also returns the blocks it gives
  back to the allocator, with the bytes they hold at that moment, in order to state what
  secure erasing promises.  Allocation always succeeds.
\<close>

type_synonym block = "char option list"

record dynbuf =
  m_p :: "block option"
  m_default_capacity :: nat
  m_capacity :: nat
  m_erase :: bool
  m_used :: nat

section \<open>Memory blocks\<close>

definition malloc_block :: "nat \<Rightarrow> block" where
  "malloc_block n = replicate n None"

text \<open>\<^verbatim>\<open>memcpy\<close> of known bytes into a block at an offset.\<close>

definition write_cells :: "nat \<Rightarrow> string \<Rightarrow> block \<Rightarrow> block" where
  "write_cells i s b = take i b @ map Some s @ drop (i + length s) b"

text \<open>\<^verbatim>\<open>memcpy\<close> and \<^verbatim>\<open>memmove\<close> of cells.\<close>

definition copy_cells :: "nat \<Rightarrow> block \<Rightarrow> block \<Rightarrow> block" where
  "copy_cells i src b = take i b @ src @ drop (i + length src) b"

definition clear_cells_at :: "nat \<Rightarrow> nat \<Rightarrow> block \<Rightarrow> block" where
  "clear_cells_at i n b = take i b @ clear_memory n (drop i b)"

definition the_block :: "block option \<Rightarrow> block" where
  "the_block p = (case p of None \<Rightarrow> [] | Some b \<Rightarrow> b)"

definition freed_block :: "block option \<Rightarrow> block list" where
  "freed_block p = (case p of None \<Rightarrow> [] | Some b \<Rightarrow> [b])"

section \<open>Operations\<close>

definition dynbuf_ctor :: "nat \<Rightarrow> bool \<Rightarrow> dynbuf" where
  "dynbuf_ctor default_capacity er =
     \<lparr>m_p = (if default_capacity \<noteq> 0 then Some (malloc_block default_capacity) else None),
      m_default_capacity = default_capacity,
      m_capacity = default_capacity,
      m_erase = er,
      m_used = 0\<rparr>"

definition dynbuf_dtor :: "dynbuf \<Rightarrow> block list" where
  "dynbuf_dtor b =
     (case m_p b of
        None \<Rightarrow> []
      | Some c \<Rightarrow> [if m_erase b then clear_memory (m_used b) c else c])"

text \<open>\<^verbatim>\<open>swap\<close> exchanges the blocks but neither the default capacities nor the erase flags.\<close>

definition dynbuf_swap :: "dynbuf \<Rightarrow> dynbuf \<Rightarrow> dynbuf \<times> dynbuf" where
  "dynbuf_swap b other =
     (b\<lparr>m_p := m_p other, m_capacity := m_capacity other, m_used := m_used other\<rparr>,
      other\<lparr>m_p := m_p b, m_capacity := m_capacity b, m_used := m_used b\<rparr>)"

definition dynbuf_reset :: "dynbuf \<Rightarrow> dynbuf \<times> block list" where
  "dynbuf_reset b =
     (let b1 = (if m_used b \<noteq> 0 \<and> m_erase b
                then b\<lparr>m_p := map_option (clear_memory (m_used b)) (m_p b)\<rparr> else b);
          b2 = b1\<lparr>m_used := 0\<rparr>
      in if m_default_capacity b2 = m_capacity b2 then (b2, [])
         else
           (let new_p = (if m_default_capacity b2 \<noteq> 0
                         then Some (malloc_block (m_default_capacity b2)) else None)
            in (b2\<lparr>m_p := new_p, m_capacity := m_default_capacity b2\<rparr>, freed_block (m_p b2))))"

definition freebytes :: "dynbuf \<Rightarrow> nat" where
  "freebytes b = m_capacity b - m_used b"

text \<open>
  \<^verbatim>\<open>realloc\<close> keeps the bytes of the old block, which it may give back to the allocator as it is.
\<close>

definition dynbuf_enlarge :: "nat \<Rightarrow> dynbuf \<Rightarrow> dynbuf \<times> block list" where
  "dynbuf_enlarge additional b =
     (if additional = 0 then (b, [])
      else
        (let new_capacity = m_capacity b + additional
         in if m_erase b then
              (case m_p b of
                 None \<Rightarrow> (b\<lparr>m_p := Some (malloc_block new_capacity), m_capacity := new_capacity\<rparr>, [])
               | Some c \<Rightarrow>
                   (b\<lparr>m_p := Some (copy_cells 0 (take (m_used b) c) (malloc_block new_capacity)),
                      m_capacity := new_capacity\<rparr>,
                    [clear_memory (m_used b) c]))
            else
              (b\<lparr>m_p := Some (the_block (m_p b) @ malloc_block additional),
                 m_capacity := new_capacity\<rparr>,
               freed_block (m_p b))))"

definition dynbuf_append :: "string \<Rightarrow> dynbuf \<Rightarrow> dynbuf \<times> block list" where
  "dynbuf_append p b =
     (let (b1, fr) = (if freebytes b < length p then dynbuf_enlarge (length p) b else (b, []))
      in (b1\<lparr>m_p := map_option (write_cells (m_used b1) p) (m_p b1),
             m_used := m_used b1 + length p\<rparr>, fr))"

definition dynbuf_erase :: "nat \<Rightarrow> dynbuf \<Rightarrow> exn + (dynbuf \<times> block list)" where
  "dynbuf_erase len b =
     (if m_used b < len then Inl Invalid_argument
      else if len = 0 then Inr (b, [])
      else
        (let remain = m_used b - len
         in if remain = 0 then Inr (dynbuf_reset b)
            else if remain \<le> m_default_capacity b \<and> m_capacity b \<noteq> m_default_capacity b then
              (let c = the_block (m_p b);
                   new_p = copy_cells 0 (take remain (drop len c)) (malloc_block (m_default_capacity b));
                   old = (if m_erase b then clear_memory (m_used b) c else c)
               in Inr (b\<lparr>m_p := Some new_p, m_capacity := m_default_capacity b, m_used := remain\<rparr>,
                       [old]))
            else
              (let c = the_block (m_p b);
                   moved = copy_cells 0 (take remain (drop len c)) c;
                   cleared = (if m_erase b then clear_cells_at remain len moved else moved)
               in Inr (b\<lparr>m_p := Some cleared, m_used := remain\<rparr>, []))))"

text \<open>
  \<^verbatim>\<open>prepare\<close> returns a pointer to the free space, into which the caller writes (\<^verbatim>\<open>recv\<close>, \<^verbatim>\<open>pread\<close>)
  before it calls \<^verbatim>\<open>consume\<close>.
\<close>

definition dynbuf_prepare :: "nat \<Rightarrow> dynbuf \<Rightarrow> dynbuf \<times> block list" where
  "dynbuf_prepare len b = (if freebytes b < len then dynbuf_enlarge len b else (b, []))"

definition write_free :: "string \<Rightarrow> dynbuf \<Rightarrow> dynbuf" where
  "write_free s b = b\<lparr>m_p := map_option (write_cells (m_used b) s) (m_p b)\<rparr>"

definition dynbuf_consume :: "nat \<Rightarrow> dynbuf \<Rightarrow> dynbuf" where
  "dynbuf_consume len b = b\<lparr>m_used := m_used b + len\<rparr>"

definition dynbuf_empty :: "dynbuf \<Rightarrow> bool" where
  "dynbuf_empty b \<longleftrightarrow> m_used b = 0"

definition dynbuf_size :: "dynbuf \<Rightarrow> nat" where
  "dynbuf_size b = m_used b"

section \<open>Contents and invariant\<close>

definition dynbuf_data :: "dynbuf \<Rightarrow> string" where
  "dynbuf_data b = map the (take (m_used b) (the_block (m_p b)))"

text \<open>A cell that gives nothing away: never written, or zero.\<close>

definition clean_cell :: "char option \<Rightarrow> bool" where
  "clean_cell c \<longleftrightarrow> c = None \<or> c = Some (CHR 0x00)"

definition clean_blocks :: "block list \<Rightarrow> bool" where
  "clean_blocks fr \<longleftrightarrow> (\<forall>b \<in> set fr. \<forall>c \<in> set b. clean_cell c)"

text \<open>
  The block has the capacity on record, the used part is initialised, and in an erasing buffer
  the part beyond holds no data.
\<close>

definition dynbuf_ok :: "dynbuf \<Rightarrow> bool" where
  "dynbuf_ok b \<longleftrightarrow>
     length (the_block (m_p b)) = m_capacity b \<and> (m_p b = None \<longrightarrow> m_capacity b = 0) \<and>
     m_used b \<le> m_capacity b \<and>
     (\<forall>c \<in> set (take (m_used b) (the_block (m_p b))). c \<noteq> None) \<and>
     (m_erase b \<longrightarrow> (\<forall>c \<in> set (drop (m_used b) (the_block (m_p b))). clean_cell c))"

lemma map_Some_the: "\<forall>c \<in> set xs. c \<noteq> None \<Longrightarrow> map Some (map the xs) = xs"
  by (induction xs) auto

text \<open>A canonical form: the block as the contents followed by the rest.\<close>

lemma dynbuf_okE:
  assumes "dynbuf_ok b"
  obtains rest where "the_block (m_p b) = map Some (dynbuf_data b) @ rest"
    and "m_used b = length (dynbuf_data b)" and "m_capacity b = length (dynbuf_data b) + length rest"
    and "m_erase b \<longrightarrow> (\<forall>c \<in> set rest. clean_cell c)" and "m_p b = None \<longrightarrow> dynbuf_data b = [] \<and> rest = []"
proof
  let ?c = "the_block (m_p b)"
  have ok: "length ?c = m_capacity b" "m_used b \<le> m_capacity b"
    "\<forall>c \<in> set (take (m_used b) ?c). c \<noteq> None" "m_p b = None \<longrightarrow> m_capacity b = 0"
    "m_erase b \<longrightarrow> (\<forall>c \<in> set (drop (m_used b) ?c). clean_cell c)"
    using assms unfolding dynbuf_ok_def by blast+
  show "?c = map Some (dynbuf_data b) @ drop (m_used b) ?c"
    unfolding dynbuf_data_def map_Some_the [OF ok(3)] by simp
  show "m_used b = length (dynbuf_data b)"
    using ok(1,2) by (simp add: dynbuf_data_def)
  then show "m_capacity b = length (dynbuf_data b) + length (drop (m_used b) ?c)"
    using ok(1,2) by simp
  show "m_p b = None \<longrightarrow> dynbuf_data b = [] \<and> drop (m_used b) ?c = []"
    using ok(1,4) by (auto simp: dynbuf_data_def the_block_def)
  show "m_erase b \<longrightarrow> (\<forall>c \<in> set (drop (m_used b) ?c). clean_cell c)" by (rule ok(5))
qed

lemma dynbuf_okI:
  assumes "the_block (m_p b) = map Some s @ rest" "m_used b = length s"
    "m_capacity b = length s + length rest" "m_erase b \<longrightarrow> (\<forall>c \<in> set rest. clean_cell c)"
  shows "dynbuf_ok b" "dynbuf_data b = s"
proof -
  show "dynbuf_data b = s" by (simp add: dynbuf_data_def assms(1,2) comp_def)
  have "m_p b = None \<longrightarrow> m_capacity b = 0"
    using assms(1,3) by (auto simp: the_block_def)
  then show "dynbuf_ok b" unfolding dynbuf_ok_def using assms by simp
qed

section \<open>The operations on the contents\<close>

lemma clear_memory_prefix:
  "length xs = n \<Longrightarrow> clear_memory n (xs @ ys) = replicate n (Some (CHR 0x00)) @ ys"
  by (simp add: clear_memory_def)

lemma clean_cell_simps [simp]: "clean_cell None" "clean_cell (Some (CHR 0x00))"
  by (simp_all add: clean_cell_def)

lemma clean_blocks_simps [simp]:
  "clean_blocks []"
  "clean_blocks (b # fr) \<longleftrightarrow> (\<forall>c \<in> set b. clean_cell c) \<and> clean_blocks fr"
  "clean_blocks (fr @ fr') \<longleftrightarrow> clean_blocks fr \<and> clean_blocks fr'"
  by (auto simp: clean_blocks_def)

lemma the_block_simps [simp]: "the_block None = []" "the_block (Some b) = b"
  by (simp_all add: the_block_def)

lemma freed_block_simps [simp]: "freed_block None = []" "freed_block (Some b) = [b]"
  by (simp_all add: freed_block_def)

lemma write_cells_prefix:
  "length xs = i \<Longrightarrow> write_cells i s (xs @ ys) = xs @ map Some s @ drop (length s) ys"
  by (simp add: write_cells_def)

lemma copy_cells_0: "copy_cells 0 src b = src @ drop (length src) b"
  by (simp add: copy_cells_def)

lemma malloc_block_clean: "c \<in> set (malloc_block n) \<Longrightarrow> clean_cell c"
  by (simp add: malloc_block_def)

lemma dynbuf_ctor_ok [simp]: "dynbuf_ok (dynbuf_ctor n e)" "dynbuf_data (dynbuf_ctor n e) = []"
  by (auto simp: dynbuf_ok_def dynbuf_ctor_def dynbuf_data_def malloc_block_def)

lemma dynbuf_dtor_clean:
  assumes "dynbuf_ok b" "m_erase b"
  shows "clean_blocks (dynbuf_dtor b)"
proof -
  obtain rest where c: "the_block (m_p b) = map Some (dynbuf_data b) @ rest"
    "m_used b = length (dynbuf_data b)" "\<forall>c \<in> set rest. clean_cell c"
    using assms by (elim dynbuf_okE) simp
  then show ?thesis
    using assms(2) by (cases "m_p b") (auto simp: dynbuf_dtor_def clear_memory_prefix)
qed

lemma dynbuf_size_data: "dynbuf_ok b \<Longrightarrow> dynbuf_size b = length (dynbuf_data b)"
  by (elim dynbuf_okE) (simp add: dynbuf_size_def)

lemma dynbuf_empty_data: "dynbuf_ok b \<Longrightarrow> dynbuf_empty b \<longleftrightarrow> dynbuf_data b = []"
  by (elim dynbuf_okE) (simp add: dynbuf_empty_def)

text \<open>What every operation keeps: the flags, the invariant and, in an erasing buffer, clean frees.\<close>

definition dynbuf_step_ok :: "dynbuf \<Rightarrow> dynbuf \<times> block list \<Rightarrow> string \<Rightarrow> bool" where
  "dynbuf_step_ok b res s \<longleftrightarrow>
     dynbuf_ok (fst res) \<and> dynbuf_data (fst res) = s \<and> m_erase (fst res) = m_erase b \<and>
     m_default_capacity (fst res) = m_default_capacity b \<and>
     (m_erase b \<longrightarrow> clean_blocks (snd res))"

lemma dynbuf_step_okI:
  assumes "the_block (m_p b') = map Some s @ rest" "m_used b' = length s"
    "m_capacity b' = length s + length rest" "m_erase b \<longrightarrow> (\<forall>c \<in> set rest. clean_cell c)"
    "m_erase b' = m_erase b" "m_default_capacity b' = m_default_capacity b"
    "m_erase b \<longrightarrow> clean_blocks fr"
  shows "dynbuf_step_ok b (b', fr) s"
  unfolding dynbuf_step_ok_def using dynbuf_okI [OF assms(1-3)] assms(4-7) by simp

lemma dynbuf_reset_ok:
  assumes "dynbuf_ok b"
  shows "dynbuf_step_ok b (dynbuf_reset b) []"
proof -
  obtain rest where c: "the_block (m_p b) = map Some (dynbuf_data b) @ rest"
    "m_used b = length (dynbuf_data b)" "m_capacity b = length (dynbuf_data b) + length rest"
    "m_erase b \<longrightarrow> (\<forall>c \<in> set rest. clean_cell c)"
    using assms by (rule dynbuf_okE)
  define p where
    "p = (if m_used b \<noteq> 0 \<and> m_erase b then map_option (clear_memory (m_used b)) (m_p b) else m_p b)"
  have p: "length (the_block p) = m_capacity b" "m_erase b \<longrightarrow> (\<forall>x \<in> set (the_block p). clean_cell x)"
    using c by (cases "m_p b"; auto simp: p_def clear_memory_prefix)+
  then have fr: "m_erase b \<longrightarrow> clean_blocks (freed_block p)" by (cases p) auto
  have eq: "dynbuf_reset b =
    (if m_default_capacity b = m_capacity b then (b\<lparr>m_p := p, m_used := 0\<rparr>, [])
     else (b\<lparr>m_p := (if m_default_capacity b \<noteq> 0
                    then Some (malloc_block (m_default_capacity b)) else None),
             m_capacity := m_default_capacity b, m_used := 0\<rparr>, freed_block p))"
    by (simp add: dynbuf_reset_def Let_def p_def)
  show ?thesis
  proof (cases "m_default_capacity b = m_capacity b")
    case True
    show ?thesis unfolding eq if_P [OF True]
      by (rule dynbuf_step_okI [where rest = "the_block p"]) (simp_all add: p)
  next
    case False
    show ?thesis unfolding eq if_not_P [OF False]
      by (rule dynbuf_step_okI [where rest = "malloc_block (m_default_capacity b)"])
        (simp_all add: fr malloc_block_def)
  qed
qed

lemma dynbuf_enlarge_ok:
  assumes "dynbuf_ok b"
  shows "dynbuf_step_ok b (dynbuf_enlarge n b) (dynbuf_data b)"
    and "m_capacity (fst (dynbuf_enlarge n b)) = m_capacity b + n"
proof -
  obtain rest where c: "the_block (m_p b) = map Some (dynbuf_data b) @ rest"
    "m_used b = length (dynbuf_data b)" "m_capacity b = length (dynbuf_data b) + length rest"
    "m_erase b \<longrightarrow> (\<forall>c \<in> set rest. clean_cell c)" "m_p b = None \<longrightarrow> dynbuf_data b = [] \<and> rest = []"
    using assms by (rule dynbuf_okE)
  show "m_capacity (fst (dynbuf_enlarge n b)) = m_capacity b + n"
    by (simp add: dynbuf_enlarge_def Let_def split: option.split)
  consider "n = 0" | "n \<noteq> 0" "m_erase b" "m_p b = None" | p where "n \<noteq> 0" "m_erase b" "m_p b = Some p"
    | "n \<noteq> 0" "\<not> m_erase b" by blast
  then show "dynbuf_step_ok b (dynbuf_enlarge n b) (dynbuf_data b)"
  proof cases
    case 1
    with assms show ?thesis by (simp add: dynbuf_enlarge_def dynbuf_step_ok_def)
  next
    case 2
    then have "dynbuf_enlarge n b =
        (b\<lparr>m_p := Some (malloc_block (m_capacity b + n)), m_capacity := m_capacity b + n\<rparr>, [])"
      by (simp add: dynbuf_enlarge_def Let_def)
    then show ?thesis
      using 2 c(2,3,5)
      by (simp, intro dynbuf_step_okI [where rest = "malloc_block n"]) (simp_all add: malloc_block_def)
  next
    case 3
    then have "dynbuf_enlarge n b =
        (b\<lparr>m_p := Some (map Some (dynbuf_data b) @ malloc_block (length rest + n)),
           m_capacity := m_capacity b + n\<rparr>,
         [replicate (length (dynbuf_data b)) (Some (CHR 0x00)) @ rest])"
      using c(1-3)
      by (simp add: dynbuf_enlarge_def Let_def copy_cells_0 clear_memory_prefix malloc_block_def)
    then show ?thesis
      using 3 c(2,3,4)
      by (simp, intro dynbuf_step_okI [where rest = "malloc_block (length rest + n)"])
        (auto simp: malloc_block_def)
  next
    case 4
    then have "dynbuf_enlarge n b =
        (b\<lparr>m_p := Some (map Some (dynbuf_data b) @ rest @ malloc_block n),
           m_capacity := m_capacity b + n\<rparr>, freed_block (m_p b))"
      using c(1) by (simp add: dynbuf_enlarge_def Let_def)
    then show ?thesis
      using 4 c(2,3)
      by (simp, intro dynbuf_step_okI [where rest = "rest @ malloc_block n"])
        (simp_all add: malloc_block_def)
  qed
qed

lemma dynbuf_step_okD:
  assumes "dynbuf_step_ok b res s"
  shows "dynbuf_ok (fst res)" "dynbuf_data (fst res) = s" "m_erase (fst res) = m_erase b"
    "m_default_capacity (fst res) = m_default_capacity b" "m_erase b \<Longrightarrow> clean_blocks (snd res)"
  using assms by (simp_all add: dynbuf_step_ok_def)

lemma dynbuf_prepare_ok:
  assumes "dynbuf_ok b"
  shows "dynbuf_step_ok b (dynbuf_prepare n b) (dynbuf_data b)"
    and "n \<le> freebytes (fst (dynbuf_prepare n b))"
proof -
  show st: "dynbuf_step_ok b (dynbuf_prepare n b) (dynbuf_data b)"
    using dynbuf_enlarge_ok(1) [OF assms] assms by (simp add: dynbuf_prepare_def dynbuf_step_ok_def)
  have "m_used (fst (dynbuf_prepare n b)) = m_used b"
    using dynbuf_size_data [OF dynbuf_step_okD(1) [OF st]] dynbuf_size_data [OF assms]
      dynbuf_step_okD(2) [OF st] by (simp add: dynbuf_size_def)
  moreover have "m_used b \<le> m_capacity b" using assms by (simp add: dynbuf_ok_def)
  ultimately show "n \<le> freebytes (fst (dynbuf_prepare n b))"
    using dynbuf_enlarge_ok(2) [OF assms, of n]
    by (auto simp: freebytes_def dynbuf_prepare_def split: if_splits)
qed

text \<open>Writing into the free space and consuming it.\<close>

lemma dynbuf_fill_ok:
  assumes "dynbuf_ok b" "length s \<le> freebytes b"
  shows "dynbuf_step_ok b (dynbuf_consume (length s) (write_free s b), []) (dynbuf_data b @ s)"
proof -
  obtain rest where c: "the_block (m_p b) = map Some (dynbuf_data b) @ rest"
    "m_used b = length (dynbuf_data b)" "m_capacity b = length (dynbuf_data b) + length rest"
    "m_erase b \<longrightarrow> (\<forall>c \<in> set rest. clean_cell c)" "m_p b = None \<longrightarrow> dynbuf_data b = [] \<and> rest = []"
    using assms(1) by (rule dynbuf_okE)
  have le: "length s \<le> length rest" using assms(2) c(2,3) by (simp add: freebytes_def)
  have "the_block (map_option (write_cells (m_used b) s) (m_p b)) =
      map Some (dynbuf_data b @ s) @ drop (length s) rest"
  proof (cases "m_p b")
    case None
    with c(5) le show ?thesis by simp
  next
    case (Some p)
    then have "p = map Some (dynbuf_data b) @ rest" using c(1) by simp
    then show ?thesis using Some c(2) by (simp add: write_cells_prefix)
  qed
  moreover have "m_erase b \<longrightarrow> (\<forall>x \<in> set (drop (length s) rest). clean_cell x)"
    using c(4) set_drop_subset [of "length s" rest] by blast
  ultimately show ?thesis
    by (intro dynbuf_step_okI [where rest = "drop (length s) rest"])
      (use c(2,3) le in \<open>simp_all add: dynbuf_consume_def write_free_def\<close>)
qed

lemma dynbuf_append_ok:
  assumes "dynbuf_ok b"
  shows "dynbuf_step_ok b (dynbuf_append s b) (dynbuf_data b @ s)"
proof -
  obtain b1 fr where b1: "dynbuf_prepare (length s) b = (b1, fr)" by force
  then have "dynbuf_append s b = (dynbuf_consume (length s) (write_free s b1), fr)"
    by (simp add: dynbuf_append_def dynbuf_prepare_def dynbuf_consume_def write_free_def)
  then show ?thesis
    using dynbuf_prepare_ok [OF assms, of "length s"] b1 dynbuf_fill_ok [of b1 s]
    by (simp add: dynbuf_step_ok_def)
qed

lemma dynbuf_erase_throws:
  "dynbuf_ok b \<Longrightarrow> length (dynbuf_data b) < n \<Longrightarrow> dynbuf_erase n b = Inl Invalid_argument"
  by (elim dynbuf_okE) (simp add: dynbuf_erase_def)

lemma dynbuf_erase_ok:
  assumes "dynbuf_ok b" "n \<le> length (dynbuf_data b)"
  shows "\<exists>res. dynbuf_erase n b = Inr res \<and> dynbuf_step_ok b res (drop n (dynbuf_data b))"
proof -
  let ?s = "dynbuf_data b"
  obtain rest where c: "the_block (m_p b) = map Some ?s @ rest"
    "m_used b = length ?s" "m_capacity b = length ?s + length rest"
    "m_erase b \<longrightarrow> (\<forall>c \<in> set rest. clean_cell c)"
    using assms(1) by (rule dynbuf_okE)
  define r where "r = length ?s - n"
  have moved: "take r (drop n (the_block (m_p b))) = map Some (drop n ?s)"
    using c(1) assms(2) by (simp add: r_def drop_map)
  have r: "length (drop n ?s) = r" by (simp add: r_def)
  consider "n = 0" | "n \<noteq> 0" "r = 0"
    | "n \<noteq> 0" "r \<noteq> 0" "r \<le> m_default_capacity b" "m_capacity b \<noteq> m_default_capacity b"
    | "n \<noteq> 0" "r \<noteq> 0" "\<not> (r \<le> m_default_capacity b \<and> m_capacity b \<noteq> m_default_capacity b)"
    by blast
  then show ?thesis
  proof cases
    case 1
    with assms show ?thesis by (simp add: dynbuf_erase_def dynbuf_step_ok_def)
  next
    case 2
    with assms(2) c(2) have "dynbuf_erase n b = Inr (dynbuf_reset b)"
      by (simp add: dynbuf_erase_def r_def)
    moreover have "drop n ?s = []" using 2 by (simp add: r_def)
    ultimately show ?thesis using dynbuf_reset_ok [OF assms(1)] by simp
  next
    case 3
    let ?d = "m_default_capacity b"
    let ?b = "b\<lparr>m_p := Some (map Some (drop n ?s) @ malloc_block (?d - r)), m_capacity := ?d, m_used := r\<rparr>"
    let ?old = "if m_erase b then clear_memory (m_used b) (the_block (m_p b)) else the_block (m_p b)"
    have "dynbuf_erase n b = Inr (?b, [?old])"
      using 3 assms(2) c(2) r
      by (simp add: dynbuf_erase_def Let_def copy_cells_0 moved malloc_block_def flip: r_def
          del: length_take length_drop)
    moreover have "m_erase b \<longrightarrow> clean_blocks [?old]"
      using c(1,2,4) by (auto simp: clear_memory_prefix)
    ultimately show ?thesis
      using 3 r by (auto simp: malloc_block_def intro!: dynbuf_step_okI [where rest = "malloc_block (?d - r)"])
  next
    case 4
    let ?tail = "drop r (map Some ?s)"
    let ?rest = "if m_erase b then replicate n (Some (CHR 0x00)) @ rest else ?tail @ rest"
    let ?b = "b\<lparr>m_p := Some (map Some (drop n ?s) @ ?rest), m_used := r\<rparr>"
    have block: "copy_cells 0 (map Some (drop n ?s)) (the_block (m_p b)) = map Some (drop n ?s) @ ?tail @ rest"
      using c(1) r by (simp add: copy_cells_0 r_def)
    have tail: "length ?tail = n" using assms(2) by (simp add: r_def)
    have "clear_cells_at r n (map Some (drop n ?s) @ ?tail @ rest) =
        map Some (drop n ?s) @ replicate n (Some (CHR 0x00)) @ rest"
      using r tail by (simp add: clear_cells_at_def clear_memory_prefix)
    then have "dynbuf_erase n b = Inr (?b, [])"
      using 4 assms(2) c(2)
      by (simp add: dynbuf_erase_def Let_def moved block flip: r_def)
    moreover have "length ?rest = n + length rest" using tail by simp
    ultimately show ?thesis
      using r c(3,4) assms(2) by (auto simp: r_def intro!: dynbuf_step_okI [where rest = ?rest])
  qed
qed

section \<open>The contract of a byte store\<close>

text \<open>
  Objects keep their data in a store that can be appended to and emptied: a buffer on the
  heap or a temporary file.  The laws below are what they rely on.
\<close>

locale byte_store =
  fixes contents :: "'b \<Rightarrow> string"
    and invar :: "'b \<Rightarrow> bool"
    and append_op :: "string \<Rightarrow> 'b \<Rightarrow> 'b"
    and clear_op :: "'b \<Rightarrow> 'b"
  assumes append_contents: "invar b \<Longrightarrow> contents (append_op s b) = contents b @ s"
    and append_invar: "invar b \<Longrightarrow> invar (append_op s b)"
    and clear_contents: "invar b \<Longrightarrow> contents (clear_op b) = []"
    and clear_invar: "invar b \<Longrightarrow> invar (clear_op b)"
begin

lemma overwrite:
  "invar b \<Longrightarrow> contents (append_op s (clear_op b)) = s"
  "invar b \<Longrightarrow> invar (append_op s (clear_op b))"
  by (simp_all add: append_contents clear_contents append_invar clear_invar)

lemma append_if_nonempty:
  "invar b \<Longrightarrow> contents (if 0 < length s then append_op s b else b) = contents b @ s"
  "invar b \<Longrightarrow> invar (if 0 < length s then append_op s b else b)"
  by (simp_all add: append_contents append_invar)

lemma append_twice:
  "invar b \<Longrightarrow> contents (append_op t (append_op s b)) = contents b @ s @ t"
  "invar b \<Longrightarrow> invar (append_op t (append_op s b))"
  by (simp_all add: append_contents append_invar)

end

interpretation dyn: byte_store dynbuf_data dynbuf_ok "\<lambda>s b. fst (dynbuf_append s b)" "\<lambda>b. fst (dynbuf_reset b)"
  by unfold_locales
    (simp_all add: dynbuf_step_okD [OF dynbuf_append_ok] dynbuf_step_okD [OF dynbuf_reset_ok])

section \<open>Any sequence of operations\<close>

text \<open>\<open>Buf_fill len s\<close> prepares \<open>len\<close> bytes of free space, receives at most that many into it and
  consumes what was received.\<close>

datatype buf_op = Buf_append string | Buf_erase nat | Buf_reset | Buf_fill nat string

primrec dynbuf_step :: "buf_op \<Rightarrow> dynbuf \<Rightarrow> exn + (dynbuf \<times> block list)" where
  "dynbuf_step (Buf_append s) b = Inr (dynbuf_append s b)"
| "dynbuf_step (Buf_erase n) b = dynbuf_erase n b"
| "dynbuf_step Buf_reset b = Inr (dynbuf_reset b)"
| "dynbuf_step (Buf_fill n s) b =
     (let (b1, fr) = dynbuf_prepare n b; t = take n s
      in Inr (dynbuf_consume (length t) (write_free t b1), fr))"

fun dynbuf_run :: "buf_op list \<Rightarrow> dynbuf \<Rightarrow> exn + (dynbuf \<times> block list)" where
  "dynbuf_run [] b = Inr (b, [])"
| "dynbuf_run (a # ops) b =
     bind_res (dynbuf_step a b) (\<lambda>(b1, fr1).
     bind_res (dynbuf_run ops b1) (\<lambda>(b2, fr2). Inr (b2, fr1 @ fr2)))"

primrec bytes_step :: "buf_op \<Rightarrow> string \<Rightarrow> exn + string" where
  "bytes_step (Buf_append s) d = Inr (d @ s)"
| "bytes_step (Buf_erase n) d = (if length d < n then Inl Invalid_argument else Inr (drop n d))"
| "bytes_step Buf_reset d = Inr []"
| "bytes_step (Buf_fill n s) d = Inr (d @ take n s)"

fun bytes_run :: "buf_op list \<Rightarrow> string \<Rightarrow> exn + string" where
  "bytes_run [] d = Inr d"
| "bytes_run (a # ops) d = bind_res (bytes_step a d) (bytes_run ops)"

lemma dynbuf_step_refines:
  assumes "dynbuf_ok b"
  shows "(case dynbuf_step a b of
            Inl e \<Rightarrow> bytes_step a (dynbuf_data b) = Inl e
          | Inr res \<Rightarrow> \<exists>d. bytes_step a (dynbuf_data b) = Inr d \<and> dynbuf_step_ok b res d)"
proof (cases a)
  case (Buf_append s)
  with dynbuf_append_ok [OF assms] show ?thesis by simp
next
  case (Buf_erase n)
  with dynbuf_erase_ok [OF assms, of n] dynbuf_erase_throws [OF assms, of n] show ?thesis
    by (cases "length (dynbuf_data b) < n") (auto simp: not_less)
next
  case Buf_reset
  with dynbuf_reset_ok [OF assms] show ?thesis by simp
next
  case (Buf_fill n s)
  obtain b1 fr where b1: "dynbuf_prepare n b = (b1, fr)" by force
  note ok = dynbuf_prepare_ok [OF assms, of n, unfolded b1]
  have "length (take n s) \<le> freebytes b1" using ok(2) by simp
  from dynbuf_fill_ok [OF _ this] ok(1) b1 Buf_fill show ?thesis
    by (simp add: dynbuf_step_ok_def Let_def del: length_take)
qed

lemma dynbuf_run_refines:
  assumes "dynbuf_ok b"
  shows "(case dynbuf_run ops b of
            Inl e \<Rightarrow> bytes_run ops (dynbuf_data b) = Inl e
          | Inr res \<Rightarrow> \<exists>d. bytes_run ops (dynbuf_data b) = Inr d \<and> dynbuf_step_ok b res d)"
  using assms
proof (induction ops arbitrary: b)
  case Nil
  then show ?case by (simp add: dynbuf_step_ok_def)
next
  case (Cons a ops)
  show ?case
  proof (cases "dynbuf_step a b")
    case (Inl e)
    with dynbuf_step_refines [OF Cons.prems, of a] show ?thesis by simp
  next
    case (Inr res)
    then obtain d where d: "bytes_step a (dynbuf_data b) = Inr d" "dynbuf_step_ok b res d"
      using dynbuf_step_refines [OF Cons.prems, of a] by auto
    obtain b1 fr where res: "res = (b1, fr)" by (cases res)
    have "dynbuf_ok b1" "dynbuf_data b1 = d" using d(2) res by (simp_all add: dynbuf_step_ok_def)
    with Cons.IH [of b1] d Inr res show ?thesis
      by (cases "dynbuf_run ops b1") (auto simp: dynbuf_step_ok_def)
  qed
qed

text \<open>
  C35: a buffer created with any default capacity behaves, under any sequence of appends, erases
  from the head, resets and receives into prepared free space, as a string: it has the string's
  contents and size at the end, and it throws exactly when more bytes are erased than it holds.
\<close>

theorem dynbuf_refines_bytes:
  "(case dynbuf_run ops (dynbuf_ctor n e) of
      Inl x \<Rightarrow> bytes_run ops [] = Inl x
    | Inr (b, _) \<Rightarrow> bytes_run ops [] = Inr (dynbuf_data b) \<and> dynbuf_size b = length (dynbuf_data b) \<and>
        (dynbuf_empty b \<longleftrightarrow> dynbuf_data b = []))"
  using dynbuf_run_refines [of "dynbuf_ctor n e" ops]
  by (auto simp: dynbuf_step_ok_def dynbuf_size_data dynbuf_empty_data split: sum.splits)

text \<open>
  A buffer created with the erase flag never gives a block back to the allocator that holds
  a byte of data: whatever the operations, every block freed on the way and by the destructor
  contains only zeroes and cells never written.
\<close>

theorem dynbuf_secure_erase:
  "(case dynbuf_run ops (dynbuf_ctor n True) of
      Inl _ \<Rightarrow> True
    | Inr (b, freed) \<Rightarrow> clean_blocks (freed @ dynbuf_dtor b))"
proof -
  have "m_erase (dynbuf_ctor n True)" by (simp add: dynbuf_ctor_def)
  then show ?thesis
    using dynbuf_run_refines [of "dynbuf_ctor n True" ops]
    by (auto simp: dynbuf_step_ok_def dynbuf_dtor_clean split: sum.splits)
qed

end
