(* ===== verification/Tempfile.thy ===== *)
theory Tempfile
  imports Dynbuf
begin

text \<open>
  Models \<^verbatim>\<open>src/tempfile.hpp\<close> and \<^verbatim>\<open>src/tempfile.cpp\<close>: the temporary file that holds the data of a
  large object.

  The file is its bytes, the offset of the descriptor and the length the class keeps.  The
  outcomes of the successive \<^verbatim>\<open>write\<close> and \<^verbatim>\<open>pread\<close> calls are a list: each call either fails or
  transfers some number of bytes, at most what was asked for.  When the list is used up,
  calls transfer everything.  The \<^verbatim>\<open>lseek\<close> and \<^verbatim>\<open>ftruncate\<close> calls of \<^verbatim>\<open>clear\<close> succeed.
\<close>

datatype io = Io_error | Io nat

record tempfile =
  tf_bytes :: string
  tf_offset :: nat
  m_length :: nat

definition tempfile_ctor :: tempfile where
  "tempfile_ctor = \<lparr>tf_bytes = [], tf_offset = 0, m_length = 0\<rparr>"

text \<open>One \<^verbatim>\<open>write(2)\<close> of \<open>s\<close> at the offset of the descriptor.\<close>

definition os_write :: "string \<Rightarrow> tempfile \<Rightarrow> tempfile" where
  "os_write s f =
     f\<lparr>tf_bytes := take (tf_offset f) (tf_bytes f)
                 @ replicate (tf_offset f - length (tf_bytes f)) (CHR 0x00)
                 @ s @ drop (tf_offset f + length s) (tf_bytes f),
       tf_offset := tf_offset f + length s\<rparr>"

fun tempfile_write_loop :: "io list \<Rightarrow> string \<Rightarrow> tempfile \<Rightarrow> exn + tempfile" where
  "tempfile_write_loop [] p f =
     (if p = [] then Inr f
      else Inr ((os_write p f)\<lparr>m_length := m_length f + length p\<rparr>))"
| "tempfile_write_loop (Io_error # os) p f =
     (if p = [] then Inr f else Inl (Runtime_error ''write''))"
| "tempfile_write_loop (Io k # os) p f =
     (if p = [] then Inr f
      else
        (let n = min k (length p)
         in tempfile_write_loop os (drop n p)
              ((os_write (take n p) f)\<lparr>m_length := m_length f + n\<rparr>)))"

text \<open>\<^verbatim>\<open>write\<close> when no call fails: the objects use it in this form.\<close>

definition tempfile_write :: "string \<Rightarrow> tempfile \<Rightarrow> tempfile" where
  "tempfile_write p f =
     (case tempfile_write_loop [] p f of Inr f' \<Rightarrow> f' | Inl _ \<Rightarrow> f)"

definition tempfile_clear :: "tempfile \<Rightarrow> tempfile" where
  "tempfile_clear f = f\<lparr>tf_offset := 0, tf_bytes := [], m_length := 0\<rparr>"

text \<open>
  The loop of \<^verbatim>\<open>read_contents\<close>: \<^verbatim>\<open>pread\<close> at \<^verbatim>\<open>m_length - to_read\<close> into the space prepared in the
  buffer.
\<close>

definition os_pread :: "nat \<Rightarrow> nat \<Rightarrow> tempfile \<Rightarrow> string" where
  "os_pread n off f = take n (drop off (tf_bytes f))"

fun read_loop :: "io list \<Rightarrow> nat \<Rightarrow> tempfile \<Rightarrow> dynbuf \<Rightarrow> exn + dynbuf" where
  "read_loop os 0 f buf = Inr buf"
| "read_loop [] (Suc r) f buf =
     (let s = os_pread (Suc r) (m_length f - Suc r) f
      in if s = [] then Inl (Runtime_error ''<tempfile::read_contents> unexpected EOF.'')
         else Inr (dynbuf_consume (length s) (write_free s buf)))"
| "read_loop (Io_error # os) (Suc r) f buf = Inl (Runtime_error ''pread'')"
| "read_loop (Io k # os) (Suc r) f buf =
     (let s = os_pread (min k (Suc r)) (m_length f - Suc r) f
      in if s = [] then Inl (Runtime_error ''<tempfile::read_contents> unexpected EOF.'')
         else read_loop os (Suc r - length s) f (dynbuf_consume (length s) (write_free s buf)))"

definition read_contents :: "io list \<Rightarrow> tempfile \<Rightarrow> dynbuf \<Rightarrow> exn + (dynbuf \<times> block list)" where
  "read_contents os f buf =
     (let (b1, fr) = dynbuf_prepare (m_length f) buf
      in bind_res (read_loop os (m_length f) f b1) (\<lambda>b2. Inr (b2, fr)))"

section \<open>The contract\<close>

definition tempfile_ok :: "tempfile \<Rightarrow> bool" where
  "tempfile_ok f \<longleftrightarrow> tf_offset f = length (tf_bytes f) \<and> m_length f = length (tf_bytes f)"

lemma tempfile_ctor_ok [simp]: "tempfile_ok tempfile_ctor" "tf_bytes tempfile_ctor = []"
  by (simp_all add: tempfile_ok_def tempfile_ctor_def)

lemma tempfile_ok_eqI: "tempfile_ok f \<Longrightarrow> tempfile_ok g \<Longrightarrow> tf_bytes f = tf_bytes g \<Longrightarrow> f = g"
  by (simp add: tempfile_ok_def)

lemma os_write_end:
  "tempfile_ok f \<Longrightarrow>
   (os_write s f)\<lparr>m_length := m_length f + length s\<rparr> =
     \<lparr>tf_bytes = tf_bytes f @ s, tf_offset = length (tf_bytes f @ s), m_length = length (tf_bytes f @ s)\<rparr>"
  by (simp add: tempfile_ok_def os_write_def)

definition file_of :: "string \<Rightarrow> tempfile" where
  "file_of s = \<lparr>tf_bytes = s, tf_offset = length s, m_length = length s\<rparr>"

lemma file_of_simps [simp]:
  "tempfile_ok (file_of s)" "tf_bytes (file_of s) = s" "m_length (file_of s) = length s"
  by (simp_all add: file_of_def tempfile_ok_def)

lemma tempfile_ok_file_of: "tempfile_ok f \<longleftrightarrow> f = file_of (tf_bytes f)"
  by (cases f) (auto simp: tempfile_ok_def file_of_def)

lemma os_write_file_of:
  "(os_write s (file_of t))\<lparr>m_length := length t + length s\<rparr> = file_of (t @ s)"
  by (simp add: os_write_def file_of_def)

text \<open>
  However the kernel splits the transfer, the write loop appends the data, unless a call fails.
\<close>

lemma tempfile_write_loop_ok:
  "Io_error \<notin> set os \<Longrightarrow> tempfile_write_loop os p (file_of t) = Inr (file_of (t @ p))"
proof (induction os arbitrary: p t)
  case Nil
  then show ?case by (simp add: os_write_file_of)
next
  case (Cons o1 os)
  then obtain k where o1: "o1 = Io k" by (cases o1) auto
  have "length t + length (take (min k (length p)) p) = length t + min k (length p)" by simp
  with os_write_file_of [where s = "take (min k (length p)) p" and t = t]
  have "(os_write (take (min k (length p)) p) (file_of t))\<lparr>m_length := length t + min k (length p)\<rparr> =
      file_of (t @ take (min k (length p)) p)" by simp
  with Cons o1 show ?case by (simp add: Let_def)
qed

lemma tempfile_write_eq: "tempfile_ok f \<Longrightarrow> tempfile_write p f = file_of (tf_bytes f @ p)"
  using tempfile_write_loop_ok [of "[]" p "tf_bytes f"]
  by (simp add: tempfile_write_def tempfile_ok_file_of del: tempfile_write_loop.simps)

lemma tempfile_clear_eq: "tempfile_clear f = file_of []"
  by (simp add: tempfile_clear_def file_of_def)

interpretation tf: byte_store tf_bytes tempfile_ok tempfile_write tempfile_clear
  by unfold_locales (simp_all add: tempfile_write_eq tempfile_clear_eq)

section \<open>Reading back\<close>

text \<open>
  \<open>r\<close> bytes remain to be read and the rest has been consumed: the loop appends the last \<open>r\<close>
  bytes of the file.
\<close>

lemma read_loop_ok:
  assumes "Io_error \<notin> set os" "Io 0 \<notin> set os" "r \<le> length t" "dynbuf_ok b" "r \<le> freebytes b"
  shows "\<exists>b'. read_loop os r (file_of t) b = Inr b' \<and>
    dynbuf_step_ok b (b', []) (dynbuf_data b @ drop (length t - r) t)"
  using assms
proof (induction os arbitrary: r b)
  case Nil
  show ?case
  proof (cases r)
    case 0
    with Nil show ?thesis by (simp add: dynbuf_step_ok_def)
  next
    case (Suc q)
    let ?s = "drop (length t - r) t"
    have s: "os_pread r (length t - r) (file_of t) = ?s" "length ?s = r" "?s \<noteq> []"
      using Nil.prems Suc by (auto simp: os_pread_def)
    have "dynbuf_step_ok b (dynbuf_consume (length ?s) (write_free ?s b), []) (dynbuf_data b @ ?s)"
      using Nil.prems s(2) by (intro dynbuf_fill_ok) simp_all
    with s Suc show ?thesis by (simp add: Let_def)
  qed
next
  case (Cons o1 os)
  show ?case
  proof (cases r)
    case 0
    with Cons.prems show ?thesis by (simp add: dynbuf_step_ok_def)
  next
    case (Suc q)
    obtain k where o1: "o1 = Io k" "k \<noteq> 0" using Cons.prems by (cases o1) auto
    define n where "n = min k r"
    let ?s = "take n (drop (length t - r) t)"
    have n: "0 < n" "n \<le> r" using o1 Suc by (simp_all add: n_def)
    have s: "os_pread n (length t - r) (file_of t) = ?s" "length ?s = n"
      using Cons.prems n by (auto simp: os_pread_def)
    then have ne: "?s \<noteq> []" using n by auto
    define b1 where "b1 = dynbuf_consume n (write_free ?s b)"
    have b1: "dynbuf_step_ok b (b1, []) (dynbuf_data b @ ?s)"
      using dynbuf_fill_ok [of b ?s] Cons.prems s(2) n by (simp add: b1_def)
    have free: "r - n \<le> freebytes b1"
      using Cons.prems(5) by (simp add: b1_def freebytes_def dynbuf_consume_def write_free_def)
    have rn: "r - n \<le> length t" "n + (length t - r) = length t - (r - n)"
      using Cons.prems(3) n by auto
    then have "drop (length t - r) t = ?s @ drop (length t - (r - n)) t"
      by (metis append_take_drop_id drop_drop)
    moreover obtain b' where b': "read_loop os (r - n) (file_of t) b1 = Inr b'"
      "dynbuf_step_ok b1 (b', []) (dynbuf_data b1 @ drop (length t - (r - n)) t)"
      using Cons.IH [OF _ _ rn(1) _ free] Cons.prems b1 by (auto simp: dynbuf_step_ok_def)
    moreover have "read_loop (o1 # os) r (file_of t) b = read_loop os (r - n) (file_of t) b1"
    proof -
      have "min k (Suc q) = n" by (simp add: n_def Suc)
      with s ne show ?thesis unfolding Suc o1(1) read_loop.simps b1_def Let_def file_of_simps(3)
        by presburger
    qed
    ultimately show ?thesis using b1 by (simp add: dynbuf_step_ok_def)
  qed
qed

lemma read_contents_ok:
  assumes "Io_error \<notin> set os" "Io 0 \<notin> set os" "dynbuf_ok b"
  shows "\<exists>res. read_contents os (file_of t) b = Inr res \<and> dynbuf_step_ok b res (dynbuf_data b @ t)"
proof -
  obtain b1 fr where b1: "dynbuf_prepare (length t) b = (b1, fr)" by force
  note ok = dynbuf_prepare_ok [OF assms(3), of "length t", unfolded b1]
  then obtain b2 where "read_loop os (length t) (file_of t) b1 = Inr b2"
    "dynbuf_step_ok b1 (b2, []) (dynbuf_data b1 @ t)"
    using read_loop_ok [OF assms(1,2), of "length t" t b1] by (auto simp: dynbuf_step_ok_def)
  with ok b1 show ?thesis by (auto simp: read_contents_def dynbuf_step_ok_def)
qed

text \<open>
  Data written to a temporary file is read back unchanged however the kernel splits the
  transfers: when no call fails and \<^verbatim>\<open>pread\<close> does not report an early end of file, writing
  \<open>p\<close> after earlier contents \<open>t\<close> succeeds, and reading the file appends \<open>t\<close> and \<open>p\<close> to any buffer.
\<close>

theorem tempfile_roundtrip:
  assumes "Io_error \<notin> set os_w" "Io_error \<notin> set os_r" "Io 0 \<notin> set os_r" "dynbuf_ok b"
  shows "\<exists>f b' fr. tempfile_write_loop os_w p (tempfile_write t tempfile_ctor) = Inr f \<and>
    m_length f = length t + length p \<and>
    read_contents os_r f b = Inr (b', fr) \<and> dynbuf_data b' = dynbuf_data b @ t @ p"
proof -
  have f: "tempfile_write_loop os_w p (tempfile_write t tempfile_ctor) = Inr (file_of (t @ p))"
    by (simp add: tempfile_write_eq tempfile_write_loop_ok [OF assms(1)])
  obtain b' fr where "read_contents os_r (file_of (t @ p)) b = Inr (b', fr)"
    "dynbuf_data b' = dynbuf_data b @ t @ p"
    using read_contents_ok [OF assms(2-4), of "t @ p"] by (auto simp: dynbuf_step_ok_def)
  with f show ?thesis by auto
qed

theorem tempfile_roundtrip_witness:
  "\<exists>f b' fr. tempfile_write_loop [Io 1, Io 0, Io 2] ''abcde'' (tempfile_write ''xy'' tempfile_ctor) = Inr f \<and>
    m_length f = length ''xy'' + length ''abcde'' \<and>
    read_contents [Io 3, Io 1] f (dynbuf_ctor 4 True) = Inr (b', fr) \<and>
    dynbuf_data b' = dynbuf_data (dynbuf_ctor 4 True) @ ''xy'' @ ''abcde''"
  by (rule tempfile_roundtrip) simp_all

end
