(* ===== verification/Object.thy ===== *)
theory Object
  imports Config Stats Tempfile
begin

text \<open>
  Models \<^verbatim>\<open>src/memcache/object.hpp\<close> and \<^verbatim>\<open>src/memcache/object.cpp\<close>: the objects of the cache.

  Data up to \<^verbatim>\<open>heap_data_limit\<close> bytes is in a heap buffer, larger data in a temporary file.  The
  mutating operations also return the memory blocks they give back to the allocator.  The
  lock holder is the file descriptor of a client connection, -1 when the object is not locked; the
  lock context \<^verbatim>\<open>g_context\<close> of the calling thread is the argument \<open>ctx\<close>.  The identifier of the
  last unlocking thread only occurs in an error message and is left out.
\<close>

type_synonym cfg = "string config"

record object =
  o_length :: nat
  o_data :: dynbuf
  o_file :: "tempfile option"
  o_flags :: u32
  o_exptime :: time_t
  o_cas :: u64
  o_gc_old :: u32
  o_lock :: int

section \<open>Construction and modification\<close>

definition to_uint64 :: "string \<Rightarrow> exn + u64" where
  "to_uint64 s = stoull s"

text \<open>Constructors also count the object in \<^verbatim>\<open>g_stats.total_objects\<close>.\<close>

definition object_new :: "cfg \<Rightarrow> string \<Rightarrow> u32 \<Rightarrow> time_t \<Rightarrow> object" where
  "object_new g p flags exptime =
     (let d = dynbuf_ctor 0 (secure_erase g)
      in \<lparr>o_length = length p,
          o_data = (if length p > heap_data_limit g then d
                    else if length p > 0 then fst (dynbuf_append p d) else d),
          o_file = (if length p > heap_data_limit g then Some (tempfile_write p tempfile_ctor) else None),
          o_flags = flags, o_exptime = exptime, o_cas = 1, o_gc_old = 0, o_lock = - 1\<rparr>)"

definition object_new_number :: "cfg \<Rightarrow> u64 \<Rightarrow> time_t \<Rightarrow> object" where
  "object_new_number g initial exptime =
     (let s = to_decimal (unat initial)
      in \<lparr>o_length = length s,
          o_data = fst (dynbuf_append s (dynbuf_ctor 24 (secure_erase g))),
          o_file = None, o_flags = 0, o_exptime = exptime, o_cas = 1, o_gc_old = 0, o_lock = - 1\<rparr>)"

definition count_object :: "statistics \<Rightarrow> statistics" where
  "count_object st = st\<lparr>total_objects := total_objects st + 1\<rparr>"

definition object_set :: "cfg \<Rightarrow> string \<Rightarrow> u32 \<Rightarrow> time_t \<Rightarrow> object \<Rightarrow> object \<times> block list" where
  "object_set g p flags exptime ob =
     (let (d, fr) = dynbuf_reset (o_data ob);
          ob1 = ob\<lparr>o_flags := flags, o_exptime := exptime, o_cas := o_cas ob + 1, o_gc_old := 0,
                  o_data := d\<rparr>
      in if length p > heap_data_limit g then
           (let f = (case o_file ob of None \<Rightarrow> tempfile_ctor | Some f \<Rightarrow> tempfile_clear f)
            in (ob1\<lparr>o_file := Some (tempfile_write p f), o_length := length p\<rparr>, fr))
         else
           (let (d', fr') = (if length p > 0 then dynbuf_append p d else (d, []))
            in (ob1\<lparr>o_file := None, o_data := d', o_length := length p\<rparr>, fr @ fr')))"

definition object_append :: "cfg \<Rightarrow> string \<Rightarrow> object \<Rightarrow> object \<times> block list" where
  "object_append g p ob0 =
     (let ob = ob0\<lparr>o_cas := o_cas ob0 + 1, o_gc_old := 0\<rparr>
      in if p = [] then (ob, [])
         else
           (let new_size = o_length ob + length p
            in if new_size > heap_data_limit g then
                 (case o_file ob of
                    None \<Rightarrow>
                      (let f = tempfile_ctor;
                           f1 = (if o_length ob > 0
                                 then tempfile_write (take (o_length ob) (dynbuf_data (o_data ob))) f else f);
                           (d, fr) = dynbuf_reset (o_data ob)
                       in (ob\<lparr>o_file := Some (tempfile_write p f1), o_data := d,
                             o_length := new_size\<rparr>, fr))
                  | Some f \<Rightarrow> (ob\<lparr>o_file := Some (tempfile_write p f), o_length := new_size\<rparr>, []))
               else
                 (let (d, fr) = dynbuf_append p (o_data ob)
                  in (ob\<lparr>o_data := d, o_length := new_size\<rparr>, fr))))"

text \<open>
  \<^verbatim>\<open>prepend\<close> builds the new contents in a local buffer, which is created without the erase flag and
  destroyed at the end of its scope.
\<close>

definition object_prepend :: "cfg \<Rightarrow> string \<Rightarrow> object \<Rightarrow> object \<times> block list" where
  "object_prepend g p ob0 =
     (let ob = ob0\<lparr>o_cas := o_cas ob0 + 1, o_gc_old := 0\<rparr>
      in if p = [] then (ob, [])
         else
           (let new_size = o_length ob + length p
            in if new_size > heap_data_limit g then
                 (case o_file ob of
                    None \<Rightarrow>
                      (let f = tempfile_write p tempfile_ctor;
                           f1 = (if o_length ob > 0
                                 then tempfile_write (take (o_length ob) (dynbuf_data (o_data ob))) f else f);
                           (d, fr) = dynbuf_reset (o_data ob)
                       in (ob\<lparr>o_file := Some f1, o_data := d, o_length := new_size\<rparr>, fr))
                  | Some f \<Rightarrow>
                      (let (b1, fr1) = dynbuf_append p (dynbuf_ctor new_size False);
                           (b2, fr2) = (case read_contents [] f b1 of Inr r \<Rightarrow> r | Inl _ \<Rightarrow> (b1, []));
                           f1 = tempfile_write (take new_size (dynbuf_data b2)) (tempfile_clear f)
                       in (ob\<lparr>o_file := Some f1, o_length := new_size\<rparr>, fr1 @ fr2 @ dynbuf_dtor b2)))
               else
                 (let (b1, fr1) = dynbuf_append p (dynbuf_ctor new_size False);
                      (b2, fr2) = dynbuf_append (take (o_length ob) (dynbuf_data (o_data ob))) b1;
                      (d, b3) = dynbuf_swap (o_data ob) b2
                  in (ob\<lparr>o_data := d, o_length := new_size\<rparr>, fr1 @ fr2 @ dynbuf_dtor b3))))"

text \<open>\<^verbatim>\<open>incr\<close> and \<^verbatim>\<open>decr\<close>: parse, compute in 64 bits, print.\<close>

definition object_arith :: "(u64 \<Rightarrow> u64) \<Rightarrow> object \<Rightarrow> exn + (u64 \<times> object \<times> block list)" where
  "object_arith f ob =
     (if o_file ob \<noteq> None then Inl Not_a_number
      else
        (case to_uint64 (take (o_length ob) (dynbuf_data (o_data ob))) of
           Inl _ \<Rightarrow> Inl Not_a_number
         | Inr v \<Rightarrow>
             (let u = f v;
                  s = to_decimal (unat u);
                  (d1, fr1) = dynbuf_reset (o_data ob);
                  (d2, fr2) = dynbuf_append s d1
              in Inr (u, ob\<lparr>o_length := length s, o_data := d2, o_cas := o_cas ob + 1, o_gc_old := 0\<rparr>,
                      fr1 @ fr2))))"

definition object_incr :: "u64 \<Rightarrow> object \<Rightarrow> exn + (u64 \<times> object \<times> block list)" where
  "object_incr n = object_arith (\<lambda>v. v + n)"

definition object_decr :: "u64 \<Rightarrow> object \<Rightarrow> exn + (u64 \<times> object \<times> block list)" where
  "object_decr n = object_arith (\<lambda>v. if v < n then 0 else v - n)"

definition object_touch :: "time_t \<Rightarrow> object \<Rightarrow> object" where
  "object_touch exptime ob = ob\<lparr>o_exptime := exptime, o_gc_old := 0\<rparr>"

section \<open>Reading\<close>

text \<open>\<^verbatim>\<open>data(buf)\<close> returns the heap buffer or a copy of the file, and marks the object as used.\<close>

definition object_data :: "object \<Rightarrow> string \<times> object" where
  "object_data ob =
     (case o_file ob of
        None \<Rightarrow> dynbuf_data (o_data ob)
      | Some f \<Rightarrow> (case read_contents [] f (dynbuf_ctor 0 False) of
                     Inr (b, _) \<Rightarrow> dynbuf_data b | Inl _ \<Rightarrow> []),
      ob\<lparr>o_gc_old := 0\<rparr>)"

definition object_size :: "object \<Rightarrow> nat" where
  "object_size ob = (case o_file ob of None \<Rightarrow> dynbuf_size (o_data ob) | Some f \<Rightarrow> m_length f)"

definition object_exptime :: "object \<Rightarrow> u32" where
  "object_exptime ob = word_of_int (o_exptime ob)"

definition object_locked :: "object \<Rightarrow> bool" where
  "object_locked ob \<longleftrightarrow> o_lock ob \<noteq> - 1"

definition locked_by_self :: "int \<Rightarrow> object \<Rightarrow> bool" where
  "locked_by_self ctx ob \<longleftrightarrow> o_lock ob = ctx"

definition locked_by_other :: "int \<Rightarrow> object \<Rightarrow> bool" where
  "locked_by_other ctx ob \<longleftrightarrow> object_locked ob \<and> \<not> locked_by_self ctx ob"

text \<open>\<open>t\<close> is \<^verbatim>\<open>g_stats.flush_time\<close> and \<open>now\<close> is \<^verbatim>\<open>g_current_time\<close>.\<close>

definition object_expired :: "time_t \<Rightarrow> time_t \<Rightarrow> object \<Rightarrow> bool" where
  "object_expired t now ob =
     (if object_locked ob then False
      else if t \<noteq> 0 \<and> t \<le> now then True
      else if o_exptime ob = 0 then False
      else o_exptime ob \<le> now)"

text \<open>\<^verbatim>\<open>survive\<close> ages the object; at \<^verbatim>\<open>FLUSH_AGE\<close> the pages of its file are flushed, which has no
  effect on the data.\<close>

definition object_survive :: "object \<Rightarrow> object" where
  "object_survive ob = ob\<lparr>o_gc_old := o_gc_old ob + 1\<rparr>"

definition object_lock :: "int \<Rightarrow> object \<Rightarrow> exn + object" where
  "object_lock ctx ob =
     (if object_locked ob then Inl (Logic_error ''object::lock bug'') else Inr (ob\<lparr>o_lock := ctx\<rparr>))"

definition object_unlock :: "int \<Rightarrow> bool \<Rightarrow> object \<Rightarrow> exn + object" where
  "object_unlock ctx force ob =
     (if \<not> force \<and> \<not> locked_by_self ctx ob then Inl (Logic_error ''object::unlock bug'')
      else Inr (ob\<lparr>o_lock := - 1\<rparr>))"

section \<open>Invariant and contents\<close>

text \<open>
  The data is in exactly one of the two places, the one its length calls for, and the length
  on record is right.  A configured limit is at least 4096, so that decimal numbers of 64 bits
  always stay on the heap.
\<close>

definition object_ok :: "cfg \<Rightarrow> object \<Rightarrow> bool" where
  "object_ok g ob \<longleftrightarrow>
     dynbuf_ok (o_data ob) \<and>
     (case o_file ob of
        None \<Rightarrow> o_length ob = length (dynbuf_data (o_data ob)) \<and> o_length ob \<le> heap_data_limit g
      | Some f \<Rightarrow> tempfile_ok f \<and> o_length ob = length (tf_bytes f) \<and> heap_data_limit g < o_length ob \<and>
          dynbuf_data (o_data ob) = [])"

definition contents :: "object \<Rightarrow> string" where
  "contents ob = fst (object_data ob)"

lemma read_contents_file_of:
  "\<exists>b fr. read_contents [] (file_of t) (dynbuf_ctor 0 False) = Inr (b, fr) \<and> dynbuf_data b = t"
  using read_contents_ok [of "[]" "dynbuf_ctor 0 False" t] by (auto simp: dynbuf_step_ok_def)

lemma contents_heap: "o_file ob = None \<Longrightarrow> contents ob = dynbuf_data (o_data ob)"
  by (simp add: contents_def object_data_def)

lemma contents_file:
  assumes "o_file ob = Some f" "tempfile_ok f"
  shows "contents ob = tf_bytes f"
proof -
  obtain b fr where "read_contents [] f (dynbuf_ctor 0 False) = Inr (b, fr)" "dynbuf_data b = tf_bytes f"
    using read_contents_file_of [of "tf_bytes f"] assms(2) tempfile_ok_file_of [of f] by metis
  then show ?thesis using assms(1) by (simp add: contents_def object_data_def)
qed

lemma object_ok_heapI:
  assumes "dynbuf_ok d" "o_data ob = d" "o_file ob = None" "o_length ob = length (dynbuf_data d)"
    "o_length ob \<le> heap_data_limit g"
  shows "object_ok g ob" "contents ob = dynbuf_data d"
  using assms by (simp_all add: object_ok_def contents_heap)

lemma object_ok_fileI:
  assumes "dynbuf_ok (o_data ob)" "dynbuf_data (o_data ob) = []" "o_file ob = Some f" "tempfile_ok f"
    "o_length ob = length (tf_bytes f)" "heap_data_limit g < o_length ob"
  shows "object_ok g ob" "contents ob = tf_bytes f"
  using assms by (simp_all add: object_ok_def contents_file)

lemma object_ok_cases:
  assumes "object_ok g ob"
  obtains (on_heap) "o_file ob = None" "dynbuf_ok (o_data ob)" "contents ob = dynbuf_data (o_data ob)"
      "o_length ob = length (contents ob)" "o_length ob \<le> heap_data_limit g"
    | (in_file) f where "o_file ob = Some f" "dynbuf_ok (o_data ob)" "dynbuf_data (o_data ob) = []"
      "tempfile_ok f" "contents ob = tf_bytes f" "o_length ob = length (contents ob)"
      "heap_data_limit g < o_length ob"
proof (cases "o_file ob")
  case None
  with assms on_heap show ?thesis by (simp add: object_ok_def contents_heap)
next
  case (Some f)
  with assms in_file show ?thesis by (simp add: object_ok_def contents_file)
qed

lemma object_size_contents: "object_ok g ob \<Longrightarrow> object_size ob = length (contents ob)"
  by (erule object_ok_cases)
    (simp_all add: object_size_def dynbuf_size_data tempfile_ok_def)

lemma object_ok_length: "object_ok g ob \<Longrightarrow> o_length ob = length (contents ob)"
  by (erule object_ok_cases) simp_all

text \<open>The fields that do not hold the data do not matter.\<close>

lemma object_ok_upd [simp]:
  "object_ok g (ob\<lparr>o_flags := a\<rparr>) = object_ok g ob" "object_ok g (ob\<lparr>o_exptime := t\<rparr>) = object_ok g ob"
  "object_ok g (ob\<lparr>o_cas := c\<rparr>) = object_ok g ob" "object_ok g (ob\<lparr>o_gc_old := a\<rparr>) = object_ok g ob"
  "object_ok g (ob\<lparr>o_lock := l\<rparr>) = object_ok g ob"
  by (simp_all add: object_ok_def cong: option.case_cong)

lemma contents_upd [simp]:
  "contents (ob\<lparr>o_flags := a\<rparr>) = contents ob" "contents (ob\<lparr>o_exptime := t\<rparr>) = contents ob"
  "contents (ob\<lparr>o_cas := c\<rparr>) = contents ob" "contents (ob\<lparr>o_gc_old := a\<rparr>) = contents ob"
  "contents (ob\<lparr>o_lock := l\<rparr>) = contents ob"
  by (simp_all add: contents_def object_data_def cong: option.case_cong)

lemma object_data_eq: "object_data ob = (contents ob, ob\<lparr>o_gc_old := 0\<rparr>)"
  by (simp add: contents_def object_data_def)

section \<open>What the operations do to the contents\<close>

lemma object_new_ok:
  "object_ok g (object_new g p fl t)" "contents (object_new g p fl t) = p"
proof -
  let ?d = "dynbuf_ctor 0 (secure_erase g)"
  have "object_ok g (object_new g p fl t) \<and> contents (object_new g p fl t) = p"
  proof (cases "length p > heap_data_limit g")
    case True
    then show ?thesis
      using object_ok_fileI [of "object_new g p fl t" "tempfile_write p tempfile_ctor" g]
      by (simp add: object_new_def Let_def tempfile_write_eq)
  next
    case False
    then show ?thesis
      using object_ok_heapI [of "if length p > 0 then fst (dynbuf_append p ?d) else ?d" "object_new g p fl t" g]
        dyn.append_if_nonempty [of ?d p]
      by (simp add: object_new_def Let_def)
  qed
  then show "object_ok g (object_new g p fl t)" "contents (object_new g p fl t) = p" by simp_all
qed

lemma object_set_ok:
  assumes "object_ok g ob"
  shows "object_ok g (fst (object_set g p fl t ob)) \<and> contents (fst (object_set g p fl t ob)) = p"
proof -
  obtain d fr where d: "dynbuf_reset (o_data ob) = (d, fr)" by force
  have dok: "dynbuf_ok (o_data ob)" using assms by (simp add: object_ok_def)
  then have d_ok: "dynbuf_ok d" "dynbuf_data d = []"
    using dyn.clear_invar [OF dok] dyn.clear_contents [OF dok] d by simp_all
  show ?thesis
  proof (cases "length p > heap_data_limit g")
    case True
    let ?f = "case o_file ob of None \<Rightarrow> tempfile_ctor | Some f \<Rightarrow> tempfile_clear f"
    have f: "tempfile_ok ?f" "tf_bytes ?f = []"
      by (auto simp: tempfile_clear_eq split: option.splits)
    then have "tempfile_ok (tempfile_write p ?f)" "tf_bytes (tempfile_write p ?f) = p"
      by (simp_all add: tempfile_write_eq)
    then show ?thesis
      using object_ok_fileI [of "fst (object_set g p fl t ob)" "tempfile_write p ?f" g] True d d_ok
      by (simp add: object_set_def Let_def)
  next
    case False
    obtain d' fr' where d': "(if length p > 0 then dynbuf_append p d else (d, [])) = (d', fr')" by force
    have "d' = (if length p > 0 then fst (dynbuf_append p d) else d)"
      using d' by (cases "length p > 0") auto
    then have "dynbuf_ok d'" "dynbuf_data d' = p"
      using dyn.append_if_nonempty [OF d_ok(1), of p] d_ok(2) by simp_all
    then show ?thesis
      using object_ok_heapI [of d' "fst (object_set g p fl t ob)" g] False d d'
      by (simp add: object_set_def Let_def)
  qed
qed

lemma object_append_ok:
  assumes "object_ok g ob"
  shows "object_ok g (fst (object_append g p ob)) \<and>
    contents (fst (object_append g p ob)) = contents ob @ p"
proof (cases "p = []")
  case True
  with assms show ?thesis by (simp add: object_append_def)
next
  case False
  note len = object_ok_length [OF assms]
  consider (heap) "o_length ob + length p \<le> heap_data_limit g"
    | (move) "o_length ob + length p > heap_data_limit g" "o_file ob = None"
    | (file') f where "o_length ob + length p > heap_data_limit g" "o_file ob = Some f"
    by (metis not_le option.exhaust)
  then show ?thesis
  proof cases
    case heap
    then have ob: "o_file ob = None" "dynbuf_ok (o_data ob)" "contents ob = dynbuf_data (o_data ob)"
      using assms by (auto elim: object_ok_cases)
    let ?d = "fst (dynbuf_append p (o_data ob))"
    have "dynbuf_ok ?d" "dynbuf_data ?d = contents ob @ p"
      using ob dyn.append_invar dyn.append_contents by auto
    then show ?thesis
      using object_ok_heapI [of ?d "fst (object_append g p ob)" g] heap ob len False
      by (simp add: object_append_def Let_def case_prod_beta)
  next
    case move
    then have ob: "dynbuf_ok (o_data ob)" "contents ob = dynbuf_data (o_data ob)"
      using assms by (auto elim: object_ok_cases)
    have "o_file (fst (object_append g p ob)) = Some (file_of (contents ob @ p))"
      using move ob len False
      by (cases "contents ob = []") (simp_all add: object_append_def Let_def case_prod_beta tempfile_write_eq)
    moreover have "o_data (fst (object_append g p ob)) = fst (dynbuf_reset (o_data ob))"
      "o_length (fst (object_append g p ob)) = length (contents ob @ p)"
      using move len False by (simp_all add: object_append_def Let_def case_prod_beta)
    ultimately show ?thesis
      using object_ok_fileI [of "fst (object_append g p ob)" "file_of (contents ob @ p)" g] move len
        dyn.clear_invar [OF ob(1)] dyn.clear_contents [OF ob(1)] by simp
  next
    case file'
    then have ob: "dynbuf_ok (o_data ob)" "dynbuf_data (o_data ob) = []" "tempfile_ok f"
      "contents ob = tf_bytes f"
      using assms by (auto elim: object_ok_cases)
    then have "tempfile_ok (tempfile_write p f)" "tf_bytes (tempfile_write p f) = contents ob @ p"
      by (simp_all add: tempfile_write_eq)
    then show ?thesis
      using object_ok_fileI [of "fst (object_append g p ob)" "tempfile_write p f" g] file' ob len False
      by (simp add: object_append_def Let_def)
  qed
qed

text \<open>The local buffer of \<^verbatim>\<open>prepend\<close> holds the new data in front of the old.\<close>

lemma prepend_buffer:
  assumes "dynbuf_append p (dynbuf_ctor n False) = (b1, fr1)" "dynbuf_append q b1 = (b2, fr2)"
  shows "dynbuf_ok b2 \<and> dynbuf_data b2 = p @ q"
  using dyn.append_contents [of "dynbuf_ctor n False" p] dyn.append_invar [of "dynbuf_ctor n False" p]
    dyn.append_contents [of b1 q] dyn.append_invar [of b1 q] assms by simp

lemma dynbuf_append_fits:
  "length p \<le> freebytes b \<Longrightarrow> m_capacity (fst (dynbuf_append p b)) = m_capacity b"
  by (simp add: dynbuf_append_def)

text \<open>
  It is exactly full, so that after the swap no byte beyond the contents is left in an erasing
  buffer.
\<close>

lemma prepend_swap:
  assumes b1: "dynbuf_append p (dynbuf_ctor n False) = (b1, fr1)" and b2: "dynbuf_append q b1 = (b2, fr2)"
    and n: "n = length q + length p" and d: "dynbuf_ok d"
  shows "dynbuf_ok (fst (dynbuf_swap d b2)) \<and> dynbuf_data (fst (dynbuf_swap d b2)) = p @ q"
proof -
  have ok: "dynbuf_ok b2" "dynbuf_data b2 = p @ q" using prepend_buffer [OF b1 b2] by simp_all
  have c1: "m_capacity b1 = n" "m_used b1 = length p"
    using dynbuf_append_fits [of p "dynbuf_ctor n False"] b1 n
    by (auto simp: freebytes_def dynbuf_ctor_def dynbuf_append_def)
  then have "m_capacity b2 = n"
    using dynbuf_append_fits [of q b1] b2 n by (simp add: freebytes_def)
  moreover obtain rest where "the_block (m_p b2) = map Some (p @ q) @ rest" "m_used b2 = length (p @ q)"
    "m_capacity b2 = length (p @ q) + length rest"
    using ok by (elim dynbuf_okE) simp
  ultimately show ?thesis
    using n dynbuf_okI [of "fst (dynbuf_swap d b2)" "p @ q" rest] by (simp add: dynbuf_swap_def)
qed

lemma object_prepend_ok:
  assumes "object_ok g ob"
  shows "object_ok g (fst (object_prepend g p ob)) \<and>
    contents (fst (object_prepend g p ob)) = p @ contents ob"
proof (cases "p = []")
  case True
  with assms show ?thesis by (simp add: object_prepend_def)
next
  case False
  note len = object_ok_length [OF assms]
  let ?n = "o_length ob + length p"
  obtain b1 fr1 where b1: "dynbuf_append p (dynbuf_ctor ?n False) = (b1, fr1)" by force
  have b1_ok: "dynbuf_ok b1" "dynbuf_data b1 = p"
    using dyn.append_invar [of "dynbuf_ctor ?n False" p] dyn.append_contents [of "dynbuf_ctor ?n False" p] b1
    by simp_all
  consider (heap) "?n \<le> heap_data_limit g"
    | (move) "?n > heap_data_limit g" "o_file ob = None"
    | (file') f where "?n > heap_data_limit g" "o_file ob = Some f"
    by (metis not_le option.exhaust)
  then show ?thesis
  proof cases
    case heap
    then have ob: "o_file ob = None" "dynbuf_ok (o_data ob)" "contents ob = dynbuf_data (o_data ob)"
      using assms by (auto elim: object_ok_cases)
    obtain b2 fr2 where b2: "dynbuf_append (contents ob) b1 = (b2, fr2)" by force
    let ?d = "fst (dynbuf_swap (o_data ob) b2)"
    have "dynbuf_ok ?d" "dynbuf_data ?d = p @ contents ob"
      using prepend_swap [OF b1 b2 _ ob(2)] len by simp_all
    moreover have "o_data (fst (object_prepend g p ob)) = ?d"
      "o_length (fst (object_prepend g p ob)) = length (p @ contents ob)"
      "o_file (fst (object_prepend g p ob)) = None"
      using heap ob b1 b2 len False by (simp_all add: object_prepend_def Let_def case_prod_beta)
    ultimately show ?thesis
      using object_ok_heapI [of ?d "fst (object_prepend g p ob)" g] heap len by simp
  next
    case move
    then have ob: "dynbuf_ok (o_data ob)" "contents ob = dynbuf_data (o_data ob)"
      using assms by (auto elim: object_ok_cases)
    have "o_file (fst (object_prepend g p ob)) = Some (file_of (p @ contents ob))"
      using move ob len False
      by (cases "contents ob = []") (simp_all add: object_prepend_def Let_def case_prod_beta tempfile_write_eq)
    moreover have "o_data (fst (object_prepend g p ob)) = fst (dynbuf_reset (o_data ob))"
      "o_length (fst (object_prepend g p ob)) = length (p @ contents ob)"
      using move len False by (simp_all add: object_prepend_def Let_def case_prod_beta)
    ultimately show ?thesis
      using object_ok_fileI [of "fst (object_prepend g p ob)" "file_of (p @ contents ob)" g] move len
        dyn.clear_invar [OF ob(1)] dyn.clear_contents [OF ob(1)] by simp
  next
    case file'
    then have ob: "dynbuf_ok (o_data ob)" "dynbuf_data (o_data ob) = []" "tempfile_ok f"
      "contents ob = tf_bytes f"
      using assms by (auto elim: object_ok_cases)
    obtain b2 fr2 where b2: "read_contents [] f b1 = Inr (b2, fr2)" "dynbuf_data b2 = p @ contents ob"
      using read_contents_ok [of "[]" b1 "tf_bytes f"] b1_ok ob tempfile_ok_file_of [of f]
      by (auto simp: dynbuf_step_ok_def)
    have "o_file (fst (object_prepend g p ob)) = Some (file_of (p @ contents ob))"
      using file' b1 b2 len False
      by (simp add: object_prepend_def Let_def case_prod_beta tempfile_write_eq tempfile_clear_eq)
    moreover have "o_data (fst (object_prepend g p ob)) = o_data ob"
      "o_length (fst (object_prepend g p ob)) = length (p @ contents ob)"
      using file' len False by (simp_all add: object_prepend_def Let_def case_prod_beta)
    ultimately show ?thesis
      using object_ok_fileI [of "fst (object_prepend g p ob)" "file_of (p @ contents ob)" g] file' ob len
      by simp
  qed
qed

text \<open>Numbers of 64 bits have at most 20 digits.\<close>

lemma length_to_decimal_u64: "length (to_decimal (unat (w :: u64))) \<le> 20"
proof (rule length_to_decimal)
  show "unat w < 10 ^ 20" using unat_le_ULLONG_MAX [of w] by (simp add: ULLONG_MAX_def)
qed simp

lemma object_new_number_ok:
  assumes "20 \<le> heap_data_limit g"
  shows "object_ok g (object_new_number g v t)" "contents (object_new_number g v t) = to_decimal (unat v)"
proof -
  let ?d = "fst (dynbuf_append (to_decimal (unat v)) (dynbuf_ctor 24 (secure_erase g)))"
  have d: "dynbuf_ok ?d" "dynbuf_data ?d = to_decimal (unat v)"
    by (simp_all add: dyn.append_invar dyn.append_contents)
  have "object_ok g (object_new_number g v t) \<and> contents (object_new_number g v t) = to_decimal (unat v)"
    using object_ok_heapI [OF d(1), of "object_new_number g v t" g] d(2) assms length_to_decimal_u64 [of v]
    by (simp add: object_new_number_def Let_def)
  then show "object_ok g (object_new_number g v t)"
    "contents (object_new_number g v t) = to_decimal (unat v)" by simp_all
qed

lemma object_arith_ok:
  assumes "object_ok g ob" "20 \<le> heap_data_limit g" "object_arith f ob = Inr (u, ob', fr)"
  shows "object_ok g ob'" "contents ob' = to_decimal (unat u)"
    "\<exists>v. stoull (contents ob) = Inr v \<and> u = f v" "length (contents ob) \<le> heap_data_limit g"
    "ob' = ob\<lparr>o_length := o_length ob', o_data := o_data ob', o_cas := o_cas ob + 1, o_gc_old := 0\<rparr>"
proof -
  have nofile: "o_file ob = None" using assms(3) by (auto simp: object_arith_def split: if_splits)
  then have ob: "dynbuf_ok (o_data ob)" "contents ob = dynbuf_data (o_data ob)"
    "o_length ob = length (contents ob)" "o_length ob \<le> heap_data_limit g"
    using assms(1) by (auto elim: object_ok_cases)
  obtain v where v: "stoull (contents ob) = Inr v"
    using assms(3) nofile ob by (auto simp: object_arith_def to_uint64_def split: sum.splits)
  let ?s = "to_decimal (unat (f v))"
  let ?d = "fst (dynbuf_append ?s (fst (dynbuf_reset (o_data ob))))"
  have ob': "ob' = ob\<lparr>o_length := length ?s, o_data := ?d, o_cas := o_cas ob + 1, o_gc_old := 0\<rparr>"
    and u: "u = f v"
    using assms(3) nofile ob v by (auto simp: object_arith_def to_uint64_def Let_def case_prod_beta)
  have d: "dynbuf_ok ?d" "dynbuf_data ?d = ?s" by (simp_all add: dyn.overwrite ob(1))
  have "object_ok g ob' \<and> contents ob' = ?s"
    using object_ok_heapI [OF d(1), of ob' g] d(2) assms(2) length_to_decimal_u64 [of "f v"] nofile
    by (simp add: ob')
  with u show "object_ok g ob'" "contents ob' = to_decimal (unat u)" by simp_all
  show "\<exists>v. stoull (contents ob) = Inr v \<and> u = f v" using u v by blast
  show "length (contents ob) \<le> heap_data_limit g" using ob by simp
  show "ob' = ob\<lparr>o_length := o_length ob', o_data := o_data ob', o_cas := o_cas ob + 1, o_gc_old := 0\<rparr>"
    by (simp add: ob')
qed

lemma object_arith_throws:
  assumes "object_ok g ob"
  shows "object_arith f ob = Inl e \<longleftrightarrow>
    e = Not_a_number \<and> (heap_data_limit g < length (contents ob) \<or> (\<exists>x. stoull (contents ob) = Inl x))"
  using assms
proof (cases rule: object_ok_cases)
  case on_heap
  then show ?thesis
    by (auto simp: object_arith_def to_uint64_def Let_def case_prod_beta split: sum.splits)
next
  case (in_file f)
  then show ?thesis by (auto simp: object_arith_def)
qed

section \<open>Objects as values\<close>

text \<open>What an object is to its clients: data, flags, expiration time and the CAS number.\<close>

record aobject =
  a_data :: string
  a_flags :: u32
  a_exptime :: time_t
  a_cas :: u64

definition abs_object :: "object \<Rightarrow> aobject" where
  "abs_object ob = \<lparr>a_data = contents ob, a_flags = o_flags ob, a_exptime = o_exptime ob, a_cas = o_cas ob\<rparr>"

datatype obj_op =
    Ob_set string u32 time_t
  | Ob_append string
  | Ob_prepend string
  | Ob_incr u64
  | Ob_decr u64
  | Ob_touch time_t
  | Ob_read

text \<open>An operation that throws leaves the object as it was.\<close>

fun object_step :: "cfg \<Rightarrow> obj_op \<Rightarrow> object \<Rightarrow> object \<times> block list" where
  "object_step g (Ob_set p fl t) ob = object_set g p fl t ob"
| "object_step g (Ob_append p) ob = object_append g p ob"
| "object_step g (Ob_prepend p) ob = object_prepend g p ob"
| "object_step g (Ob_incr n) ob = (case object_incr n ob of Inl _ \<Rightarrow> (ob, []) | Inr (_, ob', fr) \<Rightarrow> (ob', fr))"
| "object_step g (Ob_decr n) ob = (case object_decr n ob of Inl _ \<Rightarrow> (ob, []) | Inr (_, ob', fr) \<Rightarrow> (ob', fr))"
| "object_step g (Ob_touch t) ob = (object_touch t ob, [])"
| "object_step g Ob_read ob = (snd (object_data ob), [])"

fun object_run :: "cfg \<Rightarrow> obj_op list \<Rightarrow> object \<Rightarrow> object \<times> block list" where
  "object_run g [] ob = (ob, [])"
| "object_run g (a # ops) ob =
     (let (ob1, fr1) = object_step g a ob; (ob2, fr2) = object_run g ops ob1 in (ob2, fr1 @ fr2))"

definition a_store :: "string \<Rightarrow> aobject \<Rightarrow> aobject" where
  "a_store s v = v\<lparr>a_data := s, a_cas := a_cas v + 1\<rparr>"

definition a_arith :: "cfg \<Rightarrow> (u64 \<Rightarrow> u64) \<Rightarrow> aobject \<Rightarrow> aobject" where
  "a_arith g f v =
     (if heap_data_limit g < length (a_data v) then v
      else case stoull (a_data v) of Inl _ \<Rightarrow> v | Inr n \<Rightarrow> a_store (to_decimal (unat (f n))) v)"

fun aobject_step :: "cfg \<Rightarrow> obj_op \<Rightarrow> aobject \<Rightarrow> aobject" where
  "aobject_step g (Ob_set p fl t) v = a_store p (v\<lparr>a_flags := fl, a_exptime := t\<rparr>)"
| "aobject_step g (Ob_append p) v = a_store (a_data v @ p) v"
| "aobject_step g (Ob_prepend p) v = a_store (p @ a_data v) v"
| "aobject_step g (Ob_incr n) v = a_arith g (\<lambda>k. k + n) v"
| "aobject_step g (Ob_decr n) v = a_arith g (\<lambda>k. if k < n then 0 else k - n) v"
| "aobject_step g (Ob_touch t) v = v\<lparr>a_exptime := t\<rparr>"
| "aobject_step g Ob_read v = v"

lemma object_set_fields:
  "o_flags (fst (object_set g p fl t ob)) = fl" "o_exptime (fst (object_set g p fl t ob)) = t"
  "o_cas (fst (object_set g p fl t ob)) = o_cas ob + 1" "o_lock (fst (object_set g p fl t ob)) = o_lock ob"
  by (simp_all add: object_set_def Let_def case_prod_beta)

lemma object_append_fields:
  "o_flags (fst (object_append g p ob)) = o_flags ob" "o_exptime (fst (object_append g p ob)) = o_exptime ob"
  "o_cas (fst (object_append g p ob)) = o_cas ob + 1" "o_lock (fst (object_append g p ob)) = o_lock ob"
  by (simp_all add: object_append_def Let_def case_prod_beta split: option.split)

lemma object_prepend_fields:
  "o_flags (fst (object_prepend g p ob)) = o_flags ob" "o_exptime (fst (object_prepend g p ob)) = o_exptime ob"
  "o_cas (fst (object_prepend g p ob)) = o_cas ob + 1" "o_lock (fst (object_prepend g p ob)) = o_lock ob"
  by (simp_all add: object_prepend_def Let_def case_prod_beta split: option.split)

lemma object_arith_fields:
  assumes "object_arith f ob = Inr (u, ob', fr)"
  shows "o_flags ob' = o_flags ob" "o_exptime ob' = o_exptime ob" "o_cas ob' = o_cas ob + 1"
    "o_lock ob' = o_lock ob"
  using assms by (auto simp: object_arith_def Let_def case_prod_beta split: if_splits sum.splits)

lemmas object_fields = object_set_fields object_append_fields object_prepend_fields

lemma object_arith_step:
  assumes "object_ok g ob" "20 \<le> heap_data_limit g"
    "res = (case object_arith f ob of Inl _ \<Rightarrow> (ob, []) | Inr (_, ob', fr) \<Rightarrow> (ob', fr))"
  shows "object_ok g (fst res) \<and> abs_object (fst res) = a_arith g f (abs_object ob)"
proof (cases "object_arith f ob")
  case (Inl e)
  with assms object_arith_throws [OF assms(1), of f e] show ?thesis
    by (auto simp: a_arith_def abs_object_def)
next
  case (Inr r)
  obtain u ob' fr where r: "r = (u, ob', fr)" by (cases r)
  note ar = object_arith_ok [OF assms(1,2) Inr [unfolded r]]
  note fl = object_arith_fields [OF Inr [unfolded r]]
  from ar(3) obtain v where "stoull (contents ob) = Inr v" "u = f v" by blast
  with ar(1,2,4) fl assms(3) Inr r show ?thesis
    by (simp add: a_arith_def abs_object_def a_store_def)
qed

lemma object_step_refines:
  assumes "object_ok g ob" "20 \<le> heap_data_limit g"
  shows "object_ok g (fst (object_step g a ob)) \<and>
    abs_object (fst (object_step g a ob)) = aobject_step g a (abs_object ob)"
proof (cases a)
  case (Ob_incr n)
  then show ?thesis using object_arith_step [OF assms] by (simp add: object_incr_def)
next
  case (Ob_decr n)
  then show ?thesis using object_arith_step [OF assms] by (simp add: object_decr_def)
qed (use assms object_set_ok object_append_ok object_prepend_ok in
    \<open>simp_all add: abs_object_def a_store_def object_fields object_touch_def object_data_eq\<close>)

lemma object_run_refines:
  assumes "object_ok g ob" "20 \<le> heap_data_limit g"
  shows "object_ok g (fst (object_run g ops ob)) \<and>
    abs_object (fst (object_run g ops ob)) = fold (aobject_step g) ops (abs_object ob)"
  using assms(1)
proof (induction ops arbitrary: ob)
  case (Cons a ops)
  from object_step_refines [OF Cons.prems assms(2), of a] Cons.IH [of "fst (object_step g a ob)"]
  show ?case by (simp add: case_prod_beta Let_def)
qed simp


definition sample_cfg :: cfg where
  "sample_cfg = (config_default ''127.0.0.1'')\<lparr>secure_erase := True\<rparr>"

lemma sample_cfg_limit: "4096 \<le> heap_data_limit sample_cfg"
  by (simp add: sample_cfg_def config_default_def DEFAULT_HEAP_DATA_LIMIT_def)


text \<open>
  C22: on an object that holds the decimal digits of a 64-bit number, \<^verbatim>\<open>incr\<close> succeeds and adds
  modulo $2^{64}$, \<^verbatim>\<open>decr\<close> succeeds and stops at zero, the object then holds the digits of the
  number returned, and the CAS number goes up by one.
\<close>

theorem object_incr_decr:
  assumes "object_ok g ob" "4096 \<le> heap_data_limit g" "contents ob = to_decimal (unat v)"
  shows "(\<exists>ob' fr. object_incr n ob = Inr (v + n, ob', fr) \<and>
      contents ob' = to_decimal ((unat v + unat n) mod 2 ^ 64) \<and> o_cas ob' = o_cas ob + 1) \<and>
    (\<exists>ob' fr. object_decr n ob = Inr (word_of_nat (unat v - unat n), ob', fr) \<and>
      contents ob' = to_decimal (unat v - unat n) \<and> o_cas ob' = o_cas ob + 1)"
proof -
  have small: "length (contents ob) \<le> heap_data_limit g"
    using length_to_decimal_u64 [of v] assms(2,3) by simp
  have arith: "\<exists>ob' fr. object_arith f ob = Inr (f v, ob', fr) \<and> contents ob' = to_decimal (unat (f v)) \<and>
      o_cas ob' = o_cas ob + 1" for f
  proof (cases "object_arith f ob")
    case (Inl e)
    with object_arith_throws [OF assms(1), of f e] small assms(3) show ?thesis by simp
  next
    case (Inr r)
    obtain u ob' fr where r: "r = (u, ob', fr)" by (cases r)
    note ar = object_arith_ok [OF assms(1) _ Inr [unfolded r]] object_arith_fields [OF Inr [unfolded r]]
    with assms(2,3) Inr r show ?thesis by auto
  qed
  have "unat (v + n) = (unat v + unat n) mod 2 ^ 64" by (simp add: unat_word_ariths)
  moreover have "(if v < n then 0 else v - n) = word_of_nat (unat v - unat n)"
    "unat (if v < n then 0 else v - n) = unat v - unat n"
    by (auto simp: word_less_nat_alt unat_minus_le word_le_nat_alt not_less of_nat_diff)
  ultimately show ?thesis
    using arith [of "\<lambda>k. k + n"] arith [of "\<lambda>k. if k < n then 0 else k - n"]
    by (auto simp: object_incr_def object_decr_def)
qed

theorem object_incr_decr_witness:
  "contents (fst (snd (projr (object_incr 5 (object_new_number sample_cfg 18446744073709551615 0))))) =
   to_decimal 4"
proof -
  let ?ob = "object_new_number sample_cfg 18446744073709551615 0"
  have "20 \<le> heap_data_limit sample_cfg" using sample_cfg_limit by simp
  from object_new_number_ok [OF this]
  have "object_ok sample_cfg ?ob" "contents ?ob = to_decimal (unat (18446744073709551615 :: u64))" by blast+
  from object_incr_decr [OF this(1) sample_cfg_limit this(2), of 5] show ?thesis by auto
qed

section \<open>Secure erasing\<close>

text \<open>The operations that keep the promise of \<^verbatim>\<open>secure_erase\<close>: all but \<^verbatim>\<open>prepend\<close>.\<close>

fun is_prepend :: "obj_op \<Rightarrow> bool" where
  "is_prepend (Ob_prepend p) \<longleftrightarrow> p \<noteq> []"
| "is_prepend _ \<longleftrightarrow> False"

lemma dynbuf_reset_clean:
  assumes "dynbuf_ok b" "m_erase b"
  shows "clean_blocks (snd (dynbuf_reset b))" "m_erase (fst (dynbuf_reset b))"
  using dynbuf_step_okD [OF dynbuf_reset_ok [OF assms(1)]] assms(2) by simp_all

lemma dynbuf_append_clean:
  assumes "dynbuf_ok b" "m_erase b"
  shows "clean_blocks (snd (dynbuf_append s b))" "m_erase (fst (dynbuf_append s b))"
  using dynbuf_step_okD [OF dynbuf_append_ok [OF assms(1)]] assms(2) by simp_all

lemmas dynbuf_clean = dynbuf_reset_clean dynbuf_append_clean dyn.clear_invar

lemma object_arith_clean:
  assumes "dynbuf_ok (o_data ob)" "m_erase (o_data ob)" "object_arith f ob = Inr (u, ob', fr)"
  shows "clean_blocks fr \<and> m_erase (o_data ob')"
  using assms
  by (auto simp: object_arith_def Let_def case_prod_beta dynbuf_clean split: if_splits sum.splits)

lemma object_step_clean:
  assumes "object_ok g ob" "m_erase (o_data ob)" "\<not> is_prepend a"
  shows "clean_blocks (snd (object_step g a ob)) \<and> m_erase (o_data (fst (object_step g a ob)))"
proof -
  have d: "dynbuf_ok (o_data ob)" using assms(1) by (simp add: object_ok_def)
  show ?thesis
  proof (cases a)
    case (Ob_incr n)
    with object_arith_clean [OF d assms(2)] assms(2) show ?thesis
      by (auto simp: object_incr_def split: sum.splits)
  next
    case (Ob_decr n)
    with object_arith_clean [OF d assms(2)] assms(2) show ?thesis
      by (auto simp: object_decr_def split: sum.splits)
  qed (use d assms in \<open>simp_all add: object_set_def object_append_def object_prepend_def Let_def
      case_prod_beta dynbuf_clean object_touch_def object_data_def split: option.split\<close>)
qed




end
