(* ===== verification/Binary_Command.thy ===== *)
theory Binary_Command
  imports Config
begin

text \<open>
  The commands of the binary protocol, from \<^verbatim>\<open>src/memcache/memcache.hpp\<close> and the case labels of
  \<^verbatim>\<open>memcache.cpp\<close> and \<^verbatim>\<open>sockets.cpp\<close>.  A byte that is the value of no enumerator is kept as
  \<open>Bin_Other\<close>, since a response carries it back.
\<close>

section \<open>Commands\<close>

text \<open>\<^verbatim>\<open>enum class binary_command\<close>, with the values of its enumerators.\<close>

datatype (plugins only: code) binary_command =
    Bin_Get | Bin_Set | Bin_Add | Bin_Replace | Bin_Delete | Bin_Increment | Bin_Decrement |
    Bin_Quit | Bin_Flush | Bin_GetQ | Bin_Noop | Bin_Version | Bin_GetK | Bin_GetKQ |
    Bin_Append | Bin_Prepend | Bin_Stat | Bin_SetQ | Bin_AddQ | Bin_ReplaceQ | Bin_DeleteQ |
    Bin_IncrementQ | Bin_DecrementQ | Bin_QuitQ | Bin_FlushQ | Bin_AppendQ | Bin_PrependQ |
    Bin_Touch | Bin_GaT | Bin_GaTQ | Bin_GaTK | Bin_GaTKQ | Bin_Lock | Bin_LockQ |
    Bin_Unlock | Bin_UnlockQ | Bin_UnlockAll | Bin_UnlockAllQ | Bin_LaG | Bin_LaGQ |
    Bin_LaGK | Bin_LaGKQ | Bin_RaU | Bin_RaUQ | Bin_Keys | Bin_Unknown | Bin_Other nat

definition command_table :: "(binary_command \<times> nat) list" where
  "command_table =
     [(Bin_Get, 0), (Bin_Set, 1), (Bin_Add, 2), (Bin_Replace, 3), (Bin_Delete, 4),
      (Bin_Increment, 5), (Bin_Decrement, 6), (Bin_Quit, 7), (Bin_Flush, 8), (Bin_GetQ, 9),
      (Bin_Noop, 10), (Bin_Version, 11), (Bin_GetK, 12), (Bin_GetKQ, 13), (Bin_Append, 14),
      (Bin_Prepend, 15), (Bin_Stat, 16), (Bin_SetQ, 17), (Bin_AddQ, 18), (Bin_ReplaceQ, 19),
      (Bin_DeleteQ, 20), (Bin_IncrementQ, 21), (Bin_DecrementQ, 22), (Bin_QuitQ, 23), (Bin_FlushQ, 24),
      (Bin_AppendQ, 25), (Bin_PrependQ, 26), (Bin_Touch, 28), (Bin_GaT, 29), (Bin_GaTQ, 30),
      (Bin_GaTK, 35), (Bin_GaTKQ, 36), (Bin_Lock, 64), (Bin_LockQ, 65), (Bin_Unlock, 66),
      (Bin_UnlockQ, 67), (Bin_UnlockAll, 68), (Bin_UnlockAllQ, 69), (Bin_LaG, 70), (Bin_LaGQ, 71),
      (Bin_LaGK, 72), (Bin_LaGKQ, 73), (Bin_RaU, 74), (Bin_RaUQ, 75), (Bin_Keys, 80),
      (Bin_Unknown, 81)]"

definition command_of_byte :: "nat \<Rightarrow> binary_command" where
  "command_of_byte b = (case map_of (map prod.swap command_table) b of Some c \<Rightarrow> c | None \<Rightarrow> Bin_Other b)"

definition byte_of_command :: "binary_command \<Rightarrow> nat" where
  "byte_of_command c =
     (case map_of command_table c of
        Some b \<Rightarrow> b
      | None \<Rightarrow> (case c of Bin_Other b \<Rightarrow> b | _ \<Rightarrow> 0))"

text \<open>The test on \<^verbatim>\<open>m_quiet\<close> compares the values of the enumerators.\<close>

definition is_quiet :: "binary_command \<Rightarrow> bool" where
  "is_quiet c \<longleftrightarrow>
     (let b = byte_of_command c
      in c = Bin_GetQ \<or> c = Bin_GetKQ \<or>
         (byte_of_command Bin_SetQ \<le> b \<and> b \<le> byte_of_command Bin_PrependQ) \<or>
         c = Bin_GaTQ \<or> c = Bin_GaTKQ \<or>
         (byte_of_command Bin_LockQ \<le> b \<and> b \<le> byte_of_command Bin_RaUQ \<and> b mod 2 = 1))"

text \<open>The groups of case labels of the two switch statements.\<close>

definition get_cmds :: "binary_command set" where
  "get_cmds = {Bin_Get, Bin_GetQ, Bin_GetK, Bin_GetKQ, Bin_GaT, Bin_GaTQ, Bin_GaTK, Bin_GaTKQ,
               Bin_LaG, Bin_LaGQ, Bin_LaGK, Bin_LaGKQ}"

definition store_cmds :: "binary_command set" where
  "store_cmds = {Bin_Set, Bin_SetQ, Bin_Add, Bin_AddQ, Bin_Replace, Bin_ReplaceQ}"

definition rau_cmds :: "binary_command set" where
  "rau_cmds = {Bin_RaU, Bin_RaUQ}"

definition delete_cmds :: "binary_command set" where
  "delete_cmds = {Bin_Delete, Bin_DeleteQ}"

definition incdec_cmds :: "binary_command set" where
  "incdec_cmds = {Bin_Increment, Bin_IncrementQ, Bin_Decrement, Bin_DecrementQ}"

definition flush_cmds :: "binary_command set" where
  "flush_cmds = {Bin_Flush, Bin_FlushQ}"

definition concat_cmds :: "binary_command set" where
  "concat_cmds = {Bin_Append, Bin_AppendQ, Bin_Prepend, Bin_PrependQ}"

definition lock_cmds :: "binary_command set" where
  "lock_cmds = {Bin_Lock, Bin_LockQ, Bin_Unlock, Bin_UnlockQ}"

definition unchecked_cmds :: "binary_command set" where
  "unchecked_cmds = {Bin_Quit, Bin_QuitQ, Bin_Version, Bin_Noop, Bin_UnlockAll, Bin_UnlockAllQ}"

section \<open>Facts on commands\<close>

definition is_enumerator :: "binary_command \<Rightarrow> bool" where
  "is_enumerator c \<longleftrightarrow> c \<in> fst ` set command_table"

lemma distinct_command_table: "distinct (map fst command_table)" "distinct (map snd command_table)"
  by (simp_all add: command_table_def)

lemma command_table_bytes: "\<forall>x \<in> set command_table. snd x < 256"
  by (simp add: command_table_def)

lemma command_of_byte_of_command:
  "is_enumerator c \<Longrightarrow> command_of_byte (byte_of_command c) = c \<and> byte_of_command c < 256"
proof -
  assume "is_enumerator c"
  then obtain b where cb: "(c, b) \<in> set command_table" by (auto simp: is_enumerator_def)
  then have "map_of command_table c = Some b" using distinct_command_table(1) by simp
  then have byte: "byte_of_command c = b" by (simp add: byte_of_command_def)
  have "(b, c) \<in> set (map prod.swap command_table)" using cb by force
  moreover have "distinct (map fst (map prod.swap command_table))"
    using distinct_command_table(2) by (simp add: comp_def)
  ultimately have "map_of (map prod.swap command_table) b = Some c" by (meson map_of_eq_Some_iff)
  moreover have "b < 256" using cb command_table_bytes by auto
  ultimately show ?thesis by (simp add: byte command_of_byte_def)
qed

end
