(* ===== verification/Binary_Request.thy ===== *)
theory Binary_Request
  imports Binary_Command
begin

text \<open>
  Models the binary protocol requests of \<^verbatim>\<open>src/memcache/memcache.hpp\<close> and \<^verbatim>\<open>memcache.cpp\<close>.

  The parser looks at the bytes received from the head of the request on.  Fields that the
  constructor leaves indeterminate are only read when the request is complete, and then they
  have been set; the model gives them a default.
\<close>

section \<open>Parsing\<close>

datatype binary_status =
    St_OK | St_NotFound | St_Exists | St_TooLargeValue | St_Invalid | St_NotStored | St_NonNumeric
  | St_Locked | St_NotLocked | St_UnknownCommand | St_OutOfMemory

datatype stats_t = Stats_GENERAL | Stats_SETTINGS | Stats_ITEMS | Stats_SIZES | Stats_OPS

record binary_request =
  br_length :: nat
  br_status :: binary_status
  br_command :: binary_command
  br_quiet :: bool
  br_key :: string
  br_cas_unique :: u64
  br_flags :: u32
  br_exptime :: time_t
  br_data :: string
  br_value :: u64
  br_initial :: u64
  br_stats :: stats_t
  br_opaque :: string

definition binary_request_init :: binary_request where
  "binary_request_init =
     \<lparr>br_length = 0, br_status = St_Invalid, br_command = Bin_Unknown, br_quiet = False, br_key = [],
      br_cas_unique = 0, br_flags = 0, br_exptime = 0, br_data = [], br_value = 0, br_initial = 0,
      br_stats = Stats_GENERAL, br_opaque = []\<rparr>"

definition BINARY_HEADER_SIZE :: nat where "BINARY_HEADER_SIZE = 24"

definition EXPTIME_NONE :: time_t where "EXPTIME_NONE = - 1"

definition EXPTIME_THRESHOLD :: nat where "EXPTIME_THRESHOLD = 60 * 60 * 24 * 30"

definition is_binary_request :: "string \<Rightarrow> bool" where
  "is_binary_request p \<longleftrightarrow> hd p = CHR 0x80"

definition binary_exptime :: "time_t \<Rightarrow> string \<Rightarrow> time_t" where
  "binary_exptime now p =
     (let t = (ntoh p :: u32)
      in if t = 0 then 0
         else if t = 0xffffffff then EXPTIME_NONE
         else if unat t > EXPTIME_THRESHOLD then int (unat t)
         else now + int (unat t))"

text \<open>
  The switch on the command: \<open>x\<close> is the request from the extras on.  Leaving early keeps the status
  \<^verbatim>\<open>Invalid\<close>.
\<close>

definition parse_stat_key :: "nat \<Rightarrow> string \<Rightarrow> stats_t" where
  "parse_stat_key key_len x =
     (if key_len = 8 \<and> take 8 x = ''settings'' then Stats_SETTINGS
      else if key_len = 5 then
        (if take 5 x = ''items'' then Stats_ITEMS
         else if take 5 x = ''sizes'' then Stats_SIZES
         else Stats_GENERAL)
      else if key_len = 3 \<and> take 3 x = ''ops'' then Stats_OPS
      else Stats_GENERAL)"

definition parse_command ::
  "time_t \<Rightarrow> nat \<Rightarrow> nat \<Rightarrow> nat \<Rightarrow> string \<Rightarrow> binary_request \<Rightarrow> binary_request" where
  "parse_command now key_len extras_len data_len x r =
     (let c = br_command r; ok = r\<lparr>br_status := St_OK\<rparr>
      in if c \<in> get_cmds then
           (if extras_len \<noteq> 0 \<and> extras_len \<noteq> 4 then r
            else if key_len = 0 \<or> data_len > 0 then r
            else ok\<lparr>br_exptime := (if extras_len = 4 then binary_exptime now x else EXPTIME_NONE)\<rparr>)
         else if c \<in> store_cmds \<or> c \<in> rau_cmds then
           (if extras_len \<noteq> 8 \<or> key_len = 0 \<or> data_len = 0 then r
            else ok\<lparr>br_flags := ntoh x, br_exptime := binary_exptime now (drop 4 x)\<rparr>)
         else if c \<in> delete_cmds then
           (if extras_len \<noteq> 0 \<or> key_len = 0 \<or> data_len > 0 then r else ok)
         else if c \<in> incdec_cmds then
           (if extras_len \<noteq> 20 \<or> key_len = 0 \<or> data_len > 0 then r
            else ok\<lparr>br_value := ntoh x, br_initial := ntoh (drop 8 x),
                    br_exptime := binary_exptime now (drop 16 x)\<rparr>)
         else if c = Bin_Touch then
           (if key_len = 0 \<or> extras_len \<noteq> 4 \<or> data_len \<noteq> 0 then r
            else ok\<lparr>br_exptime := binary_exptime now x\<rparr>)
         else if c \<in> flush_cmds then
           (if extras_len \<noteq> 0 \<and> extras_len \<noteq> 4 then r
            else if key_len \<noteq> 0 \<or> data_len > 0 then r
            else ok\<lparr>br_exptime := (if extras_len = 4 then binary_exptime now x else now)\<rparr>)
         else if c \<in> concat_cmds then
           (if extras_len \<noteq> 0 \<or> key_len = 0 \<or> data_len = 0 then r else ok)
         else if c \<in> lock_cmds then
           (if extras_len \<noteq> 0 \<or> key_len = 0 \<or> data_len > 0 then r else ok)
         else if c = Bin_Stat then
           (if extras_len \<noteq> 0 \<or> data_len \<noteq> 0 then r
            else ok\<lparr>br_stats := parse_stat_key key_len x\<rparr>)
         else if c = Bin_Keys then
           (if extras_len \<noteq> 0 \<or> data_len > 0 then r else ok)
         else if c \<in> unchecked_cmds then ok
         else r\<lparr>br_command := Bin_Unknown, br_status := St_UnknownCommand\<rparr>)"

definition parse_binary :: "time_t \<Rightarrow> string \<Rightarrow> binary_request" where
  "parse_binary now p =
     (let r = binary_request_init
      in if length p < BINARY_HEADER_SIZE then r
         else
           (let total_len = unat (ntoh (drop 8 p) :: u32)
            in if length p < BINARY_HEADER_SIZE + total_len then r
               else
                 (let c = command_of_byte (of_char (p ! 1));
                      r1 = r\<lparr>br_length := BINARY_HEADER_SIZE + total_len, br_command := c,
                             br_quiet := is_quiet c, br_opaque := take 4 (drop 12 p)\<rparr>;
                      key_len = unat (ntoh (drop 2 p) :: u16);
                      extras_len = of_char (p ! 4);
                      data_len = total_len - key_len - extras_len;
                      r2 = r1\<lparr>br_key := take key_len (drop (BINARY_HEADER_SIZE + extras_len) p),
                              br_cas_unique := ntoh (drop 16 p)\<rparr>;
                      r3 = r2\<lparr>br_data :=
                        take data_len (drop (BINARY_HEADER_SIZE + extras_len + key_len) p)\<rparr>
                  in if key_len > MAX_KEY_LENGTH then r1
                     else if total_len < key_len + extras_len then r1
                     else if data_len > MAX_REQUEST_LENGTH then r2\<lparr>br_status := St_TooLargeValue\<rparr>
                     else parse_command now key_len extras_len data_len
                            (drop BINARY_HEADER_SIZE p) r3)))"

section \<open>Incomplete requests and progress\<close>

lemma br_if:
  "br_length (if b then r else r') = (if b then br_length r else br_length r')"
  "br_opaque (if b then r else r') = (if b then br_opaque r else br_opaque r')"
  "br_key (if b then r else r') = (if b then br_key r else br_key r')"
  "br_data (if b then r else r') = (if b then br_data r else br_data r')"
  "br_quiet (if b then r else r') = (if b then br_quiet r else br_quiet r')"
  "br_cas_unique (if b then r else r') = (if b then br_cas_unique r else br_cas_unique r')"
  by (cases b; simp)+

lemma parse_command_keeps [simp]:
  "br_length (parse_command now k e d x r) = br_length r"
  "br_opaque (parse_command now k e d x r) = br_opaque r"
  "br_key (parse_command now k e d x r) = br_key r"
  "br_data (parse_command now k e d x r) = br_data r"
  "br_quiet (parse_command now k e d x r) = br_quiet r"
  "br_cas_unique (parse_command now k e d x r) = br_cas_unique r"
  by (simp_all add: parse_command_def Let_def br_if split del: if_split cong del: if_weak_cong)

lemma br_length_parse:
  "br_length (parse_binary now p) =
     (if length p < BINARY_HEADER_SIZE then 0
      else let n = BINARY_HEADER_SIZE + unat (ntoh (drop 8 p) :: u32) in if length p < n then 0 else n)"
  by (simp add: parse_binary_def Let_def binary_request_init_def)

lemma ntoh_take: "LENGTH('a::len) div 8 \<le> n \<Longrightarrow> (ntoh (take n p) :: 'a word) = ntoh p"
  by (simp add: ntoh_def min_absorb1)

lemma ntoh_append: "LENGTH('a::len) div 8 \<le> length p \<Longrightarrow> (ntoh (p @ q) :: 'a word) = ntoh p"
  by (simp add: ntoh_def)

lemma binary_exptime_append: "4 \<le> length p \<Longrightarrow> binary_exptime now (p @ q) = binary_exptime now p"
  by (simp add: binary_exptime_def ntoh_append)

lemma parse_stat_key_append:
  "k \<le> length x \<Longrightarrow> parse_stat_key k (x @ q) = parse_stat_key k x"
  by (simp add: parse_stat_key_def cong: if_cong conj_cong)

lemma parse_command_append:
  "k + e + d \<le> length x \<Longrightarrow> parse_command now k e d (x @ q) r = parse_command now k e d x r"
  unfolding parse_command_def Let_def
  by (intro if_cong refl) (simp_all add: binary_exptime_append parse_stat_key_append ntoh_append)

lemma parse_binary_append:
  assumes "br_length (parse_binary now p) \<noteq> 0"
  shows "parse_binary now (p @ q) = parse_binary now p"
proof -
  define k where "k = unat (ntoh (drop 2 p) :: u16)"
  define e :: nat where "e = of_char (p ! 4)"
  define t where "t = unat (ntoh (drop 8 p) :: u32)"
  have l: "24 \<le> length p" "24 + t \<le> length p"
    using assms by (auto simp: br_length_parse Let_def t_def BINARY_HEADER_SIZE_def split: if_splits)
  have hd: "ntoh (drop 8 (p @ q)) = (ntoh (drop 8 p) :: u32)"
    "ntoh (drop 2 (p @ q)) = (ntoh (drop 2 p) :: u16)"
    "ntoh (drop 16 (p @ q)) = (ntoh (drop 16 p) :: u64)"
    "(p @ q) ! 1 = p ! 1" "(p @ q) ! 4 = p ! 4" "take 4 (drop 12 (p @ q)) = take 4 (drop 12 p)"
    using l(1) by (simp_all add: ntoh_append nth_append)
  have body: "take k (drop (24 + e) (p @ q)) = take k (drop (24 + e) p)"
    "take (t - k - e) (drop (24 + e + k) (p @ q)) = take (t - k - e) (drop (24 + e + k) p)"
    "parse_command now k e (t - k - e) (drop 24 (p @ q)) r = parse_command now k e (t - k - e) (drop 24 p) r"
    if "k + e \<le> t" for r
    using l that parse_command_append [of k e "t - k - e" "drop 24 p"] by simp_all
  have ge: "\<not> length (p @ q) < 24" "\<not> length (p @ q) < 24 + t" "\<not> length p < 24" "\<not> length p < 24 + t"
    using l by simp_all
  show ?thesis
    unfolding parse_binary_def Let_def BINARY_HEADER_SIZE_def hd
      k_def [symmetric] t_def [symmetric] e_def [symmetric]
    by (simp only: ge if_False not_less body cong: if_cong)
qed

text \<open>
  C25: the parser asks for more exactly when the request is incomplete, it never claims more than
  was received, and once a request is complete, bytes that follow it change nothing.
\<close>

theorem parse_binary_prefix:
  "br_length (parse_binary now p) \<le> length p \<and>
   (br_length (parse_binary now p) = 0 \<longleftrightarrow>
      length p < BINARY_HEADER_SIZE \<or> length p < BINARY_HEADER_SIZE + unat (ntoh (drop 8 p) :: u32)) \<and>
   (br_length (parse_binary now p) = 0 \<or> parse_binary now (p @ q) = parse_binary now p)"
proof -
  have len: "br_length (parse_binary now p) \<le> length p"
    by (simp add: br_length_parse Let_def)
  have zero: "br_length (parse_binary now p) = 0 \<longleftrightarrow>
      length p < BINARY_HEADER_SIZE \<or> length p < BINARY_HEADER_SIZE + unat (ntoh (drop 8 p) :: u32)"
    by (simp add: br_length_parse Let_def BINARY_HEADER_SIZE_def)
  from len zero parse_binary_append [of now p q] show ?thesis by blast
qed

section \<open>Frames\<close>

text \<open>The layout of a request on the wire.\<close>

definition frame_header :: "nat \<Rightarrow> nat \<Rightarrow> nat \<Rightarrow> nat \<Rightarrow> string \<Rightarrow> u64 \<Rightarrow> string" where
  "frame_header c key_len extras_len total_len opaque cas =
     [CHR 0x80, char_of c] @ hton (word_of_nat key_len :: u16) @ [char_of extras_len, CHR 0x00] @
     hton (0 :: u16) @ hton (word_of_nat total_len :: u32) @ opaque @ hton cas"

definition bin_frame :: "binary_command \<Rightarrow> string \<Rightarrow> string \<Rightarrow> string \<Rightarrow> string \<Rightarrow> u64 \<Rightarrow> string" where
  "bin_frame c extras key data opaque cas =
     frame_header (byte_of_command c) (length key) (length extras)
       (length extras + length key + length data) opaque cas @ extras @ key @ data"

lemma length_frame_header: "length opaque = 4 \<Longrightarrow> length (frame_header c k e t opaque cas) = 24"
  by (simp add: frame_header_def)

lemma frame_header_fields:
  assumes "length opaque = 4"
  shows "ntoh (drop 8 (frame_header c k e t opaque cas @ s)) = (word_of_nat t :: u32)"
    "ntoh (drop 2 (frame_header c k e t opaque cas @ s)) = (word_of_nat k :: u16)"
    "ntoh (drop 16 (frame_header c k e t opaque cas @ s)) = cas"
    "(frame_header c k e t opaque cas @ s) ! 1 = char_of c"
    "(frame_header c k e t opaque cas @ s) ! 4 = char_of e"
    "take 4 (drop 12 (frame_header c k e t opaque cas @ s)) = opaque"
    "drop 24 (frame_header c k e t opaque cas @ s) = s"
  using assms by (simp_all add: frame_header_def nth_append)

text \<open>What the parser makes of a frame before it looks at the command.\<close>

definition frame_request :: "binary_command \<Rightarrow> string \<Rightarrow> string \<Rightarrow> string \<Rightarrow> string \<Rightarrow> u64 \<Rightarrow> binary_request" where
  "frame_request c extras key data opaque cas =
     binary_request_init\<lparr>br_length := 24 + (length extras + length key + length data), br_command := c,
       br_quiet := is_quiet c, br_opaque := opaque, br_key := key, br_cas_unique := cas, br_data := data\<rparr>"

lemma unat_word_of_nat_u16: "n < 65536 \<Longrightarrow> unat (word_of_nat n :: u16) = n"
  by (simp add: unat_of_nat)

lemma unat_word_of_nat_u32: "n < 4294967296 \<Longrightarrow> unat (word_of_nat n :: u32) = n"
  by (simp add: unat_of_nat)

lemma parse_bin_frame:
  assumes c: "is_enumerator c" and opaque: "length opaque = 4" and e: "length extras < 256"
    and k: "length key \<le> MAX_KEY_LENGTH" and d: "length data \<le> MAX_REQUEST_LENGTH"
  shows "parse_binary now (bin_frame c extras key data opaque cas @ rest) =
     parse_command now (length key) (length extras) (length data) (extras @ key @ data @ rest)
       (frame_request c extras key data opaque cas)"
proof -
  let ?t = "length extras + length key + length data"
  let ?p = "frame_header (byte_of_command c) (length key) (length extras) ?t opaque cas @ extras @ key @ data @ rest"
  note f = frame_header_fields [OF opaque]
  have kd: "length key \<le> 250" "length data \<le> 30 * 2 ^ 20"
    using k d by (simp_all add: MAX_KEY_LENGTH_def MAX_REQUEST_LENGTH_def)
  have u: "unat (word_of_nat (length key) :: u16) = length key" "unat (word_of_nat ?t :: u32) = ?t"
    using kd e unat_word_of_nat_u16 [of "length key"] unat_word_of_nat_u32 [of ?t] by simp_all
  have ch: "command_of_byte (of_char (char_of (byte_of_command c) :: char)) = c"
    "of_char (char_of (length extras) :: char) = length extras"
    using command_of_byte_of_command [OF c] e by simp_all
  have lp: "length ?p = 24 + ?t + length rest" using opaque by (simp add: length_frame_header)
  have dr: "drop (24 + n) ?p = drop n (extras @ key @ data @ rest)" for n
    using f(7) [of "byte_of_command c" "length key" "length extras" ?t cas "extras @ key @ data @ rest"]
    by (metis add.commute drop_drop)
  have body: "take (length key) (drop (24 + length extras) ?p) = key"
    "take (length data) (drop (24 + length extras + length key) ?p) = data"
    using dr [of "length extras"] dr [of "length extras + length key"] by (simp_all only: add.assoc) simp_all
  have ge: "\<not> 24 + ?t + length rest < 24" "\<not> 24 + ?t + length rest < 24 + ?t"
    "\<not> length key > MAX_KEY_LENGTH" "\<not> ?t < length key + length extras" "\<not> length data > MAX_REQUEST_LENGTH"
    "?t - length key - length extras = length data"
    using k d by simp_all
  show ?thesis
    unfolding bin_frame_def append_assoc parse_binary_def Let_def BINARY_HEADER_SIZE_def lp f u ch
      ge(6) body frame_request_def
    by (simp only: ge if_False)
qed



end
