(* ===== verification/Text_Request.thy ===== *)
theory Text_Request
  imports Binary_Request
begin

text \<open>
  Models the text protocol requests of \<^verbatim>\<open>src/memcache/memcache.hpp\<close> and \<^verbatim>\<open>memcache.cpp\<close>.

  The parser walks over the first line of the received bytes with two pointers \<open>b\<close> and \<open>e\<close>, where
  \<open>e\<close> is the position of the line's \<^verbatim>\<open>CR\<close>.  The model passes two strings instead: the text from
  \<open>b\<close> up to \<open>e\<close>, and the memory \<open>t\<close> from \<open>e\<close> on, which starts with \<^verbatim>\<open>CR LF\<close>.  The memory goes on beyond
  the received bytes: \<^verbatim>\<open>strtoull\<close> skips white space, line ends included, and is not told where
  the request ends.  It is also not told to forget an earlier \<^verbatim>\<open>ERANGE\<close>: \<open>stale\<close> says whether \<^verbatim>\<open>errno\<close>
  still holds one.
\<close>

section \<open>Commands\<close>

datatype (plugins only: code) text_command =
    Txt_UNKNOWN | Txt_SET | Txt_ADD | Txt_REPLACE | Txt_APPEND | Txt_PREPEND | Txt_CAS | Txt_GET |
    Txt_GETS | Txt_DELETE | Txt_INCR | Txt_DECR | Txt_TOUCH | Txt_LOCK | Txt_UNLOCK |
    Txt_UNLOCK_ALL | Txt_SLABS | Txt_STATS | Txt_FLUSH_ALL | Txt_VERSION | Txt_VERBOSITY |
    Txt_QUIT | Txt_KEYS

definition text_commands :: "text_command list" where
  "text_commands =
     [Txt_UNKNOWN, Txt_SET, Txt_ADD, Txt_REPLACE, Txt_APPEND, Txt_PREPEND, Txt_CAS, Txt_GET,
      Txt_GETS, Txt_DELETE, Txt_INCR, Txt_DECR, Txt_TOUCH, Txt_LOCK, Txt_UNLOCK,
      Txt_UNLOCK_ALL, Txt_SLABS, Txt_STATS, Txt_FLUSH_ALL, Txt_VERSION, Txt_VERBOSITY,
      Txt_QUIT, Txt_KEYS]"

definition text_index :: "text_command \<Rightarrow> nat" where
  "text_index c = length (takeWhile (\<lambda>x. x \<noteq> c) text_commands)"

text \<open>The words the parser compares with, in the order of its tests.\<close>

definition text_command_names :: "(string \<times> text_command) list" where
  "text_command_names =
     [(''unlock_all'', Txt_UNLOCK_ALL), (''flush_all'', Txt_FLUSH_ALL), (''verbosity'', Txt_VERBOSITY),
      (''version'', Txt_VERSION), (''prepend'', Txt_PREPEND), (''replace'', Txt_REPLACE),
      (''append'', Txt_APPEND), (''delete'', Txt_DELETE), (''unlock'', Txt_UNLOCK),
      (''touch'', Txt_TOUCH), (''slabs'', Txt_SLABS), (''stats'', Txt_STATS), (''gets'', Txt_GETS),
      (''incr'', Txt_INCR), (''decr'', Txt_DECR), (''lock'', Txt_LOCK), (''quit'', Txt_QUIT),
      (''keys'', Txt_KEYS), (''set'', Txt_SET), (''add'', Txt_ADD), (''get'', Txt_GET), (''cas'', Txt_CAS)]"

definition storage_cmds :: "text_command set" where
  "storage_cmds = {Txt_SET, Txt_ADD, Txt_REPLACE, Txt_APPEND, Txt_PREPEND, Txt_CAS}"

section \<open>Requests\<close>

record text_request =
  tr_length :: nat
  tr_command :: text_command
  tr_valid :: bool
  tr_no_reply :: bool
  tr_key :: string
  tr_more :: string
  tr_flags :: u32
  tr_exptime :: time_t
  tr_cas_unique :: u64
  tr_data :: string
  tr_value :: u64
  tr_verbosity :: severity
  tr_stats :: stats_t

definition text_request_init :: text_request where
  "text_request_init =
     \<lparr>tr_length = 0, tr_command = Txt_UNKNOWN, tr_valid = False, tr_no_reply = False, tr_key = [],
      tr_more = [], tr_flags = 0, tr_exptime = 0, tr_cas_unique = 0, tr_data = [], tr_value = 0,
      tr_verbosity = Sev_info, tr_stats = Stats_GENERAL\<rparr>"

definition CR :: char where "CR = CHR 0x0D"
definition LF :: char where "LF = CHR 0x0A"
definition SP :: char where "SP = CHR 0x20"

text \<open>
  \<^verbatim>\<open>while( *b == SP ) ++b\<close>, the word at \<open>b\<close> that \<^verbatim>\<open>cfind\<close> delimits, and the text from its end on.
  \<^verbatim>\<open>cfind\<close> returns no position exactly when the rest is empty.
\<close>

definition skip_sp :: "string \<Rightarrow> string" where
  "skip_sp b = dropWhile (\<lambda>c. c = SP) b"

definition word_at :: "string \<Rightarrow> string" where
  "word_at b = takeWhile (\<lambda>c. c \<noteq> SP) b"

definition after_word :: "string \<Rightarrow> string" where
  "after_word b = dropWhile (\<lambda>c. c \<noteq> SP) b"

text \<open>\<^verbatim>\<open>to_uint\<close>, with the largest value of its type; \<open>None\<close> is a \<^verbatim>\<open>false\<close> result.\<close>

definition to_uint :: "bool \<Rightarrow> nat \<Rightarrow> string \<Rightarrow> nat option" where
  "to_uint stale limit p =
     (let r = strtoull p; i = sr_value r
      in if \<not> sr_conv r then None
         else if i = ULLONG_MAX \<and> (sr_erange r \<or> stale) then None
         else
           (case sr_end r of
              [] \<Rightarrow> None
            | c # _ \<Rightarrow> if c \<noteq> CR \<and> c \<noteq> LF \<and> c \<noteq> SP then None else if i > limit then None else Some i))"

definition UINT32_MAX :: nat where "UINT32_MAX = 4294967295"
definition TIME_MAX :: nat where "TIME_MAX = 9223372036854775807"

definition text_exptime :: "time_t \<Rightarrow> nat \<Rightarrow> time_t" where
  "text_exptime now t = (if t > EXPTIME_THRESHOLD then int t else now + int t)"

text \<open>The end of most requests: an optional \<^verbatim>\<open>noreply\<close>, then nothing.  The result is validity and
  whether \<^verbatim>\<open>noreply\<close> was seen.\<close>

definition parse_noreply :: "string \<Rightarrow> bool \<times> bool" where
  "parse_noreply b =
     (let b1 = skip_sp b
      in if b1 \<noteq> [] then
           (if word_at b1 \<noteq> ''noreply'' then (False, False)
            else (skip_sp (after_word b1) = [], True))
         else (True, False))"

definition finish :: "string \<Rightarrow> text_request \<Rightarrow> text_request" where
  "finish b r = (let (ok, quiet) = parse_noreply b in r\<lparr>tr_no_reply := quiet, tr_valid := ok\<rparr>)"

definition parse_flushall :: "bool \<Rightarrow> time_t \<Rightarrow> string \<Rightarrow> string \<Rightarrow> text_request \<Rightarrow> text_request" where
  "parse_flushall stale now b t r0 =
     (let r = r0\<lparr>tr_exptime := now\<rparr>; b1 = skip_sp b
      in case b1 of
           [] \<Rightarrow> r\<lparr>tr_valid := True\<rparr>
         | c # _ \<Rightarrow>
             (if is_digit c then
                (case to_uint stale TIME_MAX (b1 @ t) of
                   None \<Rightarrow> r
                 | Some v \<Rightarrow> finish (after_word b1) (r\<lparr>tr_exptime := text_exptime now v\<rparr>))
              else finish b1 r))"

definition parse_verbosity :: "string \<Rightarrow> text_request \<Rightarrow> text_request" where
  "parse_verbosity b r =
     (let b1 = skip_sp b; w = word_at b1
      in if b1 = [] then r
         else finish (after_word b1)
           (if w = ''error'' then r\<lparr>tr_verbosity := Sev_error\<rparr>
            else if w = ''debug'' then r\<lparr>tr_verbosity := Sev_debug\<rparr>
            else if w = ''warning'' then r\<lparr>tr_verbosity := Sev_warning\<rparr>
            else if w = ''info'' then r\<lparr>tr_verbosity := Sev_info\<rparr>
            else r))"

text \<open>
  Storage commands: \<open>n\<close> is the length of the line, \<open>len\<close> the number of bytes received.  The length
  of the request is extended by the data block; zero asks for more.
\<close>

definition parse_data_block :: "nat \<Rightarrow> nat \<Rightarrow> string \<Rightarrow> nat \<Rightarrow> text_request \<Rightarrow> text_request" where
  "parse_data_block len n t nbytes r =
     (let request_len = n + 2 + nbytes + 2; d = drop 2 t
      in if len < request_len then r\<lparr>tr_length := 0\<rparr>
         else if d ! nbytes \<noteq> CR \<or> d ! (nbytes + 1) \<noteq> LF then r\<lparr>tr_length := request_len\<rparr>
         else r\<lparr>tr_length := request_len, tr_data := take nbytes d, tr_valid := True\<rparr>)"

definition parse_storage_end ::
  "nat \<Rightarrow> nat \<Rightarrow> string \<Rightarrow> string \<Rightarrow> nat \<Rightarrow> text_request \<Rightarrow> text_request" where
  "parse_storage_end len n b t nbytes r =
     (let (ok, quiet) = parse_noreply b; r1 = r\<lparr>tr_no_reply := quiet\<rparr>
      in if ok then parse_data_block len n t nbytes r1 else r1)"

definition parse_storage_bytes ::
  "bool \<Rightarrow> bool \<Rightarrow> nat \<Rightarrow> nat \<Rightarrow> string \<Rightarrow> string \<Rightarrow> text_request \<Rightarrow> text_request" where
  "parse_storage_bytes stale is_cas len n b t r =
     (let b1 = skip_sp b
      in if b1 = [] then r
         else
           (case to_uint stale UINT32_MAX (b1 @ t) of
              None \<Rightarrow> r
            | Some nbytes \<Rightarrow>
                (if \<not> is_cas then parse_storage_end len n (after_word b1) t nbytes r
                 else
                   (let b2 = skip_sp (after_word b1)
                    in if b2 = [] then r
                       else
                         (case to_uint stale ULLONG_MAX (b2 @ t) of
                            None \<Rightarrow> r
                          | Some cas \<Rightarrow>
                              parse_storage_end len n (after_word b2) t nbytes
                                (r\<lparr>tr_cas_unique := word_of_nat cas\<rparr>))))))"

definition parse_storage ::
  "bool \<Rightarrow> time_t \<Rightarrow> nat \<Rightarrow> nat \<Rightarrow> bool \<Rightarrow> string \<Rightarrow> string \<Rightarrow> text_request \<Rightarrow> text_request" where
  "parse_storage stale now len n is_cas b t r0 =
     (let b1 = skip_sp b; b2 = skip_sp (after_word b1); b3 = skip_sp (after_word b2)
      in if b1 = [] \<or> after_word b1 = [] then r0
         else
           (let r = r0\<lparr>tr_key := word_at b1\<rparr>
            in if b2 = [] \<or> after_word b2 = [] then r
               else
                 (case to_uint stale UINT32_MAX (b2 @ t) of
                    None \<Rightarrow> r
                  | Some flags \<Rightarrow>
                      (let r1 = r\<lparr>tr_flags := word_of_nat flags\<rparr>
                       in if b3 = [] \<or> after_word b3 = [] then r1
                          else
                            (case to_uint stale TIME_MAX (b3 @ t) of
                               None \<Rightarrow> r1
                             | Some v \<Rightarrow>
                                 parse_storage_bytes stale is_cas len n (after_word b3) t
                                   (if v \<noteq> 0 then r1\<lparr>tr_exptime := text_exptime now v\<rparr> else r1))))))"

definition parse_delete :: "string \<Rightarrow> text_request \<Rightarrow> text_request" where
  "parse_delete b r =
     (let b1 = skip_sp b
      in if b1 = [] then r else finish (after_word b1) (r\<lparr>tr_key := word_at b1\<rparr>))"

definition parse_touch :: "bool \<Rightarrow> time_t \<Rightarrow> string \<Rightarrow> string \<Rightarrow> text_request \<Rightarrow> text_request" where
  "parse_touch stale now b t r0 =
     (let b1 = skip_sp b; b2 = skip_sp (after_word b1)
      in if b1 = [] \<or> after_word b1 = [] then r0
         else
           (let r = r0\<lparr>tr_key := word_at b1\<rparr>
            in if b2 = [] then r
               else
                 (case to_uint stale TIME_MAX (b2 @ t) of
                    None \<Rightarrow> r
                  | Some v \<Rightarrow>
                      finish (after_word b2)
                        (if v \<noteq> 0 then r\<lparr>tr_exptime := text_exptime now v\<rparr> else r))))"

definition parse_lock :: "string \<Rightarrow> text_request \<Rightarrow> text_request" where
  "parse_lock b r =
     (let b1 = skip_sp b
      in if b1 = [] then r
         else (r\<lparr>tr_key := word_at b1\<rparr>)\<lparr>tr_valid := (skip_sp (after_word b1) = [])\<rparr>)"

definition parse_stats :: "string \<Rightarrow> text_request \<Rightarrow> text_request" where
  "parse_stats b r =
     (let b1 = skip_sp b; w = word_at b1
      in if b1 = [] then r\<lparr>tr_valid := True\<rparr>
         else if w = ''ops'' then r\<lparr>tr_stats := Stats_OPS, tr_valid := True\<rparr>
         else if w = ''items'' then r\<lparr>tr_stats := Stats_ITEMS, tr_valid := True\<rparr>
         else if w = ''sizes'' then r\<lparr>tr_stats := Stats_SIZES, tr_valid := True\<rparr>
         else if w = ''settings'' then r\<lparr>tr_stats := Stats_SETTINGS, tr_valid := True\<rparr>
         else r)"

definition parse_incdec :: "bool \<Rightarrow> string \<Rightarrow> string \<Rightarrow> text_request \<Rightarrow> text_request" where
  "parse_incdec stale b t r0 =
     (let b1 = skip_sp b; b2 = skip_sp (after_word b1)
      in if b1 = [] \<or> after_word b1 = [] then r0
         else
           (let r = r0\<lparr>tr_key := word_at b1\<rparr>
            in if b2 = [] then r
               else
                 (case to_uint stale ULLONG_MAX (b2 @ t) of
                    None \<Rightarrow> r
                  | Some v \<Rightarrow> finish (after_word b2) (r\<lparr>tr_value := word_of_nat v\<rparr>))))"

definition parse_get :: "string \<Rightarrow> string \<Rightarrow> text_request \<Rightarrow> text_request" where
  "parse_get b t r =
     (let b1 = skip_sp b
      in if b1 = [] then r
         else r\<lparr>tr_key := word_at b1, tr_more := after_word b1 @ t, tr_valid := True\<rparr>)"

definition parse_keys :: "string \<Rightarrow> text_request \<Rightarrow> text_request" where
  "parse_keys b r =
     (let b1 = skip_sp b; r1 = r\<lparr>tr_valid := True\<rparr>
      in if b1 = [] then r1 else r1\<lparr>tr_key := word_at b1\<rparr>)"

definition parse_args ::
  "bool \<Rightarrow> time_t \<Rightarrow> nat \<Rightarrow> nat \<Rightarrow> text_command \<Rightarrow> string \<Rightarrow> string \<Rightarrow> text_request \<Rightarrow> text_request" where
  "parse_args stale now len n c b t r =
     (if c \<in> storage_cmds then parse_storage stale now len n (c = Txt_CAS) b t r
      else if c = Txt_GET \<or> c = Txt_GETS then parse_get b t r
      else if c = Txt_DELETE then parse_delete b r
      else if c = Txt_INCR \<or> c = Txt_DECR then parse_incdec stale b t r
      else if c = Txt_TOUCH then parse_touch stale now b t r
      else if c = Txt_LOCK \<or> c = Txt_UNLOCK then parse_lock b r
      else if c = Txt_STATS then parse_stats b r
      else if c = Txt_FLUSH_ALL then parse_flushall stale now b t r
      else if c = Txt_VERBOSITY then parse_verbosity b r
      else if c = Txt_KEYS then parse_keys b r
      else r\<lparr>tr_valid := True\<rparr>)"

definition parse_text :: "bool \<Rightarrow> time_t \<Rightarrow> string \<Rightarrow> string \<Rightarrow> text_request" where
  "parse_text stale now p beyond =
     (if LF \<notin> set p then text_request_init
      else
        (let n = length (takeWhile (\<lambda>c. c \<noteq> LF) p);
             r = text_request_init\<lparr>tr_length := n + 1\<rparr>
         in if n = 0 then r
            else if p ! (n - 1) \<noteq> CR then r
            else
              (let b = skip_sp (take (n - 1) p); t = drop (n - 1) (p @ beyond)
               in case map_of text_command_names (word_at b) of
                    None \<Rightarrow> r
                  | Some c \<Rightarrow>
                      parse_args stale now (length p) (n - 1) c (after_word b) t (r\<lparr>tr_command := c\<rparr>))))"

text \<open>\<^verbatim>\<open>next_key\<close> goes on from the end of the previous key to the first \<^verbatim>\<open>CR\<close>.\<close>

definition next_key :: "string \<Rightarrow> (string \<times> string) option" where
  "next_key s =
     (let b = skip_sp s; l = takeWhile (\<lambda>c. c \<noteq> CR) b
      in if l = [] then None else Some (word_at l, drop (length (word_at l)) b))"

lemma next_key_shrinks:
  assumes "next_key s = Some (k, s')"
  shows "length s' < length s \<and> k \<noteq> []"
proof -
  let ?b = "skip_sp s" and ?l = "takeWhile (\<lambda>c. c \<noteq> CR) (skip_sp s)"
  have l: "?l \<noteq> []" and k: "k = word_at ?l" and s': "s' = drop (length k) ?b"
    using assms by (auto simp: next_key_def Let_def split: if_splits)
  then obtain c r where b: "?b = c # r" by (cases "skip_sp s") auto
  then have "c \<noteq> SP" using hd_dropWhile [of "\<lambda>c. c = SP" s] unfolding skip_sp_def by (metis list.distinct(1) list.sel(1))
  with b l k have "k \<noteq> []" by (auto simp: word_at_def split: if_splits)
  moreover have "length ?b \<le> length s" unfolding skip_sp_def by (rule length_dropWhile_le)
  ultimately show ?thesis using s' b by (cases k) simp_all
qed

text \<open>All keys of a retrieval request, from the end of the first one on.\<close>

function keys_from :: "string \<Rightarrow> string list" where
  "keys_from s = (case next_key s of None \<Rightarrow> [] | Some (k, s') \<Rightarrow> k # keys_from s')"
  by pat_completeness auto
termination
  by (relation "measure length") (auto dest!: next_key_shrinks)

declare keys_from.simps [simp del]

definition request_keys :: "text_request \<Rightarrow> string list" where
  "request_keys r = tr_key r # keys_from (tr_more r)"

section \<open>Facts on words and numbers\<close>

lemma skip_sp_simps [simp]:
  "skip_sp [] = []" "skip_sp (SP # s) = skip_sp s" "c \<noteq> SP \<Longrightarrow> skip_sp (c # s) = c # s"
  by (simp_all add: skip_sp_def)

lemma skip_sp_word: "w \<noteq> [] \<Longrightarrow> SP \<notin> set w \<Longrightarrow> skip_sp (w @ s) = w @ s"
  by (cases w) auto

lemma word_at_sp: "SP \<notin> set w \<Longrightarrow> word_at (w @ SP # s) = w"
  unfolding word_at_def by (rule takeWhile_append_stop) auto

lemma word_at_end: "SP \<notin> set w \<Longrightarrow> word_at w = w"
  unfolding word_at_def by (rule takeWhile_all) auto

lemma after_word_sp: "SP \<notin> set w \<Longrightarrow> after_word (w @ SP # s) = SP # s"
  unfolding after_word_def by (rule dropWhile_append_stop) auto

lemma after_word_end: "SP \<notin> set w \<Longrightarrow> after_word w = []"
  unfolding after_word_def by auto

lemmas word_simps = skip_sp_word word_at_sp word_at_end after_word_sp after_word_end

lemma skip_sp_head: "skip_sp b \<noteq> [] \<Longrightarrow> hd (skip_sp b) \<noteq> SP"
  unfolding skip_sp_def by (rule hd_dropWhile)

lemma word_at_skip_sp: "skip_sp b \<noteq> [] \<Longrightarrow> word_at (skip_sp b) \<noteq> []"
  using skip_sp_head [of b] by (cases "skip_sp b") (auto simp: word_at_def)

lemma set_skip_sp: "set (skip_sp b) \<subseteq> set b" and set_word_at: "set (word_at b) \<subseteq> set b - {SP}"
  and set_after_word: "set (after_word b) \<subseteq> set b"
  unfolding skip_sp_def word_at_def after_word_def
  by (auto dest: set_dropWhileD set_takeWhileD)

lemma digits_not_sp: "x \<in> {SP, CR, LF} \<Longrightarrow> x \<notin> set (to_decimal n)"
  using to_decimal_digits by (fastforce simp: SP_def CR_def LF_def is_digit_def)

lemma to_uint_to_decimal:
  assumes "v \<le> limit" "v < ULLONG_MAX" "c = CR \<or> c = LF \<or> c = SP"
  shows "to_uint stale limit (to_decimal v @ c # s) = Some v"
proof -
  have "strtoull (to_decimal v @ c # s) =
      \<lparr>sr_value = v, sr_end = c # s, sr_conv = True, sr_erange = False\<rparr>"
    by (rule strtoull_to_decimal) (use assms in \<open>auto simp: is_digit_def CR_def LF_def SP_def\<close>)
  with assms show ?thesis by (simp add: to_uint_def Let_def)
qed

lemma strtoull_skip_space: "is_space c \<Longrightarrow> sr_conv (strtoull s) \<Longrightarrow> strtoull (c # s) = strtoull s"
  by (simp add: strtoull_def Let_def split: if_splits)

section \<open>What a parsed request looks like\<close>

text \<open>
  The commands that act on one key, and the shape of a parsed request: it lies within the
  received bytes, and a valid one names a command, has a key when its command needs one, and a key
  holds neither spaces nor line feeds.
\<close>

definition keyed_cmds :: "text_command set" where
  "keyed_cmds = storage_cmds \<union> {Txt_GET, Txt_GETS, Txt_DELETE, Txt_INCR, Txt_DECR, Txt_TOUCH, Txt_LOCK, Txt_UNLOCK}"

definition text_request_ok :: "nat \<Rightarrow> text_request \<Rightarrow> bool" where
  "text_request_ok len r \<longleftrightarrow>
     tr_length r \<le> len \<and> SP \<notin> set (tr_key r) \<and> LF \<notin> set (tr_key r) \<and>
     length (tr_data r) \<le> tr_length r \<and>
     (tr_valid r \<longrightarrow> 0 < tr_length r \<and> (tr_command r \<in> keyed_cmds \<longrightarrow> tr_key r \<noteq> []))"

text \<open>The request before its arguments are parsed.\<close>

definition unparsed :: "nat \<Rightarrow> text_request \<Rightarrow> bool" where
  "unparsed len r \<longleftrightarrow> 0 < tr_length r \<and> tr_length r \<le> len \<and> tr_key r = [] \<and> tr_data r = [] \<and> \<not> tr_valid r"

definition good_key :: "string \<Rightarrow> bool" where
  "good_key k \<longleftrightarrow> k \<noteq> [] \<and> SP \<notin> set k \<and> LF \<notin> set k"

lemma good_key_word: "skip_sp b \<noteq> [] \<Longrightarrow> LF \<notin> set b \<Longrightarrow> good_key (word_at (skip_sp b))"
  unfolding good_key_def using word_at_skip_sp [of b] set_word_at [of "skip_sp b"] set_skip_sp [of b] by auto

lemma ok_good_key:
  "0 < tr_length r \<Longrightarrow> tr_length r \<le> len \<Longrightarrow> good_key (tr_key r) \<Longrightarrow> tr_data r = [] \<Longrightarrow> text_request_ok len r"
  by (simp add: text_request_ok_def good_key_def)

lemma ok_no_key:
  "0 < tr_length r \<Longrightarrow> tr_length r \<le> len \<Longrightarrow> tr_key r = [] \<Longrightarrow> tr_data r = [] \<Longrightarrow>
   \<not> tr_valid r \<or> tr_command r \<notin> keyed_cmds \<Longrightarrow> text_request_ok len r"
  by (auto simp: text_request_ok_def)

lemma finish_fields [simp]:
  "tr_length (finish b r) = tr_length r" "tr_key (finish b r) = tr_key r" "tr_data (finish b r) = tr_data r"
  "tr_command (finish b r) = tr_command r"
  by (simp_all add: finish_def Let_def split_beta)

lemma parse_data_block_ok:
  assumes "0 < tr_length r" "tr_length r \<le> len" "good_key (tr_key r)" "tr_data r = []" "\<not> tr_valid r"
  shows "text_request_ok len (parse_data_block len n t nbytes r)"
  using assms by (auto simp: parse_data_block_def Let_def text_request_ok_def good_key_def)

lemma parse_storage_end_ok:
  assumes "0 < tr_length r" "tr_length r \<le> len" "good_key (tr_key r)" "tr_data r = []" "\<not> tr_valid r"
  shows "text_request_ok len (parse_storage_end len n b t nbytes r)"
  using assms parse_data_block_ok [of "r\<lparr>tr_no_reply := snd (parse_noreply b)\<rparr>" len n t nbytes]
  by (simp add: parse_storage_end_def Let_def split_beta ok_good_key)

lemma parse_storage_bytes_ok:
  assumes "0 < tr_length r" "tr_length r \<le> len" "good_key (tr_key r)" "tr_data r = []" "\<not> tr_valid r"
  shows "text_request_ok len (parse_storage_bytes stale is_cas len n b t r)"
  using assms
  by (simp add: parse_storage_bytes_def Let_def ok_good_key parse_storage_end_ok split: option.split)

lemma parse_storage_ok:
  assumes "unparsed len r" "LF \<notin> set b"
  shows "text_request_ok len (parse_storage stale now len n is_cas b t r)"
  using assms good_key_word [of b]
  by (simp add: parse_storage_def Let_def unparsed_def ok_good_key ok_no_key parse_storage_bytes_ok
      split: option.split)

lemma parse_delete_ok: "unparsed len r \<Longrightarrow> LF \<notin> set b \<Longrightarrow> text_request_ok len (parse_delete b r)"
  and parse_lock_ok: "unparsed len r \<Longrightarrow> LF \<notin> set b \<Longrightarrow> text_request_ok len (parse_lock b r)"
  and parse_get_ok: "unparsed len r \<Longrightarrow> LF \<notin> set b \<Longrightarrow> text_request_ok len (parse_get b t r)"
  using good_key_word [of b]
  by (simp_all add: parse_delete_def parse_lock_def parse_get_def Let_def unparsed_def ok_good_key ok_no_key)

lemma parse_touch_ok: "unparsed len r \<Longrightarrow> LF \<notin> set b \<Longrightarrow> text_request_ok len (parse_touch stale now b t r)"
  and parse_incdec_ok: "unparsed len r \<Longrightarrow> LF \<notin> set b \<Longrightarrow> text_request_ok len (parse_incdec stale b t r)"
  using good_key_word [of b]
  by (simp_all add: parse_touch_def parse_incdec_def Let_def unparsed_def ok_good_key ok_no_key split: option.split)

lemma parse_keyless_ok:
  assumes "unparsed len r" "tr_command r \<notin> keyed_cmds"
  shows "text_request_ok len (parse_stats b r)" "text_request_ok len (parse_verbosity b r)"
    "text_request_ok len (parse_flushall stale now b t r)" "text_request_ok len (r\<lparr>tr_valid := True\<rparr>)"
  using assms
  by (simp_all add: parse_stats_def parse_verbosity_def parse_flushall_def Let_def unparsed_def ok_no_key
      split: option.split list.split)

lemma parse_keys_ok:
  assumes "unparsed len r" "LF \<notin> set b" "tr_command r \<notin> keyed_cmds"
  shows "text_request_ok len (parse_keys b r)"
  using assms good_key_word [of b]
  by (simp add: parse_keys_def Let_def unparsed_def ok_no_key ok_good_key)

lemma parse_args_ok:
  assumes "unparsed len r" "LF \<notin> set b" "tr_command r = c"
  shows "text_request_ok len (parse_args stale now len n c b t r)"
  using assms parse_keyless_ok [of len r] parse_keys_ok [of len r b]
  unfolding parse_args_def
  by (auto simp: parse_storage_ok parse_get_ok parse_delete_ok parse_incdec_ok parse_touch_ok parse_lock_ok
      keyed_cmds_def)

lemma line_no_LF: "LF \<notin> set (takeWhile (\<lambda>c. c \<noteq> LF) p)"
  by (auto dest: set_takeWhileD)

lemma take_line_no_LF: "LF \<notin> set (take (length (takeWhile (\<lambda>c. c \<noteq> LF) p) - 1) p)"
proof
  assume "LF \<in> set (take (length (takeWhile (\<lambda>c. c \<noteq> LF) p) - 1) p)"
  then obtain i where "i < length (takeWhile (\<lambda>c. c \<noteq> LF) p) - 1" "p ! i = LF"
    by (auto simp: in_set_conv_nth)
  then have "i < length (takeWhile (\<lambda>c. c \<noteq> LF) p)" "p ! i = LF" by simp_all
  then show False using line_no_LF [of p] takeWhile_nth [of i "\<lambda>c. c \<noteq> LF" p] nth_mem by metis
qed

lemma line_length_less: "LF \<in> set p \<Longrightarrow> length (takeWhile (\<lambda>c. c \<noteq> LF) p) < length p"
  by (induction p) auto

lemma parse_text_sound: "text_request_ok (length p) (parse_text stale now p beyond)"
proof (cases "LF \<in> set p")
  case False
  then show ?thesis by (simp add: parse_text_def text_request_init_def text_request_ok_def)
next
  case True
  let ?n = "length (takeWhile (\<lambda>c. c \<noteq> LF) p)"
  have n: "?n < length p" using True line_length_less by simp
  let ?r = "text_request_init\<lparr>tr_length := ?n + 1\<rparr>"
  have r: "unparsed (length p) (?r\<lparr>tr_command := c\<rparr>)" for c
    using n by (simp add: unparsed_def text_request_init_def)
  have r0: "text_request_ok (length p) ?r" using n by (simp add: text_request_ok_def text_request_init_def)
  have b: "LF \<notin> set (after_word (skip_sp (take (?n - 1) p)))"
    using take_line_no_LF [of p] set_after_word set_skip_sp by blast
  show ?thesis
  proof (cases "map_of text_command_names (word_at (skip_sp (take (?n - 1) p)))")
    case None
    with True show ?thesis using r0 by (simp only: parse_text_def Let_def option.case if_cancel if_split simp_thms)
  next
    case (Some c)
    with True show ?thesis
      using r0 parse_args_ok [OF r b, where c = c]
      by (simp only: parse_text_def Let_def option.case if_split simp_thms) simp
  qed
qed


section \<open>Printed requests\<close>

text \<open>A storage request as a client writes it.\<close>

definition storage_line :: "string \<Rightarrow> string \<Rightarrow> u32 \<Rightarrow> nat \<Rightarrow> nat \<Rightarrow> bool \<Rightarrow> string" where
  "storage_line name key flags exptime nbytes quiet =
     name @ SP # key @ SP # to_decimal (unat flags) @ SP # to_decimal exptime @ SP # to_decimal nbytes @
     (if quiet then SP # ''noreply'' else [])"

definition storage_text :: "string \<Rightarrow> string \<Rightarrow> u32 \<Rightarrow> nat \<Rightarrow> string \<Rightarrow> bool \<Rightarrow> string" where
  "storage_text name key flags exptime data quiet =
     storage_line name key flags exptime (length data) quiet @ [CR, LF] @ data @ [CR, LF]"

lemma CR_not_LF: "CR \<noteq> LF" and LF_not_SP: "LF \<noteq> SP" and CR_not_SP: "CR \<noteq> SP"
  by (simp_all add: CR_def LF_def SP_def)

lemma text_names_no_blank: "\<forall>(w, c) \<in> set text_command_names. w \<noteq> [] \<and> SP \<notin> set w \<and> LF \<notin> set w"
  by (simp add: text_command_names_def SP_def LF_def)

lemma distinct_text_names: "distinct (map fst text_command_names)"
  by (simp add: text_command_names_def)

lemma parse_text_line:
  assumes l: "LF \<notin> set l" and p: "p = l @ CR # LF # q"
    and w: "(name, c) \<in> set text_command_names" "l = name \<or> (\<exists>a. l = name @ SP # a)"
  shows "parse_text stale now p beyond =
    parse_args stale now (length p) (length l) c (drop (length name) l) (CR # LF # q @ beyond)
      (text_request_init\<lparr>tr_length := length l + 2, tr_command := c\<rparr>)"
proof -
  have "takeWhile (\<lambda>x. x \<noteq> LF) ((l @ [CR]) @ LF # q) = l @ [CR]"
    by (rule takeWhile_append_stop) (use l CR_not_LF in auto)
  then have tw: "takeWhile (\<lambda>x. x \<noteq> LF) p = l @ [CR]" by (simp add: p)
  have nm: "name \<noteq> []" "SP \<notin> set name" using w(1) text_names_no_blank by auto
  have sk: "skip_sp l = l" using w(2) skip_sp_word [OF nm] skip_sp_word [OF nm, of "[]"] by auto
  have wd: "word_at l = name" "after_word l = drop (length name) l"
    using w(2) nm by (auto simp: word_simps)
  have mo: "map_of text_command_names name = Some c"
    using w(1) distinct_text_names by (metis map_of_eq_Some_iff)
  have "LF \<in> set p" "p ! length l = CR" "take (length l) p = l" "drop (length l) (p @ beyond) = CR # LF # q @ beyond"
    unfolding p by simp_all
  then show ?thesis unfolding parse_text_def Let_def tw by (simp add: sk wd mo)
qed

lemma parse_noreply_print:
  "parse_noreply (if quiet then SP # ''noreply'' else []) = (True, quiet)"
proof -
  have "SP \<notin> set ''noreply''" by (simp add: SP_def)
  from word_at_end [OF this] after_word_end [OF this] skip_sp_word [OF _ this, of "[]"] show ?thesis
    by (simp add: parse_noreply_def Let_def)
qed



text \<open>The keys of a retrieval request, each preceded by a space.\<close>

definition key_list :: "string list \<Rightarrow> string" where
  "key_list ks = concat (map (\<lambda>k. SP # k) ks)"

lemma keys_from_print:
  "(\<And>k. k \<in> set ks \<Longrightarrow> k \<noteq> [] \<and> SP \<notin> set k \<and> CR \<notin> set k) \<Longrightarrow>
   keys_from (key_list ks @ CR # s) = ks"
proof (induction ks)
  case Nil
  have "next_key (CR # s) = None" using CR_not_SP by (simp add: next_key_def Let_def)
  then show ?case by (subst keys_from.simps) (simp add: key_list_def)
next
  case (Cons k ks)
  have k: "k \<noteq> []" "SP \<notin> set k" "CR \<notin> set k" using Cons.prems by auto
  have kl: "key_list (k # ks) = SP # k @ key_list ks" by (simp add: key_list_def)
  have tw: "takeWhile (\<lambda>c. c \<noteq> CR) (k @ key_list ks @ CR # s) = k @ takeWhile (\<lambda>c. c \<noteq> CR) (key_list ks @ CR # s)"
    using k(3) by (simp add: takeWhile_append)
  have "word_at (k @ takeWhile (\<lambda>c. c \<noteq> CR) (key_list ks @ CR # s)) = k"
    using k(2) CR_not_SP by (cases ks) (simp_all add: key_list_def word_simps)
  then have "next_key (SP # k @ key_list ks @ CR # s) = Some (k, key_list ks @ CR # s)"
    using k by (simp add: next_key_def Let_def skip_sp_word tw)
  then show ?case
    unfolding kl using Cons by (subst keys_from.simps) simp
qed

text \<open>
  A retrieval request for any number of keys is parsed to a valid request, and the loop over
  its keys visits exactly these keys in order.
\<close>

theorem parse_get_text:
  assumes "(name, c) \<in> set text_command_names" "c = Txt_GET \<or> c = Txt_GETS" "ks \<noteq> []"
    and ks: "list_all (\<lambda>k. good_key k \<and> CR \<notin> set k) ks"
  shows "tr_valid (parse_text stale now (name @ key_list ks @ [CR, LF] @ rest) beyond) \<and>
    tr_command (parse_text stale now (name @ key_list ks @ [CR, LF] @ rest) beyond) = c \<and>
    request_keys (parse_text stale now (name @ key_list ks @ [CR, LF] @ rest) beyond) = ks"
proof -
  obtain k ks' where Cons: "ks = k # ks'" using assms(3) by (cases ks) auto
  have k: "k \<noteq> []" "SP \<notin> set k" using ks by (simp_all add: Cons good_key_def)
  have all: "\<And>j. j \<in> set ks' \<Longrightarrow> j \<noteq> [] \<and> SP \<notin> set j \<and> CR \<notin> set j"
    using ks by (auto simp: Cons list_all_iff good_key_def)
  let ?l = "name @ key_list ks"
  have kl: "key_list ks = SP # k @ key_list ks'" by (simp add: key_list_def Cons)
  have l: "LF \<notin> set ?l"
    using assms(1) text_names_no_blank ks LF_not_SP by (auto simp: key_list_def list_all_iff good_key_def)
  have "?l = name \<or> (\<exists>a. ?l = name @ SP # a)" by (simp add: kl)
  note line = parse_text_line [OF l refl assms(1) this, of stale now rest beyond]
  have w: "word_at (k @ key_list ks') = k" "after_word (k @ key_list ks') = key_list ks'"
    using k by (cases ks'; simp add: key_list_def word_simps)+
  have "c \<notin> storage_cmds" using assms(2) by (auto simp: storage_cmds_def)
  then have "parse_text stale now (name @ key_list ks @ [CR, LF] @ rest) beyond =
    text_request_init\<lparr>tr_length := length ?l + 2, tr_command := c, tr_key := k,
      tr_more := key_list ks' @ CR # LF # rest @ beyond, tr_valid := True\<rparr>"
    using line assms(2) k by (simp add: parse_args_def kl parse_get_def Let_def skip_sp_word w)
  then show ?thesis using keys_from_print [of ks', OF all] by (simp add: request_keys_def Cons)
qed

theorem parse_get_text_witness:
  "request_keys (parse_text False 0 (''gets'' @ key_list [''a'', ''bc''] @ [CR, LF] @ []) []) = [''a'', ''bc'']"
  using parse_get_text [of "''gets''" Txt_GETS "[''a'', ''bc'']" False 0 "[]" "[]"]
  by (simp add: text_command_names_def good_key_def SP_def LF_def CR_def)

text \<open>
  A number missing at the end of a line is taken from the next line.  The request below has a
  tab where the amount should be; the amount it is parsed to is the first number of the bytes
  that follow the request.
\<close>

theorem incr_reads_next_line:
  assumes "v < ULLONG_MAX"
  shows "parse_text stale now (''incr k '' @ [CHR 0x09, CR, LF] @ to_decimal v @ [CR, LF] @ rest) beyond =
    text_request_init\<lparr>tr_length := 10, tr_command := Txt_INCR, tr_valid := True, tr_key := ''k'',
      tr_value := word_of_nat v\<rparr>"
proof -
  let ?q = "to_decimal v @ [CR, LF] @ rest"
  let ?l = "''incr k '' @ [CHR 0x09]"
  have l: "LF \<notin> set ?l" by (simp add: LF_def)
  have "(''incr'', Txt_INCR) \<in> set text_command_names" "?l = ''incr'' \<or> (\<exists>a. ?l = ''incr'' @ SP # a)"
    by (simp_all add: text_command_names_def SP_def)
  note line = parse_text_line [OF l refl this, of stale now ?q beyond]
  have v: "strtoull (to_decimal v @ CR # s) = \<lparr>sr_value = v, sr_end = CR # s, sr_conv = True, sr_erange = False\<rparr>" for s
    using assms by (intro strtoull_to_decimal) (simp_all add: is_digit_def CR_def)
  have "is_space CR" "is_space LF" "is_space (CHR 0x09)" by (simp_all add: is_space_def CR_def LF_def)
  then have num: "to_uint stale ULLONG_MAX (CHR 0x09 # CR # LF # to_decimal v @ CR # s) = Some v" for s
    using assms by (simp add: to_uint_def strtoull_skip_space v Let_def)
  have "skip_sp ('' k '' @ [CHR 0x09]) = ''k '' @ [CHR 0x09]" "word_at (''k '' @ [CHR 0x09]) = ''k''"
    "after_word (''k '' @ [CHR 0x09]) = SP # [CHR 0x09]" "skip_sp [CHR 0x09] = [CHR 0x09]" "after_word [CHR 0x09] = []"
    by (simp_all add: skip_sp_def word_at_def after_word_def SP_def)
  then show ?thesis
    using line num
    by (simp add: parse_args_def storage_cmds_def parse_incdec_def Let_def finish_def parse_noreply_def
        text_request_init_def)
qed

theorem incr_reads_next_line_witness:
  "tr_value (parse_text False 0 (''incr k '' @ [CHR 0x09, CR, LF] @ to_decimal 7 @ [CR, LF] @ []) []) = 7"
  using incr_reads_next_line [of 7 False 0 "[]" "[]"] by (simp add: ULLONG_MAX_def)

end
