(* ===== verification/Response.thy ===== *)
theory Response
  imports Object Text_Request
begin

text \<open>
  Models the response senders of \<^verbatim>\<open>src/memcache/memcache.hpp\<close> and \<^verbatim>\<open>memcache.cpp\<close>.

  A response is the sequence of calls it makes on sockets: \<open>Send\<close> for \<^verbatim>\<open>send\<close> and for \<^verbatim>\<open>sendv\<close>, whose
  pieces are joined, with the flush flag; \<open>Send_close\<close> for \<^verbatim>\<open>send_close\<close>; \<open>Shut\<close> for
  \<^verbatim>\<open>invalidate_and_close\<close>; and \<open>Send_slave\<close> for a \<^verbatim>\<open>sendv\<close> on the socket of a slave.  The text and the
  binary protocol report the same statistics, which are tables of names and values here.
\<close>

datatype event =
    Send string bool
  | Send_close string
  | Shut
  | Send_slave nat string bool

section \<open>Statistics reports\<close>

text \<open>What the operating system tells: the process id and \<^verbatim>\<open>getrusage\<close>, which may fail.\<close>

record host =
  h_pid :: nat
  h_rusage :: "((nat \<times> nat) \<times> (nat \<times> nat)) option"

definition int_decimal :: "int \<Rightarrow> string" where
  "int_decimal i = (if i < 0 then CHR ''-'' # to_decimal (nat (- i)) else to_decimal (nat i))"

definition on_off :: "bool \<Rightarrow> string" where
  "on_off b = (if b then ''on'' else ''off'')"

definition w32 :: "u32 \<Rightarrow> string" where "w32 w = to_decimal (unat w)"
definition w64 :: "u64 \<Rightarrow> string" where "w64 w = to_decimal (unat w)"

text \<open>Seconds, a point, and the microseconds in six digits.\<close>

definition cpu_time :: "nat \<times> nat \<Rightarrow> string" where
  "cpu_time tv =
     (let u = to_decimal (snd tv)
      in to_decimal (fst tv) @ ''.'' @ replicate (6 - length u) (CHR ''0'') @ u)"

definition settings_table :: "cfg \<Rightarrow> (string \<times> string) list" where
  "settings_table g =
     [(''maxbytes'', to_decimal (memory_limit g)),
      (''tcpport'', to_decimal (port g)),
      (''replport'', to_decimal (repl_port g)),
      (''virtual_ip'', vip g),
      (''evictions'', ''on''),
      (''cas_enabled'', ''on''),
      (''locking'', ''on''),
      (''secure_erase'', on_off (secure_erase g)),
      (''lock_memory'', on_off (lock_memory g)),
      (''tmp_dir'', tempdir g),
      (''buckets'', to_decimal (buckets g)),
      (''item_size_max'', to_decimal (max_data_size g)),
      (''num_threads'', to_decimal (workers g)),
      (''gc_interval'', to_decimal (gc_interval g))]"

definition items_table :: "statistics \<Rightarrow> (string \<times> string) list" where
  "items_table st =
     [(''items:1:number'', w32 (objects st)),
      (''items:1:age'', w32 (oldest_age st)),
      (''items:1:evicted'', w64 (total_evictions st)),
      (''items:1:conflicts'', w32 (conflicts st)),
      (''items:1:largest'', to_decimal (largest_object_size st))]"

definition sizes_table :: "statistics \<Rightarrow> (string \<times> string) list" where
  "sizes_table st =
     [(''1024'', w32 (objects_under_1k st)),
      (''4096'', w32 (objects_under_4k st)),
      (''16384'', w32 (objects_under_16k st)),
      (''65536'', w32 (objects_under_64k st)),
      (''262144'', w32 (objects_under_256k st)),
      (''1048576'', w32 (objects_under_1m st)),
      (''4194304'', w32 (objects_under_4m st)),
      (''huge'', w32 (objects_huge st))]"

definition text_op_names :: "(string \<times> text_command) list" where
  "text_op_names =
     [(''set'', Txt_SET), (''add'', Txt_ADD), (''replace'', Txt_REPLACE), (''append'', Txt_APPEND),
      (''prepend'', Txt_PREPEND), (''cas'', Txt_CAS), (''get'', Txt_GET), (''gets'', Txt_GETS),
      (''delete'', Txt_DELETE), (''incr'', Txt_INCR), (''decr'', Txt_DECR), (''touch'', Txt_TOUCH),
      (''lock'', Txt_LOCK), (''unlock'', Txt_UNLOCK), (''unlock_all'', Txt_UNLOCK_ALL),
      (''slabs'', Txt_SLABS), (''stats'', Txt_STATS), (''flush_all'', Txt_FLUSH_ALL),
      (''version'', Txt_VERSION), (''verbosity'', Txt_VERBOSITY), (''quit'', Txt_QUIT), (''keys'', Txt_KEYS)]"

definition binary_op_names :: "(string \<times> binary_command) list" where
  "binary_op_names =
     [(''Get'', Bin_Get), (''Set'', Bin_Set), (''Add'', Bin_Add), (''Replace'', Bin_Replace),
      (''Delete'', Bin_Delete), (''Increment'', Bin_Increment), (''Decrement'', Bin_Decrement),
      (''Quit'', Bin_Quit), (''Flush'', Bin_Flush), (''GetQ'', Bin_GetQ), (''Noop'', Bin_Noop),
      (''Version'', Bin_Version), (''GetK'', Bin_GetK), (''GetKQ'', Bin_GetKQ), (''Append'', Bin_Append),
      (''Prepend'', Bin_Prepend), (''Stat'', Bin_Stat), (''SetQ'', Bin_SetQ), (''AddQ'', Bin_AddQ),
      (''ReplaceQ'', Bin_ReplaceQ), (''DeleteQ'', Bin_DeleteQ), (''IncrementQ'', Bin_IncrementQ),
      (''DecrementQ'', Bin_DecrementQ), (''QuitQ'', Bin_QuitQ), (''FlushQ'', Bin_FlushQ),
      (''AppendQ'', Bin_AppendQ), (''PrependQ'', Bin_PrependQ), (''Touch'', Bin_Touch), (''GaT'', Bin_GaT),
      (''GaTQ'', Bin_GaTQ), (''GaTK'', Bin_GaTK), (''GaTKQ'', Bin_GaTKQ), (''Lock'', Bin_Lock),
      (''LockQ'', Bin_LockQ), (''Unlock'', Bin_Unlock), (''UnlockQ'', Bin_UnlockQ),
      (''UnlockAll'', Bin_UnlockAll), (''UnlockAllQ'', Bin_UnlockAllQ), (''LaG'', Bin_LaG),
      (''LaGQ'', Bin_LaGQ), (''LaGK'', Bin_LaGK), (''LaGKQ'', Bin_LaGKQ), (''RaU'', Bin_RaU),
      (''RaUQ'', Bin_RaUQ), (''Keys'', Bin_Keys)]"

definition ops_table :: "statistics \<Rightarrow> (string \<times> string) list" where
  "ops_table st =
     map (\<lambda>(n, c). (''text:'' @ n, w64 (text_ops st (text_index c)))) text_op_names @
     map (\<lambda>(n, c). (''binary:'' @ n, w64 (bin_ops st (byte_of_command c)))) binary_op_names"

definition general_table ::
  "cfg \<Rightarrow> time_t \<Rightarrow> statistics \<Rightarrow> host \<Rightarrow> nat \<Rightarrow> exn + (string \<times> string) list" where
  "general_table g now st h n_slaves =
     (case h_rusage h of
        None \<Rightarrow> Inl (Runtime_error ''getrusage'')
      | Some (utime, stime) \<Rightarrow> Inr
          [(''pid'', to_decimal (h_pid h)),
           (''time'', int_decimal now),
           (''version'', VERSION),
           (''pointer_size'', to_decimal 64),
           (''rusage_user'', cpu_time utime),
           (''rusage_system'', cpu_time stime),
           (''curr_connections'', w64 (curr_connections st)),
           (''total_connections'', w64 (total_connections st)),
           (''curr_items'', w32 (objects st)),
           (''total_items'', w64 (total_objects st)),
           (''get_hits'', w64 (get_hits st)),
           (''get_misses'', w64 (get_misses st)),
           (''cas_hits'', w64 (cas_hits st)),
           (''cas_misses'', w64 (cas_misses st)),
           (''cas_badval'', w64 (cas_badval st)),
           (''bytes'', to_decimal (used_memory st)),
           (''limit_maxbytes'', to_decimal (memory_limit g)),
           (''threads'', to_decimal (workers g)),
           (''gc_count'', w32 (gc_count st)),
           (''slaves'', to_decimal n_slaves),
           (''last_expirations'', w32 (last_expirations st)),
           (''last_evictions'', w32 (last_evictions st)),
           (''evictions'', w64 (total_evictions st)),
           (''last_gc_elapsed'', w64 (last_gc_elapsed st)),
           (''total_gc_elapsed'', w64 (total_gc_elapsed st))])"

section \<open>Text responses\<close>

definition CRLF :: string where "CRLF = [CR, LF]"

definition TEXT_ERROR :: string where "TEXT_ERROR = ''ERROR'' @ CRLF"
definition TEXT_OK :: string where "TEXT_OK = ''OK'' @ CRLF"
definition TEXT_STORED :: string where "TEXT_STORED = ''STORED'' @ CRLF"
definition TEXT_NOT_STORED :: string where "TEXT_NOT_STORED = ''NOT_STORED'' @ CRLF"
definition TEXT_EXISTS :: string where "TEXT_EXISTS = ''EXISTS'' @ CRLF"
definition TEXT_NOT_FOUND :: string where "TEXT_NOT_FOUND = ''NOT_FOUND'' @ CRLF"
definition TEXT_TOUCHED :: string where "TEXT_TOUCHED = ''TOUCHED'' @ CRLF"
definition TEXT_DELETED :: string where "TEXT_DELETED = ''DELETED'' @ CRLF"
definition TEXT_END :: string where "TEXT_END = ''END'' @ CRLF"
definition TEXT_LOCKED :: string where "TEXT_LOCKED = ''LOCKED'' @ CRLF"
definition TEXT_VERSION :: string where "TEXT_VERSION = ''VERSION ''"

text \<open>The constant responses are sent with the flush flag.\<close>

definition text_const :: "string \<Rightarrow> event list" where
  "text_const s = [Send s True]"

definition check_key :: "string \<Rightarrow> 'a \<Rightarrow> exn + 'a" where
  "check_key key x = (if length key > MAX_KEY_LENGTH then Inl (Logic_error ''MAX_KEY_LENGTH over bug'') else Inr x)"

definition text_value :: "string \<Rightarrow> u32 \<Rightarrow> string \<Rightarrow> exn + event list" where
  "text_value key flags data =
     check_key key
       [Send (''VALUE '' @ key @ '' '' @ w32 flags @ '' '' @ to_decimal (length data) @ CRLF @ data @ CRLF) False]"

definition text_value_cas :: "string \<Rightarrow> u32 \<Rightarrow> string \<Rightarrow> u64 \<Rightarrow> exn + event list" where
  "text_value_cas key flags data cas =
     check_key key
       [Send (''VALUE '' @ key @ '' '' @ w32 flags @ '' '' @ to_decimal (length data) @ '' '' @ w64 cas @ CRLF @
              data @ CRLF) False]"

definition text_value_key :: "string \<Rightarrow> exn + event list" where
  "text_value_key key = check_key key [Send (''VALUE '' @ key @ CRLF) False]"

definition stat_lines :: "(string \<times> string) list \<Rightarrow> string" where
  "stat_lines tab = concat (map (\<lambda>(n, v). ''STAT '' @ n @ '' '' @ v @ CRLF) tab)"

definition text_stats_settings :: "cfg \<Rightarrow> event list" where
  "text_stats_settings g = [Send (stat_lines (settings_table g)) False]"

definition text_stats_items :: "statistics \<Rightarrow> event list" where
  "text_stats_items st = [Send (stat_lines (items_table st)) False]"

definition text_stats_sizes :: "statistics \<Rightarrow> event list" where
  "text_stats_sizes st = [Send (stat_lines (sizes_table st)) False]"

definition text_stats_ops :: "statistics \<Rightarrow> event list" where
  "text_stats_ops st = [Send (stat_lines (ops_table st)) False]"

definition text_stats_general :: "cfg \<Rightarrow> time_t \<Rightarrow> statistics \<Rightarrow> host \<Rightarrow> nat \<Rightarrow> exn + event list" where
  "text_stats_general g now st h n_slaves =
     bind_res (general_table g now st h n_slaves) (\<lambda>tab. Inr [Send (stat_lines tab) False])"

definition text_version :: "event list" where
  "text_version = [Send (TEXT_VERSION @ VERSION @ CRLF) True]"

section \<open>Binary responses\<close>

primrec status_value :: "binary_status \<Rightarrow> u16" where
  "status_value St_OK = 0x0000"
| "status_value St_NotFound = 0x0001"
| "status_value St_Exists = 0x0002"
| "status_value St_TooLargeValue = 0x0003"
| "status_value St_Invalid = 0x0004"
| "status_value St_NotStored = 0x0005"
| "status_value St_NonNumeric = 0x0006"
| "status_value St_Locked = 0x0010"
| "status_value St_NotLocked = 0x0011"
| "status_value St_UnknownCommand = 0x0081"
| "status_value St_OutOfMemory = 0x0082"

text \<open>The lengths are converted to the types of the parameters, and the total is a 32-bit sum.\<close>

definition fill_header :: "binary_request \<Rightarrow> u16 \<Rightarrow> u8 \<Rightarrow> u32 \<Rightarrow> u64 \<Rightarrow> binary_status \<Rightarrow> string" where
  "fill_header r key_len extras_len data_len cas status =
     [CHR 0x81, char_of (byte_of_command (br_command r))] @ hton key_len @
     [char_of (unat extras_len), CHR 0x00] @ hton (status_value status) @
     hton (ucast key_len + ucast extras_len + data_len :: u32) @ br_opaque r @ hton cas"

primrec status_message :: "binary_status \<Rightarrow> string option" where
  "status_message St_OK = None"
| "status_message St_NotFound = Some ''Not found''"
| "status_message St_Exists = Some ''Exists''"
| "status_message St_TooLargeValue = Some ''Too large value''"
| "status_message St_Invalid = Some ''Invalid request''"
| "status_message St_NotStored = Some ''Not stored''"
| "status_message St_NonNumeric = Some ''Non-numeric value''"
| "status_message St_Locked = Some ''Locked''"
| "status_message St_NotLocked = Some ''Not locked''"
| "status_message St_UnknownCommand = Some ''Unknown command''"
| "status_message St_OutOfMemory = Some ''Out of memory''"

definition send_error :: "binary_request \<Rightarrow> binary_status \<Rightarrow> string \<Rightarrow> exn + event list" where
  "send_error r status msg =
     (if length msg > 100
      then Inl (Logic_error ''<memcache::binary_response::send_error> Too long message'')
      else Inr [Send (fill_header r 0 0 (word_of_nat (length msg)) 0 status @ msg) True])"

definition binary_error :: "binary_request \<Rightarrow> binary_status \<Rightarrow> exn + event list" where
  "binary_error r status =
     (case status_message status of
        None \<Rightarrow> Inl (Logic_error ''<memcache::binary_response::error> bug'')
      | Some msg \<Rightarrow> send_error r status msg)"

definition binary_success :: "binary_request \<Rightarrow> event list" where
  "binary_success r = [Send (fill_header r 0 0 0 0 St_OK) True]"

definition binary_get :: "binary_request \<Rightarrow> u32 \<Rightarrow> string \<Rightarrow> u64 \<Rightarrow> bool \<Rightarrow> string option \<Rightarrow> event list" where
  "binary_get r flags data cas flush key =
     (case key of
        None \<Rightarrow> [Send (fill_header r 0 4 (word_of_nat (length data)) cas St_OK @ hton flags @ data) flush]
      | Some k \<Rightarrow> [Send (fill_header r (word_of_nat (length k)) 4 (word_of_nat (length data)) cas St_OK @ hton flags @ k @ data) flush])"

definition binary_key :: "binary_request \<Rightarrow> string \<Rightarrow> event list" where
  "binary_key r key = [Send (fill_header r (word_of_nat (length key)) 0 0 0 St_OK @ key) False]"

definition binary_set :: "binary_request \<Rightarrow> u64 \<Rightarrow> event list" where
  "binary_set r cas = [Send (fill_header r 0 0 0 cas St_OK) True]"

definition binary_incdec :: "binary_request \<Rightarrow> u64 \<Rightarrow> u64 \<Rightarrow> event list" where
  "binary_incdec r value cas = [Send (fill_header r 0 0 8 cas St_OK @ hton value) True]"

definition binary_quit :: "binary_request \<Rightarrow> event list" where
  "binary_quit r = [Send_close (fill_header r 0 0 0 0 St_OK)]"

definition send_stat :: "binary_request \<Rightarrow> string \<times> string \<Rightarrow> event" where
  "send_stat r kv =
     Send (fill_header r (word_of_nat (length (fst kv))) 0 (word_of_nat (length (snd kv))) 0 St_OK @ fst kv @ snd kv) False"

definition binary_stats_settings :: "binary_request \<Rightarrow> cfg \<Rightarrow> event list" where
  "binary_stats_settings r g = map (send_stat r) (settings_table g) @ binary_success r"

definition binary_stats_items :: "binary_request \<Rightarrow> statistics \<Rightarrow> event list" where
  "binary_stats_items r st = map (send_stat r) (items_table st) @ binary_success r"

definition binary_stats_sizes :: "binary_request \<Rightarrow> statistics \<Rightarrow> event list" where
  "binary_stats_sizes r st = map (send_stat r) (sizes_table st) @ binary_success r"

definition binary_stats_ops :: "binary_request \<Rightarrow> statistics \<Rightarrow> event list" where
  "binary_stats_ops r st = map (send_stat r) (ops_table st) @ binary_success r"

definition binary_stats_general ::
  "binary_request \<Rightarrow> cfg \<Rightarrow> time_t \<Rightarrow> statistics \<Rightarrow> host \<Rightarrow> nat \<Rightarrow> exn + event list" where
  "binary_stats_general r g now st h n_slaves =
     bind_res (general_table g now st h n_slaves)
       (\<lambda>tab. Inr (map (send_stat r) tab @ binary_success r))"

definition binary_version :: "binary_request \<Rightarrow> event list" where
  "binary_version r = [Send (fill_header r 0 0 (word_of_nat (length VERSION)) 0 St_OK @ VERSION) True]"

end
