(* ===== verification/Tcp_Socket.thy ===== *)
theory Tcp_Socket
  imports Prelude "HOL-Library.Sublist"
begin

text \<open>
  Models the connected sockets of \<^verbatim>\<open>cybozu/tcp.hpp\<close> and \<^verbatim>\<open>cybozu/tcp.cpp\<close>.  A socket is non-blocking:
  what the kernel does not take at once is kept in buffers of one megabyte, or in a temporary
  buffer when there is not enough room, and is written when the socket gets writable.

  The answers of the kernel to \<^verbatim>\<open>recv\<close>, \<^verbatim>\<open>send\<close> and \<^verbatim>\<open>writev\<close> are arguments: a list that ends stands for a
  call that would block.  The kernel takes at most the bytes it is given.  The field \<open>wire\<close>
  collects the bytes the kernel has taken.  Each call holds the mutex of the socket, so it is one
  step; a call that would wait for the condition variable changes nothing and yields \<open>Wait\<close>.
  Popping from an empty vector is \<open>Undefined\<close>.
\<close>

section \<open>Receiving\<close>

datatype recv_answer = Recv_data string | Recv_again | Recv_intr | Recv_reset | Recv_error

datatype recv_result = Recv_OK string | Recv_AGAIN | Recv_RESET | Recv_NONE

fun receive :: "bool \<Rightarrow> recv_answer list \<Rightarrow> exn + recv_result" where
  "receive valid [] = (if valid then Inr Recv_AGAIN else Inr Recv_RESET)"
| "receive valid (a # as) =
     (if \<not> valid then Inr Recv_RESET
      else (case a of
              Recv_intr \<Rightarrow> receive valid as
            | Recv_reset \<Rightarrow> Inr Recv_RESET
            | Recv_again \<Rightarrow> Inr Recv_AGAIN
            | Recv_error \<Rightarrow> Inl (Runtime_error ''recv'')
            | Recv_data d \<Rightarrow> if d = [] then Inr Recv_NONE else Inr (Recv_OK d)))"

section \<open>Sending\<close>

definition SENDBUF_SIZE :: nat where "SENDBUF_SIZE = 2 ^ 20"
definition MAX_IOVCNT :: nat where "MAX_IOVCNT = 20"
definition MAX_BUFCNT :: nat where "MAX_BUFCNT = 65536"

datatype send_answer = Sent nat | Send_again | Send_intr | Send_error

text \<open>A pending buffer is the data written to it and how many of them were sent.\<close>

record tcp_socket =
  t_valid :: bool
  t_free_buffers :: nat
  t_pending :: "(string \<times> nat) list"
  t_tmpbuf :: string
  t_shutdown :: bool
  t_wire :: string

definition tcp_socket_ctor :: "nat \<Rightarrow> exn + tcp_socket" where
  "tcp_socket_ctor bufcnt =
     (if bufcnt > MAX_BUFCNT then Inl (Logic_error ''tcp_socket: Too many buffers'')
      else Inr \<lparr>t_valid = True, t_free_buffers = bufcnt, t_pending = [], t_tmpbuf = [], t_shutdown = False, t_wire = []\<rparr>)"

definition capacity :: "tcp_socket \<Rightarrow> nat" where
  "capacity t =
     (let c = t_free_buffers t * SENDBUF_SIZE
      in if t_pending t = [] then c else c + SENDBUF_SIZE - length (fst (last (t_pending t))))"

definition can_send :: "nat \<Rightarrow> tcp_socket \<Rightarrow> bool" where
  "can_send len t =
     (if t_shutdown t then True
      else if t_tmpbuf t \<noteq> [] then False
      else if t_pending t = [] then True
      else capacity t \<ge> len)"

definition tcp_empty :: "tcp_socket \<Rightarrow> bool" where
  "tcp_empty t \<longleftrightarrow> t_pending t = [] \<and> t_tmpbuf t = []"

definition free_buffers :: "tcp_socket \<Rightarrow> tcp_socket" where
  "free_buffers t = t\<lparr>t_pending := [], t_free_buffers := 0, t_tmpbuf := [], t_shutdown := True\<rparr>"

definition tcp_invalidate :: "tcp_socket \<Rightarrow> tcp_socket" where
  "tcp_invalidate t = (if t_valid t then free_buffers (t\<lparr>t_valid := False\<rparr>) else t)"

text \<open>
  The loop around \<^verbatim>\<open>send\<close>: the result is whether there was no error, the bytes sent, the bytes left
  and the answers left.
\<close>

fun kernel_send :: "send_answer list \<Rightarrow> string \<Rightarrow> bool \<times> string \<times> string \<times> send_answer list" where
  "kernel_send [] p = (True, [], p, [])"
| "kernel_send (a # as) p =
     (if p = [] then (True, [], [], a # as)
      else (case a of
              Sent n \<Rightarrow> (let (ok, out, rest, as') = kernel_send as (drop n p) in (ok, take n p @ out, rest, as'))
            | Send_again \<Rightarrow> (True, [], p, as)
            | Send_intr \<Rightarrow> kernel_send as p
            | Send_error \<Rightarrow> (False, [], p, as)))"

text \<open>The inner loop of \<^verbatim>\<open>_sendv\<close> that skips what \<^verbatim>\<open>writev\<close> has taken.\<close>

fun advance :: "nat \<Rightarrow> string list \<Rightarrow> string list" where
  "advance n [] = []"
| "advance n (x # v) =
     (if n = 0 then x # v
      else if n < length x then drop n x # v
      else advance (n - length x) v)"

fun kernel_writev :: "send_answer list \<Rightarrow> string list \<Rightarrow> bool \<times> string \<times> string list \<times> send_answer list" where
  "kernel_writev [] v = (True, [], v, [])"
| "kernel_writev (a # as) v =
     (if v = [] then (True, [], [], a # as)
      else (case a of
              Sent n \<Rightarrow>
                (let k = min n (length (concat v));
                     (ok, out, rest, as') = kernel_writev as (advance k v)
                 in (ok, take k (concat v) @ out, rest, as'))
            | Send_again \<Rightarrow> (True, [], v, as)
            | Send_intr \<Rightarrow> kernel_writev as v
            | Send_error \<Rightarrow> (False, [], v, as)))"

datatype outcome = Wait | Undefined | Ret bool tcp_socket

definition set_back :: "(string \<Rightarrow> string) \<Rightarrow> tcp_socket \<Rightarrow> tcp_socket" where
  "set_back f t =
     t\<lparr>t_pending := butlast (t_pending t) @ [(f (fst (last (t_pending t))), snd (last (t_pending t)))]\<rparr>"

text \<open>Fresh buffers for the rest of the data.\<close>

function add_buffers :: "string \<Rightarrow> tcp_socket \<Rightarrow> outcome" where
  "add_buffers p t =
     (if p = [] then Ret True t
      else if t_free_buffers t = 0 then Undefined
      else add_buffers (drop SENDBUF_SIZE p)
             (t\<lparr>t_free_buffers := t_free_buffers t - 1, t_pending := t_pending t @ [(take SENDBUF_SIZE p, 0)]\<rparr>))"
  by pat_completeness auto
termination
  by (relation "measure (\<lambda>(p, t). length p)") (auto simp: SENDBUF_SIZE_def)

declare add_buffers.simps [simp del]

text \<open>The data that the kernel did not take go to the pending buffers.\<close>

definition enqueue :: "string \<Rightarrow> tcp_socket \<Rightarrow> outcome" where
  "enqueue p t =
     (if capacity t < length p then Ret True (t\<lparr>t_tmpbuf := p\<rparr>)
      else if t_pending t \<noteq> [] then
        (let room = SENDBUF_SIZE - length (fst (last (t_pending t)))
         in if room > 0 then
              (let t' = set_back (\<lambda>d. d @ take room p) t
               in if drop room p = [] then Ret True t' else add_buffers (drop room p) t')
            else add_buffers p t)
      else add_buffers p t)"

definition raw_send :: "send_answer list \<Rightarrow> string \<Rightarrow> tcp_socket \<Rightarrow> outcome" where
  "raw_send as p t =
     (if \<not> can_send (length p) t then Wait
      else if t_shutdown t then Ret False t
      else if t_pending t = [] then
        (let (ok, out, rest, _) = kernel_send as p; t' = t\<lparr>t_wire := t_wire t @ out\<rparr>
         in if \<not> ok then Ret False t'
            else if rest = [] then Ret True t'
            else enqueue rest t')
      else enqueue p t)"

text \<open>Copying several pieces into the buffers; a piece may be split over two buffers.\<close>

definition back_full :: "tcp_socket \<Rightarrow> bool" where
  "back_full t \<longleftrightarrow> t_pending t = [] \<or> length (fst (last (t_pending t))) = SENDBUF_SIZE"

function fill_iov :: "string list \<Rightarrow> tcp_socket \<Rightarrow> outcome" where
  "fill_iov v t =
     (case v of
        [] \<Rightarrow> Ret True t
      | x # v' \<Rightarrow>
          (if back_full t then
             (if t_free_buffers t = 0 then Undefined
              else fill_iov v (t\<lparr>t_free_buffers := t_free_buffers t - 1, t_pending := t_pending t @ [([], 0)]\<rparr>))
           else
             (let w = min (SENDBUF_SIZE - length (fst (last (t_pending t)))) (length x);
                  t' = set_back (\<lambda>d. d @ take w x) t
              in if w = length x then fill_iov v' t'
                 else if w = 0 then Undefined
                 else fill_iov (drop w x # v') t')))"
  by pat_completeness auto
termination
proof (relation "measures [\<lambda>(v, t). length (concat v) + length v, \<lambda>(v, t). if back_full t then 1 else 0]", goal_cases)
  case 1
  then show ?case by simp
next
  case (2 v t x v')
  then show ?case by (simp add: back_full_def SENDBUF_SIZE_def)
next
  case (3 v t x v')
  then show ?case by simp
next
  case (4 v t x v')
  then show ?case by auto
qed

declare fill_iov.simps [simp del]

definition raw_sendv :: "send_answer list \<Rightarrow> string list \<Rightarrow> tcp_socket \<Rightarrow> outcome" where
  "raw_sendv as iov t =
     (if \<not> can_send (length (concat iov)) t then Wait
      else if t_shutdown t then Ret False t
      else
        (let v = filter (\<lambda>x. x \<noteq> []) iov;
             (ok, out, rest, _) = (if t_pending t = [] then kernel_writev as v else (True, [], v, as));
             t' = t\<lparr>t_wire := t_wire t @ out\<rparr>
         in if \<not> ok then Ret False t'
            else if t_pending t = [] \<and> rest = [] then Ret True t'
            else if capacity t' < length (concat rest) then Ret True (t'\<lparr>t_tmpbuf := concat rest\<rparr>)
            else fill_iov rest t'))"

text \<open>\<^verbatim>\<open>with_fd\<close>: nothing is done on an invalid socket, and a callback that returns false invalidates it.\<close>

definition with_fd :: "(tcp_socket \<Rightarrow> outcome) \<Rightarrow> tcp_socket \<Rightarrow> outcome" where
  "with_fd f t =
     (if \<not> t_valid t then Ret False t
      else (case f t of
              Ret ok t' \<Rightarrow> if ok then Ret True t' else Ret False (tcp_invalidate t')
            | r \<Rightarrow> r))"

definition tcp_send :: "send_answer list \<Rightarrow> string \<Rightarrow> tcp_socket \<Rightarrow> outcome" where
  "tcp_send as p = with_fd (raw_send as p)"

definition tcp_sendv :: "send_answer list \<Rightarrow> string list \<Rightarrow> tcp_socket \<Rightarrow> exn + outcome" where
  "tcp_sendv as iov t =
     (if t_valid t \<and> length iov \<ge> MAX_IOVCNT then Inl (Logic_error ''<tcp_socket::sendv> too many iovec.'')
      else Inr (with_fd (raw_sendv as iov) t))"

text \<open>The rest of \<^verbatim>\<open>send_close\<close> and \<^verbatim>\<open>sendv_close\<close>: close at once when nothing is pending.\<close>

definition then_close :: "outcome \<Rightarrow> outcome" where
  "then_close r =
     (case r of
        Ret ok t \<Rightarrow>
          (if \<not> ok then Ret False t
           else (let t' = t\<lparr>t_shutdown := True\<rparr> in Ret (\<not> tcp_empty t') t'))
      | _ \<Rightarrow> r)"

definition tcp_send_close :: "send_answer list \<Rightarrow> string \<Rightarrow> tcp_socket \<Rightarrow> outcome" where
  "tcp_send_close as p = with_fd (\<lambda>t. then_close (raw_send as p t))"

definition tcp_sendv_close :: "send_answer list \<Rightarrow> string list \<Rightarrow> tcp_socket \<Rightarrow> exn + outcome" where
  "tcp_sendv_close as iov t =
     (if t_valid t \<and> length iov \<ge> MAX_IOVCNT then Inl (Logic_error ''<tcp_socket::sendv> too many iov.'')
      else Inr (with_fd (\<lambda>t. then_close (raw_sendv as iov t)) t))"

text \<open>Writing what is pending: a buffer that was sent completely becomes free again.\<close>

fun write_buffers :: "send_answer list \<Rightarrow> (string \<times> nat) list \<Rightarrow> tcp_socket \<Rightarrow> bool \<times> tcp_socket" where
  "write_buffers as [] t = (\<not> t_shutdown t, t\<lparr>t_pending := []\<rparr>)"
| "write_buffers as ((d, sent) # ps) t =
     (let (ok, out, rest, as') = kernel_send as (drop sent d); t' = t\<lparr>t_wire := t_wire t @ out\<rparr>
      in if \<not> ok then (False, t'\<lparr>t_pending := (d, sent) # ps\<rparr>)
         else if rest = [] then write_buffers as' ps (t'\<lparr>t_free_buffers := t_free_buffers t + 1\<rparr>)
         else (True, t'\<lparr>t_pending := (d, sent + length out) # ps\<rparr>))"

definition write_pending_data :: "send_answer list \<Rightarrow> tcp_socket \<Rightarrow> bool \<times> tcp_socket" where
  "write_pending_data as t =
     (let (ok, out, rest, as') = kernel_send as (t_tmpbuf t); t' = t\<lparr>t_wire := t_wire t @ out, t_tmpbuf := rest\<rparr>
      in if \<not> ok then (False, t')
         else if rest \<noteq> [] then (True, t')
         else write_buffers as' (t_pending t') t')"

text \<open>The job of a worker that writes what is pending, and the default of the reactor when no worker is idle.\<close>

definition send_job :: "send_answer list \<Rightarrow> tcp_socket \<Rightarrow> outcome" where
  "send_job as = with_fd (\<lambda>t. (case write_pending_data as t of (ok, t') \<Rightarrow> Ret ok t'))"

definition tcp_on_writable :: "send_answer list \<Rightarrow> tcp_socket \<Rightarrow> outcome" where
  "tcp_on_writable as t =
     (let (ok, t') = write_pending_data as t
      in if ok then Ret True t' else Ret (\<not> t_valid t') (tcp_invalidate t'))"

section \<open>The invariant and what is still to be sent\<close>

definition unsent :: "tcp_socket \<Rightarrow> string" where
  "unsent t = t_tmpbuf t @ concat (map (\<lambda>(d, s). drop s d) (t_pending t))"

definition tcp_ok :: "nat \<Rightarrow> tcp_socket \<Rightarrow> bool" where
  "tcp_ok n t \<longleftrightarrow>
     (t_tmpbuf t \<noteq> [] \<longrightarrow> t_pending t = []) \<and>
     (\<forall>(d, s) \<in> set (t_pending t). s \<le> length d \<and> length d \<le> SENDBUF_SIZE) \<and>
     t_free_buffers t + length (t_pending t) = n"

lemma SENDBUF_pos [simp]: "0 < SENDBUF_SIZE"
  by (simp add: SENDBUF_SIZE_def)

lemma kernel_send_spec: "kernel_send as p = (ok, out, rest, as') \<Longrightarrow> out @ rest = p"
proof (induction as p arbitrary: ok out rest as' rule: kernel_send.induct)
  case (2 a as p)
  show ?case
  proof (cases a)
    case (Sent n)
    then show ?thesis using "2.prems" "2.IH"(1) [OF _ Sent]
      by (auto split: if_splits prod.splits)
  qed (use 2 in \<open>auto split: if_splits\<close>)
qed simp

lemma advance_spec:
  "n \<le> length (concat v) \<Longrightarrow> concat (advance n v) = drop n (concat v)"
  by (induction n v rule: advance.induct) auto

lemma advance_nonempty: "[] \<notin> set v \<Longrightarrow> [] \<notin> set (advance n v)"
  by (induction n v rule: advance.induct) auto

lemma kernel_writev_nonempty:
  "kernel_writev as v = (ok, out, rest, as') \<Longrightarrow> [] \<notin> set v \<Longrightarrow> [] \<notin> set rest"
proof (induction as v arbitrary: ok out rest as' rule: kernel_writev.induct)
  case (2 a as v)
  show ?case
  proof (cases a)
    case (Sent n)
    show ?thesis
    proof (cases "v = []")
      case False
      obtain ok1 out1 rest1 as1 where k: "kernel_writev as (advance (min n (length (concat v))) v) = (ok1, out1, rest1, as1)"
        by (metis prod_cases4)
      have "[] \<notin> set rest1"
        by (rule "2.IH"(1) [OF False Sent refl k]) (use "2.prems"(2) advance_nonempty in simp)
      then show ?thesis using "2.prems"(1) Sent False k by (simp add: Let_def)
    qed (use "2.prems" in simp)
  qed (use 2 in \<open>auto split: if_splits\<close>)
qed simp

lemma kernel_writev_spec:
  "kernel_writev as v = (ok, out, rest, as') \<Longrightarrow> out @ concat rest = concat v"
proof (induction as v arbitrary: ok out rest as' rule: kernel_writev.induct)
  case (2 a as v)
  show ?case
  proof (cases a)
    case (Sent n)
    show ?thesis
    proof (cases "v = []")
      case False
      let ?k = "min n (length (concat v))"
      obtain ok1 out1 rest1 as1 where k: "kernel_writev as (advance ?k v) = (ok1, out1, rest1, as1)"
        by (metis prod_cases4)
      have "out1 @ concat rest1 = concat (advance ?k v)" using "2.IH"(1) [OF False Sent refl k] .
      also have "\<dots> = drop ?k (concat v)" using advance_spec [of ?k v] by simp
      finally have "take ?k (concat v) @ out1 @ concat rest1 = concat v" by (simp only: append_take_drop_id)
      then show ?thesis using "2.prems" Sent False k by (auto simp: Let_def)
    qed (use "2.prems" in simp)
  qed (use 2 in \<open>auto split: if_splits\<close>)
qed simp

lemma add_buffers_spec:
  assumes "length p \<le> t_free_buffers t * SENDBUF_SIZE"
  shows "\<exists>bs. add_buffers p t = Ret True (t\<lparr>t_free_buffers := t_free_buffers t - length bs, t_pending := t_pending t @ bs\<rparr>) \<and>
    length bs \<le> t_free_buffers t \<and> concat (map fst bs) = p \<and> (\<forall>(d, s) \<in> set bs. s = 0 \<and> length d \<le> SENDBUF_SIZE)"
  using assms
proof (induction p t rule: add_buffers.induct)
  case (1 p t)
  show ?case
  proof (cases "p = []")
    case True
    then show ?thesis by (intro exI [of _ "[]"]) (simp add: add_buffers.simps)
  next
    case False
    then have free: "t_free_buffers t \<noteq> 0" using "1.prems" by (cases "t_free_buffers t = 0") simp_all
    let ?t = "t\<lparr>t_free_buffers := t_free_buffers t - 1, t_pending := t_pending t @ [(take SENDBUF_SIZE p, 0)]\<rparr>"
    have "length (drop SENDBUF_SIZE p) \<le> t_free_buffers ?t * SENDBUF_SIZE"
      using "1.prems" free by (cases "t_free_buffers t") auto
    from "1.IH" [OF False free this] obtain bs where
      bs: "add_buffers (drop SENDBUF_SIZE p) ?t = Ret True (?t\<lparr>t_free_buffers := t_free_buffers ?t - length bs, t_pending := t_pending ?t @ bs\<rparr>)"
      "length bs \<le> t_free_buffers ?t" "concat (map fst bs) = drop SENDBUF_SIZE p" "\<forall>(d, s) \<in> set bs. s = 0 \<and> length d \<le> SENDBUF_SIZE"
      by blast
    show ?thesis
      using bs False free
      by (intro exI [of _ "(take SENDBUF_SIZE p, 0) # bs"]) (auto simp: add_buffers.simps [of p])
  qed
qed

definition grows :: "nat \<Rightarrow> string \<Rightarrow> tcp_socket \<Rightarrow> outcome \<Rightarrow> bool" where
  "grows n p t r =
     (case r of
        Ret ok t' \<Rightarrow> ok \<and> tcp_ok n t' \<and> unsent t' = unsent t @ p \<and> t_wire t' = t_wire t \<and> t_valid t' = t_valid t \<and>
          t_shutdown t' = t_shutdown t
      | _ \<Rightarrow> False)"

lemma grows_Ret [simp]:
  "grows n p t (Ret ok t') \<longleftrightarrow> ok \<and> tcp_ok n t' \<and> unsent t' = unsent t @ p \<and> t_wire t' = t_wire t \<and> t_valid t' = t_valid t \<and>
     t_shutdown t' = t_shutdown t"
  by (simp add: grows_def)

lemma add_buffers_grows:
  assumes "tcp_ok n t" "t_tmpbuf t = []" "length p \<le> t_free_buffers t * SENDBUF_SIZE"
  shows "grows n p t (add_buffers p t)"
proof -
  obtain bs where bs: "add_buffers p t = Ret True (t\<lparr>t_free_buffers := t_free_buffers t - length bs, t_pending := t_pending t @ bs\<rparr>)"
    "length bs \<le> t_free_buffers t" "concat (map fst bs) = p" "\<forall>(d, s) \<in> set bs. s = 0 \<and> length d \<le> SENDBUF_SIZE"
    using add_buffers_spec [OF assms(3)] by blast
  have "concat (map (\<lambda>(d, s). drop s d) bs) = concat (map fst bs)"
    using bs(4) by (intro arg_cong [where f = concat] map_cong) auto
  then show ?thesis using assms(1,2) bs by (auto simp: tcp_ok_def unsent_def)
qed

lemma set_back_facts:
  assumes "tcp_ok n t" "t_tmpbuf t = []" "t_pending t \<noteq> []" "length (fst (last (t_pending t))) + length q \<le> SENDBUF_SIZE"
  shows "tcp_ok n (set_back (\<lambda>d. d @ q) t)" "unsent (set_back (\<lambda>d. d @ q) t) = unsent t @ q"
proof -
  obtain ps d s where p: "t_pending t = ps @ [(d, s)]" using assms(3) by (metis rev_exhaust surj_pair)
  then have "s \<le> length d" using assms(1) by (auto simp: tcp_ok_def)
  then show "tcp_ok n (set_back (\<lambda>d. d @ q) t)" "unsent (set_back (\<lambda>d. d @ q) t) = unsent t @ q"
    using assms p by (auto simp: tcp_ok_def set_back_def unsent_def)
qed

lemma set_back_keeps [simp]:
  "t_free_buffers (set_back f t) = t_free_buffers t" "t_tmpbuf (set_back f t) = t_tmpbuf t" "t_wire (set_back f t) = t_wire t"
  "t_valid (set_back f t) = t_valid t" "t_shutdown (set_back f t) = t_shutdown t"
  by (simp_all add: set_back_def)

lemma grows_trans:
  assumes "grows n q t' r" "unsent t' = unsent t @ p" "t_wire t' = t_wire t" "t_valid t' = t_valid t" "t_shutdown t' = t_shutdown t"
  shows "grows n (p @ q) t r"
  using assms by (cases r) (simp_all add: grows_def)

lemma back_size:
  assumes "tcp_ok n t" "t_pending t \<noteq> []"
  shows "length (fst (last (t_pending t))) \<le> SENDBUF_SIZE"
  using assms last_in_set [OF assms(2)] by (cases "last (t_pending t)") (auto simp: tcp_ok_def)

lemma enqueue_grows:
  assumes ok: "tcp_ok n t" and tmp: "t_tmpbuf t = []" and room: "capacity t < length p \<Longrightarrow> t_pending t = []"
  shows "grows n p t (enqueue p t)"
proof (cases "capacity t < length p")
  case True
  then show ?thesis using ok tmp room by (simp add: enqueue_def tcp_ok_def unsent_def)
next
  case fits: False
  show ?thesis
  proof (cases "t_pending t = []")
    case True
    then show ?thesis using add_buffers_grows [OF ok tmp] fits by (simp add: enqueue_def capacity_def Let_def)
  next
    case False
    let ?room = "SENDBUF_SIZE - length (fst (last (t_pending t)))"
    let ?t = "set_back (\<lambda>d. d @ take ?room p) t"
    note size = back_size [OF ok False]
    have cap: "capacity t = t_free_buffers t * SENDBUF_SIZE + ?room" using False size by (simp add: capacity_def Let_def)
    have b: "tcp_ok n ?t" "unsent ?t = unsent t @ take ?room p"
      using set_back_facts [OF ok tmp False, of "take ?room p"] size by auto
    have more: "grows n (drop ?room p) ?t (add_buffers (drop ?room p) ?t)"
      by (rule add_buffers_grows [OF b(1)]) (use tmp fits cap in auto)
    have "grows n (take ?room p @ drop ?room p) t (add_buffers (drop ?room p) ?t)"
      by (rule grows_trans [OF more]) (use b in simp_all)
    moreover have "grows n p t (add_buffers p t)" if "?room = 0"
      by (rule add_buffers_grows [OF ok tmp]) (use that fits cap in simp)
    ultimately show ?thesis
      using False fits b by (auto simp: enqueue_def Let_def)
  qed
qed

lemma capacity_back:
  assumes "tcp_ok n t"
  shows "capacity t = t_free_buffers t * SENDBUF_SIZE + (if t_pending t = [] then 0 else SENDBUF_SIZE - length (fst (last (t_pending t))))"
  using back_size [OF assms] by (simp add: capacity_def Let_def)

lemma fill_iov_grows:
  assumes "tcp_ok n t" "t_tmpbuf t = []" "length (concat v) \<le> capacity t" "[] \<notin> set v"
  shows "grows n (concat v) t (fill_iov v t)"
  using assms
proof (induction v t rule: fill_iov.induct)
  case (1 v t)
  note ok = "1.prems"(1) and tmp = "1.prems"(2) and cap = "1.prems"(3) [unfolded capacity_back [OF "1.prems"(1)]]
  show ?case
  proof (cases v)
    case Nil
    then show ?thesis using 1 by (simp add: fill_iov.simps)
  next
    case v: (Cons x v')
    show ?thesis
    proof (cases "back_full t")
      case True
      let ?t = "t\<lparr>t_free_buffers := t_free_buffers t - 1, t_pending := t_pending t @ [([], 0)]\<rparr>"
      have "0 < length (concat v)" using "1.prems"(4) v by auto
      moreover have c: "length (concat v) \<le> t_free_buffers t * SENDBUF_SIZE"
        using cap True by (auto simp: back_full_def split: if_splits)
      ultimately have free: "t_free_buffers t \<noteq> 0" by (cases "t_free_buffers t = 0") simp_all
      have t: "tcp_ok n ?t" "unsent ?t = unsent t" using ok tmp free by (auto simp: tcp_ok_def unsent_def)
      have "grows n (concat v) ?t (fill_iov v ?t)"
        by (rule "1.IH"(1) [OF v True free t(1)])
          (use tmp c free "1.prems"(4) capacity_back [OF t(1)] in \<open>cases "t_free_buffers t"; simp\<close>)+
      then have "grows n ([] @ concat v) t (fill_iov v ?t)" by (rule grows_trans) (use t(2) in simp_all)
      then show ?thesis using True free v by (simp add: fill_iov.simps [of "x # v'" t])
    next
      case False
      then have p: "t_pending t \<noteq> []" by (simp add: back_full_def)
      let ?room = "SENDBUF_SIZE - length (fst (last (t_pending t)))"
      define w where "w = min ?room (length x)"
      let ?t = "set_back (\<lambda>d. d @ take w x) t"
      note size = back_size [OF ok p]
      have room: "0 < ?room" using size False by (simp add: back_full_def)
      have x: "x \<noteq> []" "[] \<notin> set v'" using "1.prems"(4) v by auto
      have w: "0 < w" "w \<le> length x" using room x(1) by (simp_all add: w_def)
      have t: "tcp_ok n ?t" "unsent ?t = unsent t @ take w x"
        using set_back_facts [OF ok tmp p, of "take w x"] size by (auto simp: w_def)
      have "capacity ?t = t_free_buffers t * SENDBUF_SIZE + (?room - w)"
        using capacity_back [OF t(1)] w(2) p by (simp add: set_back_def)
      then have c: "length (concat v) - w \<le> capacity ?t" using cap p by simp
      show ?thesis
      proof (cases "w = length x")
        case True
        have "grows n (concat v') ?t (fill_iov v' ?t)"
          by (rule "1.IH"(2) [OF v False w_def refl True t(1)]) (use tmp c v True x in simp_all)
        then have "grows n (take w x @ concat v') t (fill_iov v' ?t)" by (rule grows_trans) (simp_all add: t(2))
        then show ?thesis using False True v by (simp add: fill_iov.simps [of "x # v'" t] w_def [symmetric])
      next
        case part: False
        have "grows n (concat (drop w x # v')) ?t (fill_iov (drop w x # v') ?t)"
          by (rule "1.IH"(3) [OF v False w_def refl part _ t(1)]) (use tmp c v part x w in simp_all)
        then have "grows n (take w x @ concat (drop w x # v')) t (fill_iov (drop w x # v') ?t)"
          by (rule grows_trans) (simp_all add: t(2))
        moreover have "take w x @ concat (drop w x # v') = x @ concat v'" by (simp only: concat.simps append_assoc [symmetric] append_take_drop_id)
        ultimately have "grows n (x @ concat v') t (fill_iov (drop w x # v') ?t)" by (simp only:)
        then show ?thesis using False part v w(1) by (simp add: fill_iov.simps [of "x # v'" t] w_def [symmetric] Let_def)
      qed
    qed
  qed
qed

section \<open>The calls\<close>

text \<open>
  A call that offers the bytes \<open>p\<close>: if it returns true, everything offered so far is on the wire or
  waiting in order; if it returns false, what is on the wire is a prefix of what was offered.
\<close>

definition delivers :: "nat \<Rightarrow> string \<Rightarrow> tcp_socket \<Rightarrow> outcome \<Rightarrow> bool" where
  "delivers n p t r =
     (case r of
        Wait \<Rightarrow> True
      | Undefined \<Rightarrow> False
      | Ret ok t' \<Rightarrow>
          t_valid t' = t_valid t \<and>
          (if ok then tcp_ok n t' \<and> t_wire t' @ unsent t' = t_wire t @ unsent t @ p
           else prefix (t_wire t') (t_wire t @ unsent t @ p)))"

lemma delivers_simps [simp]:
  "delivers n p t Wait" "\<not> delivers n p t Undefined"
  "delivers n p t (Ret True t') \<longleftrightarrow> t_valid t' = t_valid t \<and> tcp_ok n t' \<and> t_wire t' @ unsent t' = t_wire t @ unsent t @ p"
  "delivers n p t (Ret False t') \<longleftrightarrow> t_valid t' = t_valid t \<and> prefix (t_wire t') (t_wire t @ unsent t @ p)"
  by (simp_all add: delivers_def)

lemma grows_delivers:
  assumes "grows n q t' r" "t_wire t' @ unsent t' @ q = t_wire t @ unsent t @ p" "t_valid t' = t_valid t"
  shows "delivers n p t r"
  using assms by (cases r) (auto simp: grows_def delivers_def)

lemma unsent_empty: "t_pending t = [] \<Longrightarrow> unsent t = t_tmpbuf t"
  by (simp add: unsent_def)

lemma raw_send_delivers:
  assumes ok: "tcp_ok n t"
  shows "delivers n p t (raw_send as p t)"
proof -
  obtain ok' out rest as' where k: "kernel_send as p = (ok', out, rest, as')" by (metis prod_cases4)
  note sp = kernel_send_spec [OF k]
  let ?t = "t\<lparr>t_wire := t_wire t @ out\<rparr>"
  have t: "tcp_ok n ?t" "unsent ?t = unsent t" using ok by (simp_all add: tcp_ok_def unsent_def)
  consider "\<not> can_send (length p) t" | "can_send (length p) t" "t_shutdown t"
    | "can_send (length p) t" "\<not> t_shutdown t" "t_pending t = []" | "can_send (length p) t" "\<not> t_shutdown t" "t_pending t \<noteq> []"
    by blast
  then show ?thesis
  proof cases
    case 3
    then have tmp: "t_tmpbuf t = []" by (simp add: can_send_def split: if_splits)
    have "delivers n p t (enqueue rest ?t)"
      by (rule grows_delivers [OF enqueue_grows [OF t(1)]]) (use tmp 3(3) sp unsent_empty [OF 3(3)] t(2) in simp_all)
    then show ?thesis
      using 3 k t sp unsent_empty [OF 3(3)] tmp by (auto simp: raw_send_def prefix_def Let_def)
  next
    case 4
    then have tmp: "t_tmpbuf t = []" and cap: "length p \<le> capacity t" by (simp_all add: can_send_def split: if_splits)
    have "delivers n p t (enqueue p t)"
      by (rule grows_delivers [OF enqueue_grows [OF ok tmp]]) (use cap in simp_all)
    then show ?thesis using 4 by (simp add: raw_send_def)
  qed (simp_all add: raw_send_def prefix_def)
qed

lemma concat_filter_nonempty: "concat (filter (\<lambda>x. x \<noteq> []) v) = concat v"
  by (induction v) simp_all

lemma raw_sendv_delivers:
  assumes ok: "tcp_ok n t"
  shows "delivers n (concat iov) t (raw_sendv as iov t)"
proof -
  let ?v = "filter (\<lambda>x. x \<noteq> []) iov"
  obtain ok' out rest as' where k: "(if t_pending t = [] then kernel_writev as ?v else (True, [], ?v, as)) = (ok', out, rest, as')"
    by (metis prod_cases4)
  have sp: "out @ concat rest = concat iov" and ne: "[] \<notin> set rest"
    using k kernel_writev_spec [of as ?v] kernel_writev_nonempty [of as ?v] by (auto simp: concat_filter_nonempty split: if_splits)
  have out: "out = []" "concat rest = concat iov" "ok'" if "t_pending t \<noteq> []" using k that by (auto simp: concat_filter_nonempty)
  let ?t = "t\<lparr>t_wire := t_wire t @ out\<rparr>"
  have t: "tcp_ok n ?t" "unsent ?t = unsent t" "capacity ?t = capacity t"
    using ok by (simp_all add: tcp_ok_def unsent_def capacity_def Let_def)
  consider "\<not> can_send (length (concat iov)) t" | "can_send (length (concat iov)) t" "t_shutdown t"
    | "can_send (length (concat iov)) t" "\<not> t_shutdown t"
    by blast
  then show ?thesis
  proof cases
    case 3
    then have tmp: "t_tmpbuf t = []" and cap: "t_pending t \<noteq> [] \<Longrightarrow> length (concat iov) \<le> capacity t"
      by (simp_all add: can_send_def split: if_splits)
    have fill: "delivers n (concat iov) t (fill_iov rest ?t)" if "length (concat rest) \<le> capacity t"
    proof (rule grows_delivers [OF fill_iov_grows [OF t(1) _ _ ne]])
      show "t_wire ?t @ unsent ?t @ concat rest = t_wire t @ unsent t @ concat iov"
        using sp out t(2) unsent_empty [of t] tmp by (cases "t_pending t = []") auto
    qed (use tmp that t(3) in simp_all)
    have keep: "delivers n (concat iov) t (Ret True (?t\<lparr>t_tmpbuf := concat rest\<rparr>))" if "t_pending t = []"
      using that ok sp tmp by (simp add: tcp_ok_def unsent_def)
    have "\<exists>zs. concat iov = out @ zs" using sp by metis
    then show ?thesis
      using 3 fill keep cap sp t out unsent_empty [of t] tmp k
      by (cases "t_pending t = []") (auto simp: raw_sendv_def Let_def prefix_def)
  qed (simp_all add: raw_sendv_def prefix_def)
qed

lemma write_buffers_delivers:
  assumes "tcp_ok n (t\<lparr>t_pending := ps\<rparr>)" "t_tmpbuf t = []" "write_buffers as ps t = (ok, t')"
  shows "t_wire t' @ unsent t' = t_wire t @ unsent (t\<lparr>t_pending := ps\<rparr>) \<and> tcp_ok n t' \<and> t_valid t' = t_valid t \<or>
    \<not> ok \<and> prefix (t_wire t') (t_wire t @ unsent (t\<lparr>t_pending := ps\<rparr>))"
  using assms
proof (induction as ps t arbitrary: rule: write_buffers.induct)
  case (1 as t)
  then show ?case by (auto simp: unsent_def tcp_ok_def)
next
  case (2 as d sent ps t)
  obtain ok1 out rest as1 where k: "kernel_send as (drop sent d) = (ok1, out, rest, as1)" by (metis prod_cases4)
  note sp = kernel_send_spec [OF k]
  let ?t = "t\<lparr>t_wire := t_wire t @ out\<rparr>"
  have u: "unsent (t\<lparr>t_pending := (d, sent) # ps\<rparr>) = out @ rest @ concat (map (\<lambda>(d, s). drop s d) ps)"
    using "2.prems"(2) sp by (simp add: unsent_def)
  show ?case
  proof (cases "ok1 \<and> rest = []")
    case True
    let ?t1 = "?t\<lparr>t_free_buffers := t_free_buffers t + 1\<rparr>"
    have "tcp_ok n (?t1\<lparr>t_pending := ps\<rparr>)" using "2.prems"(1) by (simp add: tcp_ok_def)
    moreover have "write_buffers as1 ps ?t1 = (ok, t')" using "2.prems"(3) k True by (simp add: Let_def)
    moreover have "unsent (?t1\<lparr>t_pending := ps\<rparr>) = concat (map (\<lambda>(d, s). drop s d) ps)" using "2.prems"(2) by (simp add: unsent_def)
    ultimately show ?thesis
      using "2.IH" [OF k [symmetric] refl refl refl] "2.prems"(2) True u by simp
  next
    case False
    show ?thesis
    proof (cases ok1)
      case True
      then have t': "t' = ?t\<lparr>t_pending := (d, sent + length out) # ps\<rparr>" using "2.prems"(3) k False by (simp add: Let_def)
      have "drop (length out) (drop sent d) = rest" using sp by (metis append_eq_conv_conj)
      then have "drop (sent + length out) d = rest" by (simp add: add.commute)
      moreover have "length out \<le> length d - sent" using arg_cong [OF sp, of length] by simp
      ultimately show ?thesis using t' u "2.prems"(1,2) by (auto simp: unsent_def tcp_ok_def)
    next
      case err: False
      then show ?thesis using "2.prems"(3) k u by (auto simp: Let_def prefix_def)
    qed
  qed
qed

lemma write_pending_delivers:
  assumes "tcp_ok n t" "write_pending_data as t = (ok, t')"
  shows "t_wire t' @ unsent t' = t_wire t @ unsent t \<and> tcp_ok n t' \<and> t_valid t' = t_valid t \<or>
    \<not> ok \<and> prefix (t_wire t') (t_wire t @ unsent t)"
proof -
  obtain ok1 out rest as1 where k: "kernel_send as (t_tmpbuf t) = (ok1, out, rest, as1)" by (metis prod_cases4)
  note sp = kernel_send_spec [OF k]
  let ?t = "t\<lparr>t_wire := t_wire t @ out, t_tmpbuf := rest\<rparr>"
  have u: "unsent t = out @ unsent ?t" using sp by (simp add: unsent_def flip: append_assoc)
  have ok: "tcp_ok n ?t" using assms(1) sp by (auto simp: tcp_ok_def)
  show ?thesis
  proof (cases "ok1 \<and> rest = []")
    case True
    then have "write_buffers as1 (t_pending t) ?t = (ok, t')" using assms(2) k by (simp add: write_pending_data_def Let_def)
    from write_buffers_delivers [OF _ _ this, of n] show ?thesis using ok True u by simp
  next
    case False
    then show ?thesis using assms(2) k u ok by (cases ok1) (auto simp: write_pending_data_def Let_def prefix_def)
  qed
qed

section \<open>Any sequence of calls\<close>

lemma with_fd_delivers:
  assumes "delivers n p t (f t)" "t_valid t"
  shows "case with_fd f t of
      Wait \<Rightarrow> True | Undefined \<Rightarrow> False
    | Ret ok t' \<Rightarrow> (if ok then t_valid t' \<and> tcp_ok n t' \<and> t_wire t' @ unsent t' = t_wire t @ unsent t @ p
        else \<not> t_valid t' \<and> t_pending t' = [] \<and> t_tmpbuf t' = [] \<and> prefix (t_wire t') (t_wire t @ unsent t @ p))"
proof (cases "f t")
  case (Ret ok t')
  then show ?thesis using assms by (cases ok) (simp_all add: with_fd_def tcp_invalidate_def free_buffers_def)
qed (use assms in \<open>simp_all add: with_fd_def\<close>)

lemma then_close_delivers:
  assumes "delivers n p t r"
  shows "delivers n p t (then_close r)"
proof (cases r)
  case (Ret ok t')
  have "prefix w (w @ u)" for w u :: string by simp
  then have "delivers n p t (Ret b (t'\<lparr>t_shutdown := True\<rparr>))" if ok for b
    using assms Ret that by (cases b) (auto simp: tcp_ok_def unsent_def simp del: append_assoc dest: arg_cong [of _ _ "prefix (t_wire t')"])
  then show ?thesis using assms Ret by (auto simp: then_close_def Let_def)
qed (use assms in \<open>simp_all add: then_close_def\<close>)

lemma write_buffers_valid: "write_buffers as ps t = (ok, t') \<Longrightarrow> t_valid t' = t_valid t"
  by (induction as ps t arbitrary: ok t' rule: write_buffers.induct) (auto simp: Let_def split: prod.splits if_splits)

lemma write_pending_data_valid: "write_pending_data as t = (ok, t') \<Longrightarrow> t_valid t' = t_valid t"
  by (auto simp: write_pending_data_def Let_def split: prod.splits if_splits dest: write_buffers_valid)

lemma on_writable_delivers:
  assumes "tcp_ok n t"
  shows "delivers n [] t (case write_pending_data as t of (ok, t') \<Rightarrow> Ret ok t')"
proof -
  obtain ok t' where w: "write_pending_data as t = (ok, t')" by (metis surj_pair)
  from write_pending_delivers [OF assms this] write_pending_data_valid [OF this] show ?thesis
    by (cases ok) (auto simp: w prefix_def dest: sym)
qed

text \<open>On a valid socket both ways of writing agree; on an invalid one there is nothing left to write.\<close>

lemma tcp_on_writable_valid:
  assumes "t_valid t"
  shows "tcp_on_writable as t = send_job as t"
proof -
  obtain ok t' where w: "write_pending_data as t = (ok, t')" by (metis surj_pair)
  then have "t_valid t'" using write_pending_data_valid [OF w] assms by simp
  then show ?thesis using assms by (simp add: tcp_on_writable_def send_job_def with_fd_def w)
qed

lemma kernel_send_Nil: "kernel_send as [] = (True, [], [], as)"
  by (cases as) simp_all

lemma tcp_on_writable_dead:
  "\<not> t_valid t \<Longrightarrow> t_pending t = [] \<Longrightarrow> t_tmpbuf t = [] \<Longrightarrow> tcp_on_writable as t = Ret True t"
  by (simp add: tcp_on_writable_def write_pending_data_def kernel_send_Nil tcp_invalidate_def)

datatype sock_op =
    Op_send "send_answer list" string
  | Op_sendv "send_answer list" "string list"
  | Op_send_close "send_answer list" string
  | Op_sendv_close "send_answer list" "string list"
  | Op_send_job "send_answer list"
  | Op_writable "send_answer list"

primrec op_data :: "sock_op \<Rightarrow> string" where
  "op_data (Op_send as p) = p"
| "op_data (Op_sendv as iov) = concat iov"
| "op_data (Op_send_close as p) = p"
| "op_data (Op_sendv_close as iov) = concat iov"
| "op_data (Op_send_job as) = []"
| "op_data (Op_writable as) = []"

primrec op_run :: "sock_op \<Rightarrow> tcp_socket \<Rightarrow> exn + outcome" where
  "op_run (Op_send as p) t = Inr (tcp_send as p t)"
| "op_run (Op_sendv as iov) t = tcp_sendv as iov t"
| "op_run (Op_send_close as p) t = Inr (tcp_send_close as p t)"
| "op_run (Op_sendv_close as iov) t = tcp_sendv_close as iov t"
| "op_run (Op_send_job as) t = Inr (send_job as t)"
| "op_run (Op_writable as) t = Inr (tcp_on_writable as t)"

primrec iov_ok :: "sock_op \<Rightarrow> bool" where
  "iov_ok (Op_send as p) = True"
| "iov_ok (Op_sendv as iov) = (length iov < MAX_IOVCNT)"
| "iov_ok (Op_send_close as p) = True"
| "iov_ok (Op_sendv_close as iov) = (length iov < MAX_IOVCNT)"
| "iov_ok (Op_send_job as) = True"
| "iov_ok (Op_writable as) = True"

text \<open>A run collects the bytes offered while the socket was valid; a call that waits is tried again later.\<close>

fun sock_run :: "sock_op list \<Rightarrow> tcp_socket \<Rightarrow> string \<Rightarrow> exn + (tcp_socket \<times> string) option" where
  "sock_run [] t off = Inr (Some (t, off))"
| "sock_run (a # ops) t off =
     bind_res (op_run a t) (\<lambda>r.
       case r of
         Wait \<Rightarrow> sock_run ops t off
       | Undefined \<Rightarrow> Inr None
       | Ret ok t' \<Rightarrow> sock_run ops t' (if t_valid t then off @ op_data a else off))"

definition sock_inv :: "nat \<Rightarrow> tcp_socket \<Rightarrow> string \<Rightarrow> bool" where
  "sock_inv n t off \<longleftrightarrow> prefix (t_wire t) off \<and> (t_valid t \<longrightarrow> tcp_ok n t \<and> t_wire t @ unsent t = off) \<and>
     (\<not> t_valid t \<longrightarrow> t_pending t = [] \<and> t_tmpbuf t = [])"

definition run_inv :: "nat \<Rightarrow> string \<Rightarrow> outcome \<Rightarrow> bool" where
  "run_inv n off r = (case r of Wait \<Rightarrow> True | Undefined \<Rightarrow> False | Ret ok t \<Rightarrow> sock_inv n t off)"

lemma op_run_inv:
  assumes "sock_inv n t off" "iov_ok a"
  obtains r where "op_run a t = Inr r" "run_inv n (if t_valid t then off @ op_data a else off) r"
proof (cases "t_valid t")
  case True
  then have ok: "tcp_ok n t" "off = t_wire t @ unsent t" using assms(1) by (auto simp: sock_inv_def)
  have inv: "run_inv n (off @ p) (with_fd f t)"
    if d: "delivers n p t (f t)" for f p
  proof (cases "with_fd f t")
    case (Ret ok' t')
    have "prefix (t_wire t') (off @ p)" if "t_wire t' @ unsent t' = off @ p" using that by (metis prefixI)
    then show ?thesis
      using with_fd_delivers [where f = f, OF d True] ok(2) Ret
      by (cases ok') (simp_all add: run_inv_def sock_inv_def)
  qed (use with_fd_delivers [where f = f, OF d True] in \<open>simp_all add: run_inv_def\<close>)
  show thesis
  proof (cases a)
    case (Op_send as p)
    then show thesis using that inv [where f = "raw_send as p", OF raw_send_delivers [OF ok(1)]] True by (simp add: tcp_send_def)
  next
    case (Op_sendv as iov)
    then show thesis using that inv [where f = "raw_sendv as iov", OF raw_sendv_delivers [OF ok(1)]] True assms(2) by (simp add: tcp_sendv_def)
  next
    case (Op_send_close as p)
    then show thesis using that inv [where f = "\<lambda>t. then_close (raw_send as p t)", OF then_close_delivers [OF raw_send_delivers [OF ok(1)]]] True by (simp add: tcp_send_close_def)
  next
    case (Op_sendv_close as iov)
    then show thesis
      using that inv [where f = "\<lambda>t. then_close (raw_sendv as iov t)", OF then_close_delivers [OF raw_sendv_delivers [OF ok(1)]]] True assms(2) by (simp add: tcp_sendv_close_def)
  next
    case (Op_send_job as)
    then show thesis using that inv [where f = "\<lambda>t. case write_pending_data as t of (ok, t') \<Rightarrow> Ret ok t'", OF on_writable_delivers [OF ok(1)]] True by (simp add: send_job_def)
  next
    case (Op_writable as)
    then show thesis using that inv [where f = "\<lambda>t. case write_pending_data as t of (ok, t') \<Rightarrow> Ret ok t'", OF on_writable_delivers [OF ok(1)]] True
      by (simp add: send_job_def tcp_on_writable_valid)
  qed
next
  case False
  then have "tcp_on_writable as t = Ret True t" for as using assms(1) tcp_on_writable_dead by (simp add: sock_inv_def)
  with False have "op_run a t = Inr (Ret (case a of Op_writable as \<Rightarrow> True | _ \<Rightarrow> False) t)"
    by (cases a) (simp_all add: tcp_send_def tcp_sendv_def tcp_send_close_def tcp_sendv_close_def send_job_def with_fd_def)
  then show thesis using that assms(1) False by (simp add: run_inv_def)
qed

lemma sock_run_inv:
  assumes "sock_inv n t off" "list_all iov_ok ops"
  shows "\<exists>t' off'. sock_run ops t off = Inr (Some (t', off')) \<and> sock_inv n t' off'"
  using assms
proof (induction ops arbitrary: t off)
  case (Cons a ops)
  obtain r where r: "op_run a t = Inr r" "run_inv n (if t_valid t then off @ op_data a else off) r"
    using op_run_inv [OF Cons.prems(1)] Cons.prems(2) by auto
  show ?case
  proof (cases r)
    case Wait
    then show ?thesis using Cons r by simp
  next
    case Undefined
    then show ?thesis using r by (simp add: run_inv_def)
  next
    case (Ret ok t')
    then show ?thesis using Cons r by (simp add: run_inv_def)
  qed
qed simp

text \<open>
  C18: whatever the kernel answers, any sequence of send, sendv, send_close, sendv_close and writable
  events on a new socket keeps the byte stream in order: nothing is lost, repeated or reordered
  between the wire and the buffers, no buffer is taken from an empty list, no buffer leaks, and what reached
  the wire of a socket that failed is a prefix of what was offered.
\<close>

theorem tcp_stream_in_order:
  assumes "tcp_socket_ctor n = Inr t0" "list_all iov_ok ops"
  shows "\<exists>t off. sock_run ops t0 [] = Inr (Some (t, off)) \<and> prefix (t_wire t) off \<and>
    (t_valid t \<longrightarrow> t_wire t @ unsent t = off \<and> t_free_buffers t + length (t_pending t) = n)"
proof -
  have "sock_inv n t0 []"
    using assms(1) by (auto simp: tcp_socket_ctor_def sock_inv_def tcp_ok_def unsent_def split: if_splits)
  from sock_run_inv [OF this assms(2)] show ?thesis by (auto simp: sock_inv_def tcp_ok_def)
qed

definition sample_ops :: "sock_op list" where
  "sample_ops = [Op_send [Sent 1, Send_again] ''abc'', Op_sendv [] [''d'', [], ''e''], Op_writable [Send_intr, Sent 3]]"

theorem tcp_stream_in_order_witness:
  "\<exists>t. sock_run sample_ops \<lparr>t_valid = True, t_free_buffers = 1, t_pending = [], t_tmpbuf = [], t_shutdown = False, t_wire = []\<rparr> [] =
      Inr (Some (t, ''abcde'')) \<and> t_valid t \<and> t_wire t @ unsent t = ''abcde'' \<and> t_free_buffers t + length (t_pending t) = 1"
proof -
  let ?t0 = "\<lparr>t_valid = True, t_free_buffers = 1, t_pending = [], t_tmpbuf = [], t_shutdown = False, t_wire = []\<rparr>"
  have "tcp_socket_ctor 1 = Inr ?t0" by (simp add: tcp_socket_ctor_def MAX_BUFCNT_def)
  moreover have "list_all iov_ok sample_ops" by (simp add: sample_ops_def MAX_IOVCNT_def)
  ultimately obtain t off where t: "sock_run sample_ops ?t0 [] = Inr (Some (t, off))" "prefix (t_wire t) off"
    "t_valid t \<longrightarrow> t_wire t @ unsent t = off \<and> t_free_buffers t + length (t_pending t) = 1"
    using tcp_stream_in_order [of 1 ?t0 sample_ops] by blast
  have "t_valid t \<and> off = ''abcde''"
    using t(1)
    by (auto simp: sample_ops_def tcp_send_def tcp_sendv_def tcp_on_writable_def with_fd_def raw_send_def raw_sendv_def can_send_def
        enqueue_def capacity_def add_buffers.simps fill_iov.simps back_full_def set_back_def SENDBUF_SIZE_def MAX_IOVCNT_def
        write_pending_data_def Let_def)
  with t show ?thesis by auto
qed

end
