(* ===== verification/Replication.thy ===== *)
theory Replication
  imports Hash_Map Response Tcp_Socket
begin

text \<open>
  Models \<^verbatim>\<open>src/memcache/replication.cpp\<close>: what the master sends to its slaves, and how a slave
  applies it.

  A slave socket is a number.  \<^verbatim>\<open>repl_object\<close> reads the object, which marks it as recently used,
  so it returns the object too.  The statistics are the state of the slave's callbacks.
\<close>

section \<open>The master's side\<close>

definition repl_fill_header :: "u16 \<Rightarrow> u8 \<Rightarrow> u32 \<Rightarrow> binary_command \<Rightarrow> string" where
  "repl_fill_header key_len extras_len data_len cmd =
     [CHR 0x80, char_of (byte_of_command cmd)] @ hton key_len @ [char_of (unat extras_len)] @
     replicate 3 (CHR 0x00) @ hton (ucast key_len + ucast extras_len + data_len :: u32) @
     replicate 12 (CHR 0x00)"

definition repl_object_bytes :: "string \<Rightarrow> object \<Rightarrow> string" where
  "repl_object_bytes key ob =
     repl_fill_header (word_of_nat (length key)) 8 (word_of_nat (object_size ob)) Bin_SetQ @
     hton (o_flags ob) @ hton (object_exptime ob) @ key @ fst (object_data ob)"

definition repl_object :: "nat list \<Rightarrow> string \<Rightarrow> object \<Rightarrow> bool \<Rightarrow> event list \<times> object" where
  "repl_object slaves key ob flush =
     (map (\<lambda>s. Send_slave s (repl_object_bytes key ob) flush) slaves, snd (object_data ob))"

definition repl_touch_bytes :: "string \<Rightarrow> object \<Rightarrow> string" where
  "repl_touch_bytes key ob =
     repl_fill_header (word_of_nat (length key)) 4 0 Bin_Touch @ hton (object_exptime ob) @ key"

definition repl_touch :: "nat list \<Rightarrow> string \<Rightarrow> object \<Rightarrow> event list" where
  "repl_touch slaves key ob = map (\<lambda>s. Send_slave s (repl_touch_bytes key ob) True) slaves"

definition repl_delete_bytes :: "string \<Rightarrow> string" where
  "repl_delete_bytes key = repl_fill_header (word_of_nat (length key)) 0 0 Bin_DeleteQ @ key"

definition repl_delete :: "nat list \<Rightarrow> string \<Rightarrow> event list" where
  "repl_delete slaves key = map (\<lambda>s. Send_slave s (repl_delete_bytes key) False) slaves"

section \<open>The slave's side\<close>

definition slave_set_handler :: "cfg \<Rightarrow> binary_request \<Rightarrow> (object, statistics) handler" where
  "slave_set_handler g r k ob st =
     Inr (True, fst (object_set g (br_data r) (br_flags r) (br_exptime r) ob),
          st\<lparr>repl_updated := repl_updated st + 1\<rparr>)"

definition slave_set_creator :: "cfg \<Rightarrow> binary_request \<Rightarrow> (object, statistics) creator" where
  "slave_set_creator g r k st =
     Inr (object_new g (br_data r) (br_flags r) (br_exptime r),
          count_object (st\<lparr>repl_created := repl_created st + 1\<rparr>))"

definition slave_touch_handler :: "binary_request \<Rightarrow> (object, statistics) handler" where
  "slave_touch_handler r k ob st =
     Inr (True, object_touch (br_exptime r) ob, st\<lparr>repl_updated := repl_updated st + 1\<rparr>)"

text \<open>One request; its status is not looked at.\<close>

definition repl_apply ::
  "(string \<Rightarrow> u64) \<Rightarrow> cfg \<Rightarrow> binary_request \<Rightarrow> object hash_map \<Rightarrow> statistics
   \<Rightarrow> exn + (object hash_map \<times> statistics)" where
  "repl_apply hf g r m st =
     (if br_command r = Bin_SetQ then
        bind_res (hash_map_apply hf (br_key r) (Some (slave_set_handler g r)) (Some (slave_set_creator g r)) m st)
          (\<lambda>(_, m', st'). Inr (m', st'))
      else if br_command r = Bin_Touch then
        bind_res (hash_map_apply hf (br_key r) (Some (slave_touch_handler r)) None m st)
          (\<lambda>(_, m', st'). Inr (m', st'))
      else if br_command r = Bin_DeleteQ then
        bind_res (hash_map_remove hf (br_key r) None m (st\<lparr>repl_removed := repl_removed st + 1\<rparr>))
          (\<lambda>(_, m', st'). Inr (m', st'))
      else Inr (m, st))"

function repl_recv ::
  "(string \<Rightarrow> u64) \<Rightarrow> cfg \<Rightarrow> time_t \<Rightarrow> string \<Rightarrow> object hash_map \<Rightarrow> statistics
   \<Rightarrow> exn + (nat \<times> object hash_map \<times> statistics)" where
  "repl_recv hf g now p m st =
     (if p = [] then Inr (0, m, st)
      else if \<not> is_binary_request p then Inl (Runtime_error ''Invalid replication data'')
      else
        (let r = parse_binary now p; n = br_length r
         in if n = 0 then Inr (0, m, st)
            else
              (case repl_apply hf g r m st of
                 Inl e \<Rightarrow> Inl e
               | Inr (m', st') \<Rightarrow>
                   bind_res (repl_recv hf g now (drop n p) m' st')
                     (\<lambda>(c, m'', st''). Inr (n + c, m'', st'')))))"
  by pat_completeness auto
termination
  by (relation "measure (\<lambda>(hf, g, now, p, m, st). length p)") auto

declare repl_recv.simps [simp del]

text \<open>
  \<^verbatim>\<open>repl_client_socket::on_readable\<close>: the answers of \<^verbatim>\<open>recv\<close> are an argument, and the contents of the
  receive buffer are a string.  The loop gives up after 50 rounds and asks to be called again;
  it also ends when the answers are exhausted, which is a \<^verbatim>\<open>recv\<close> that would block.
\<close>

datatype readable_result = Keep_open | Call_again | Master_lost

definition MAX_ITER :: nat where "MAX_ITER = 50"

fun repl_client_loop ::
  "(string \<Rightarrow> u64) \<Rightarrow> cfg \<Rightarrow> time_t \<Rightarrow> recv_answer list \<Rightarrow> nat \<Rightarrow> string \<Rightarrow> object hash_map \<Rightarrow> statistics
   \<Rightarrow> exn + (readable_result \<times> string \<times> object hash_map \<times> statistics)" where
  "repl_client_loop hf g now [] n_iter buf m st = Inr (Keep_open, buf, m, st)"
| "repl_client_loop hf g now (a # as) n_iter buf m st =
     (case a of
        Recv_again \<Rightarrow> Inr (Keep_open, buf, m, st)
      | Recv_intr \<Rightarrow> repl_client_loop hf g now as n_iter buf m st
      | Recv_reset \<Rightarrow> Inr (Master_lost, buf, m, st)
      | Recv_error \<Rightarrow> Inl (Runtime_error ''recv'')
      | Recv_data d \<Rightarrow>
          (if d = [] then Inr (Master_lost, buf, m, st)
           else
             bind_res (repl_recv hf g now (buf @ d) m st) (\<lambda>(c, m', st').
               if n_iter + 1 \<ge> MAX_ITER then Inr (Call_again, drop c (buf @ d), m', st')
               else repl_client_loop hf g now as (n_iter + 1) (drop c (buf @ d)) m' st')))"

definition repl_client_on_readable where
  "repl_client_on_readable hf g now as buf m st = repl_client_loop hf g now as 0 buf m st"

section \<open>Reception in pieces\<close>

lemma repl_recv_simps:
  "repl_recv hf g now [] m st = Inr (0, m, st)"
  "p \<noteq> [] \<Longrightarrow> \<not> is_binary_request p \<Longrightarrow>
     repl_recv hf g now p m st = Inl (Runtime_error ''Invalid replication data'')"
  "p \<noteq> [] \<Longrightarrow> is_binary_request p \<Longrightarrow> br_length (parse_binary now p) = 0 \<Longrightarrow>
     repl_recv hf g now p m st = Inr (0, m, st)"
  "p \<noteq> [] \<Longrightarrow> is_binary_request p \<Longrightarrow> br_length (parse_binary now p) \<noteq> 0 \<Longrightarrow>
     repl_recv hf g now p m st =
       bind_res (repl_apply hf g (parse_binary now p) m st) (\<lambda>(m', st').
       bind_res (repl_recv hf g now (drop (br_length (parse_binary now p)) p) m' st')
         (\<lambda>(c, m'', st''). Inr (br_length (parse_binary now p) + c, m'', st'')))"
  by (subst repl_recv.simps; simp add: Let_def bind_res_def split: sum.split)+

lemma br_length_le: "br_length (parse_binary now p) \<le> length p"
  by (simp add: br_length_parse Let_def)

lemma repl_recv_append:
  "repl_recv hf g now (p @ q) m st =
     bind_res (repl_recv hf g now p m st) (\<lambda>(c, m', st').
     bind_res (repl_recv hf g now (drop c p @ q) m' st')
       (\<lambda>(d, m'', st''). Inr (c + d, m'', st'')))"
proof (induction p arbitrary: m st rule: length_induct)
  case (1 p)
  let ?r = "parse_binary now p"
  consider "p = []" | "p \<noteq> []" "\<not> is_binary_request p" | "p \<noteq> []" "is_binary_request p" "br_length ?r = 0"
    | "p \<noteq> []" "is_binary_request p" "br_length ?r \<noteq> 0" by blast
  then show ?case
  proof cases
    case 1
    then show ?thesis
      by (cases "repl_recv hf g now q m st") (auto simp: repl_recv_simps(1))
  next
    case 2
    then have "\<not> is_binary_request (p @ q)" by (simp add: is_binary_request_def)
    with 2 show ?thesis by (simp add: repl_recv_simps(2))
  next
    case 3
    then show ?thesis
      by (cases "repl_recv hf g now (p @ q) m st") (auto simp: repl_recv_simps(3))
  next
    case 4
    have b: "is_binary_request (p @ q)" using 4 by (simp add: is_binary_request_def)
    have pq: "parse_binary now (p @ q) = ?r" by (rule parse_binary_append [OF 4(3)])
    have z: "br_length ?r - length p = 0" using br_length_le [of now p] by simp
    have "length (drop (br_length ?r) p) < length p" using 4 by simp
    note IH = "1.IH" [rule_format, OF this]
    show ?thesis
    proof (cases "repl_apply hf g ?r m st")
      case (Inl e)
      with 4 b show ?thesis by (simp add: repl_recv_simps(4) pq)
    next
      case (Inr x)
      obtain m1 st1 where x: "x = (m1, st1)" by (cases x)
      show ?thesis
      proof (cases "repl_recv hf g now (drop (br_length ?r) p) m1 st1")
        case (Inl e)
        with Inr x 4 b IH [of m1 st1] show ?thesis by (simp add: repl_recv_simps(4) pq z)
      next
        case (Inr y)
        obtain c m2 st2 where y: "y = (c, m2, st2)" by (cases y)
        show ?thesis
          using Inr y \<open>repl_apply hf g ?r m st = Inr x\<close> x 4 b IH [of m1 st1]
          by (cases "repl_recv hf g now (drop (c + br_length ?r) p @ q) m2 st2")
            (auto simp: repl_recv_simps(4) pq z add.assoc add.commute)
      qed
    qed
  qed
qed

lemma repl_recv_rest:
  assumes "repl_recv hf g now p m st = Inr (c, m', st')"
  shows "repl_recv hf g now (drop c p) m' st' = Inr (0, m', st')"
  using repl_recv_append [of hf g now p "[]" m st] assms
  by (cases "repl_recv hf g now (drop c p) m' st'") auto

lemma repl_recv_le: "repl_recv hf g now p m st = Inr (c, m', st') \<Longrightarrow> c \<le> length p"
proof (induction p arbitrary: m st c rule: length_induct)
  case (1 p)
  let ?r = "parse_binary now p"
  show ?case
  proof (cases "p \<noteq> [] \<and> is_binary_request p \<and> br_length ?r \<noteq> 0")
    case True
    with "1.prems" obtain m1 st1 d where
      "repl_recv hf g now (drop (br_length ?r) p) m1 st1 = Inr (d, m', st')" "c = br_length ?r + d"
      by (auto simp: repl_recv_simps(4))
    with "1.IH" [rule_format, of "drop (br_length ?r) p" m1 st1 d] True br_length_le [of now p]
    show ?thesis by auto
  next
    case False
    with "1.prems" show ?thesis by (cases "p = []"; cases "is_binary_request p") (auto simp: repl_recv_simps)
  qed
qed

lemma repl_client_loop_pieces:
  assumes "repl_recv hf g now buf m st = Inr (0, m, st)" "n + length ds < MAX_ITER" "list_all (\<lambda>d. d \<noteq> []) ds"
  shows "repl_client_loop hf g now (concat (map (\<lambda>d. [Recv_intr, Recv_data d]) ds)) n buf m st =
    bind_res (repl_recv hf g now (buf @ concat ds) m st) (\<lambda>(c, m', st').
      Inr (Keep_open, drop c (buf @ concat ds), m', st'))"
  using assms
proof (induction ds arbitrary: n buf m st)
  case Nil
  then show ?case by simp
next
  case (Cons d ds)
  have app: "repl_recv hf g now (buf @ d @ concat ds) m st =
     bind_res (repl_recv hf g now (buf @ d) m st) (\<lambda>(c, m', st').
     bind_res (repl_recv hf g now (drop c (buf @ d) @ concat ds) m' st')
       (\<lambda>(e, m'', st''). Inr (c + e, m'', st'')))"
    using repl_recv_append [of hf g now "buf @ d" "concat ds" m st] by simp
  show ?case
  proof (cases "repl_recv hf g now (buf @ d) m st")
    case (Inl e)
    with Cons.prems app show ?thesis by simp
  next
    case (Inr x)
    obtain c m1 st1 where x: "x = (c, m1, st1)" by (cases x)
    note rest = repl_recv_rest [OF Inr [unfolded x]] and le = repl_recv_le [OF Inr [unfolded x]]
    have IH: "repl_client_loop hf g now (concat (map (\<lambda>d. [Recv_intr, Recv_data d]) ds)) (n + 1)
        (drop c (buf @ d)) m1 st1 =
      bind_res (repl_recv hf g now (drop c (buf @ d) @ concat ds) m1 st1) (\<lambda>(c', m', st').
        Inr (Keep_open, drop c' (drop c (buf @ d) @ concat ds), m', st'))"
      by (rule Cons.IH [OF rest]) (use Cons.prems in simp_all)
    have "drop c ((buf @ d) @ concat ds) = drop c (buf @ d) @ concat ds" using le by (subst drop_append) simp
    then have dd: "drop (c + e) (buf @ d @ concat ds) = drop e (drop c (buf @ d) @ concat ds)" for e
      by (simp only: append_assoc [symmetric] drop_drop [symmetric] add.commute [of c])
    show ?thesis
      using Cons.prems Inr x IH app dd
      by (cases "repl_recv hf g now (drop c (buf @ d) @ concat ds) m1 st1") (auto simp del: drop_append)
  qed
qed



section \<open>The stream is made of frames\<close>

lemma be_bytes_0: "be_bytes n 0 = replicate n (CHR 0x00)"
  by (induction n) (simp_all add: replicate_append_same char_of_def)

lemma hton_0: "hton (0 :: u16) = replicate 2 (CHR 0x00)" "hton (0 :: u64) = replicate 8 (CHR 0x00)"
  by (simp_all add: hton_def be_bytes_0)

lemma ucast_key_len: "k < 65536 \<Longrightarrow> (ucast (word_of_nat k :: u16) :: u32) = word_of_nat k"
  by (simp add: word_eq_iff_unsigned unsigned_ucast_eq unsigned_of_nat take_bit_nat_eq_self)

lemma repl_fill_header_frame:
  assumes "length key \<le> MAX_KEY_LENGTH" "e < 256"
  shows "repl_fill_header (word_of_nat (length key)) (word_of_nat e) (word_of_nat d) c =
    frame_header (byte_of_command c) (length key) e (e + length key + d) (replicate 4 (CHR 0x00)) 0"
proof -
  have k: "length key < 65536" using assms(1) by (simp add: MAX_KEY_LENGTH_def)
  have e: "unat (word_of_nat e :: u8) = e" "(ucast (word_of_nat e :: u8) :: u32) = word_of_nat e"
    using assms(2) by (simp_all add: unat_of_nat word_eq_iff_unsigned unsigned_ucast_eq unsigned_of_nat take_bit_nat_eq_self)
  have sum: "ucast (word_of_nat (length key) :: u16) + ucast (word_of_nat e :: u8) + (word_of_nat d :: u32) =
      word_of_nat (e + length key + d)"
    by (simp add: ucast_key_len [OF k] e)
  have rep: "replicate 12 x = replicate 4 x @ replicate 8 x" "replicate 3 x = x # replicate 2 x" for x :: char
    by (simp_all add: replicate_add [symmetric] numeral_eq_Suc)
  show ?thesis
    unfolding repl_fill_header_def frame_header_def sum unfolding e(1) rep hton_0 by simp
qed

text \<open>One replicated change, its bytes, and what it does to the values a slave holds.\<close>

datatype repl_op = R_set string object | R_touch string object | R_delete string

primrec repl_bytes :: "repl_op \<Rightarrow> string" where
  "repl_bytes (R_set k ob) = repl_object_bytes k ob"
| "repl_bytes (R_touch k ob) = repl_touch_bytes k ob"
| "repl_bytes (R_delete k) = repl_delete_bytes k"

type_synonym view = "string \<times> u32 \<times> time_t"

definition view :: "object \<Rightarrow> view" where
  "view ob = (contents ob, o_flags ob, o_exptime ob)"

definition views :: "(string \<Rightarrow> u64) \<Rightarrow> object hash_map \<Rightarrow> string \<rightharpoonup> view" where
  "views hf m k = map_option view (hm_lookup hf m k)"

primrec effect :: "repl_op \<Rightarrow> (string \<rightharpoonup> view) \<Rightarrow> (string \<rightharpoonup> view)" where
  "effect (R_set k ob) V = V(k \<mapsto> view ob)"
| "effect (R_touch k ob) V = V(k := map_option (\<lambda>(d, f, _). (d, f, o_exptime ob)) (V k))"
| "effect (R_delete k) V = V(k := None)"

text \<open>
  An expiration time that survives the trip: none, or an absolute time, later than 30 days
  after the epoch, that fits into 32 bits and is not the reserved value.
\<close>

definition stable_exptime :: "time_t \<Rightarrow> bool" where
  "stable_exptime t \<longleftrightarrow> t = 0 \<or> int EXPTIME_THRESHOLD < t \<and> t < 2 ^ 32 - 1"

definition good_repl_key :: "string \<Rightarrow> bool" where
  "good_repl_key k \<longleftrightarrow> 0 < length k \<and> length k \<le> MAX_KEY_LENGTH"

primrec repl_op_ok :: "cfg \<Rightarrow> repl_op \<Rightarrow> bool" where
  "repl_op_ok g (R_set k ob) \<longleftrightarrow>
     good_repl_key k \<and> object_ok g ob \<and> 0 < length (contents ob) \<and> length (contents ob) \<le> MAX_REQUEST_LENGTH \<and>
     stable_exptime (o_exptime ob)"
| "repl_op_ok g (R_touch k ob) \<longleftrightarrow> good_repl_key k \<and> stable_exptime (o_exptime ob)"
| "repl_op_ok g (R_delete k) \<longleftrightarrow> good_repl_key k"

lemma binary_exptime_stable:
  assumes "stable_exptime (o_exptime ob)"
  shows "binary_exptime now (hton (object_exptime ob) @ s) = o_exptime ob"
proof -
  have nat_range: "int n = 0 \<or> int l < int n \<and> int n < 2 ^ 32 - 1 \<Longrightarrow> n = 0 \<or> l < n \<and> n < 2 ^ 32 - 1" for l n
    by auto
  define w :: u32 where "w = object_exptime ob"
  have "uint w = o_exptime ob"
    using assms unfolding w_def
    by (auto simp: object_exptime_def stable_exptime_def EXPTIME_THRESHOLD_def unsigned_of_int take_bit_int_eq_self_iff)
  then have u: "o_exptime ob = int (unat w)" by simp
  have "unat w = 0 \<or> EXPTIME_THRESHOLD < unat w \<and> unat w < 2 ^ 32 - 1"
    using assms unfolding stable_exptime_def u by (rule nat_range)
  then have "w = 0 \<or> EXPTIME_THRESHOLD < unat w \<and> w \<noteq> 0 \<and> w \<noteq> 0xffffffff" by (auto simp: unat_eq_zero)
  then show ?thesis
    unfolding u w_def [symmetric] by (auto simp: binary_exptime_def Let_def)
qed

lemma repl_set_frame:
  assumes "repl_op_ok g (R_set k ob)"
  shows "repl_object_bytes k ob =
    bin_frame Bin_SetQ (hton (o_flags ob) @ hton (object_exptime ob)) k (contents ob) (replicate 4 (CHR 0x00)) 0"
  using assms repl_fill_header_frame [of k 8 "length (contents ob)" Bin_SetQ]
  by (simp add: repl_object_bytes_def bin_frame_def good_repl_key_def object_size_contents [of g] object_data_eq)

lemma repl_touch_frame:
  assumes "good_repl_key k"
  shows "repl_touch_bytes k ob = bin_frame Bin_Touch (hton (object_exptime ob)) k [] (replicate 4 (CHR 0x00)) 0"
  using assms repl_fill_header_frame [of k 4 0 Bin_Touch]
  by (simp add: repl_touch_bytes_def bin_frame_def good_repl_key_def)

lemma repl_delete_frame:
  assumes "good_repl_key k"
  shows "repl_delete_bytes k = bin_frame Bin_DeleteQ [] k [] (replicate 4 (CHR 0x00)) 0"
  using assms repl_fill_header_frame [of k 0 0 Bin_DeleteQ]
  by (simp add: repl_delete_bytes_def bin_frame_def good_repl_key_def)

lemma repl_enumerators: "is_enumerator Bin_SetQ" "is_enumerator Bin_Touch" "is_enumerator Bin_DeleteQ"
  by (simp_all add: is_enumerator_def command_table_def)

lemma repl_groups:
  "Bin_SetQ \<notin> get_cmds" "Bin_SetQ \<in> store_cmds"
  "Bin_Touch \<notin> get_cmds" "Bin_Touch \<notin> store_cmds" "Bin_Touch \<notin> rau_cmds" "Bin_Touch \<notin> delete_cmds"
  "Bin_Touch \<notin> incdec_cmds"
  "Bin_DeleteQ \<notin> get_cmds" "Bin_DeleteQ \<notin> store_cmds" "Bin_DeleteQ \<notin> rau_cmds" "Bin_DeleteQ \<in> delete_cmds"
  by (simp_all add: get_cmds_def store_cmds_def rau_cmds_def delete_cmds_def incdec_cmds_def)

lemma repl_distinct: "(Bin_Touch = Bin_SetQ) = False" "(Bin_DeleteQ = Bin_SetQ) = False" "(Bin_DeleteQ = Bin_Touch) = False"
  by simp_all

lemma frame_request_simps [simp]:
  "br_command (frame_request c x k d q cas) = c" "br_key (frame_request c x k d q cas) = k"
  "br_data (frame_request c x k d q cas) = d"
  "br_length (frame_request c x k d q cas) = 24 + (length x + length k + length d)"
  by (simp_all add: frame_request_def)

lemma length_bin_frame: "length q = 4 \<Longrightarrow> length (bin_frame c x k d q cas) = 24 + (length x + length k + length d)"
  by (simp add: bin_frame_def length_frame_header)

lemma bin_frame_start: "bin_frame c x k d q cas \<noteq> []" "is_binary_request (bin_frame c x k d q cas @ s)"
  by (simp_all add: bin_frame_def frame_header_def is_binary_request_def)

text \<open>What the slave's parser makes of a replicated change.\<close>

definition repl_parsed :: "time_t \<Rightarrow> repl_op \<Rightarrow> binary_request \<Rightarrow> bool" where
  "repl_parsed now a r \<longleftrightarrow>
     br_length r = length (repl_bytes a) \<and>
     (case a of
        R_set k ob \<Rightarrow> br_command r = Bin_SetQ \<and> br_key r = k \<and> br_data r = contents ob \<and>
          br_flags r = o_flags ob \<and> br_exptime r = o_exptime ob
      | R_touch k ob \<Rightarrow> br_command r = Bin_Touch \<and> br_key r = k \<and> br_exptime r = o_exptime ob
      | R_delete k \<Rightarrow> br_command r = Bin_DeleteQ \<and> br_key r = k)"

lemma parse_repl_bytes:
  assumes "repl_op_ok g a"
  shows "repl_parsed now a (parse_binary now (repl_bytes a @ s)) \<and> repl_bytes a \<noteq> [] \<and>
    is_binary_request (repl_bytes a @ s)"
proof (cases a)
  case (R_set k ob)
  have ok: "0 < length k" "length k \<le> MAX_KEY_LENGTH" "0 < length (contents ob)"
    "length (contents ob) \<le> MAX_REQUEST_LENGTH" "stable_exptime (o_exptime ob)"
    using assms by (simp_all add: R_set good_repl_key_def)
  note f = repl_set_frame [OF assms [unfolded R_set]]
  show ?thesis
    using ok parse_bin_frame [OF repl_enumerators(1), of "replicate 4 (CHR 0x00)"
        "hton (o_flags ob) @ hton (object_exptime ob)" k "contents ob" now 0 s]
    by (simp add: R_set f repl_parsed_def bin_frame_start length_bin_frame parse_command_def Let_def repl_groups
        binary_exptime_stable)
next
  case (R_touch k ob)
  have ok: "0 < length k" "length k \<le> MAX_KEY_LENGTH" "stable_exptime (o_exptime ob)"
    using assms by (simp_all add: R_touch good_repl_key_def)
  have f: "repl_touch_bytes k ob = bin_frame Bin_Touch (hton (object_exptime ob)) k [] (replicate 4 (CHR 0x00)) 0"
    using repl_touch_frame assms by (simp add: R_touch)
  show ?thesis
    using ok parse_bin_frame [OF repl_enumerators(2), of "replicate 4 (CHR 0x00)"
        "hton (object_exptime ob)" k "[]" now 0 s]
    by (simp add: R_touch f repl_parsed_def bin_frame_start length_bin_frame parse_command_def Let_def repl_groups
        binary_exptime_stable)
next
  case (R_delete k)
  have ok: "0 < length k" "length k \<le> MAX_KEY_LENGTH" using assms by (simp_all add: R_delete good_repl_key_def)
  have f: "repl_delete_bytes k = bin_frame Bin_DeleteQ [] k [] (replicate 4 (CHR 0x00)) 0"
    using repl_delete_frame assms by (simp add: R_delete)
  show ?thesis
    using ok parse_bin_frame [OF repl_enumerators(3), of "replicate 4 (CHR 0x00)" "[]" k "[]" now 0 s]
    by (simp add: R_delete f repl_parsed_def bin_frame_start length_bin_frame parse_command_def Let_def repl_groups)
qed

section \<open>A slave follows the stream\<close>

definition store_ok :: "(string \<Rightarrow> u64) \<Rightarrow> cfg \<Rightarrow> object hash_map \<Rightarrow> bool" where
  "store_ok hf g m \<longleftrightarrow> hm_invar hf m \<and> (\<forall>k ob. hm_lookup hf m k = Some ob \<longrightarrow> object_ok g ob)"

lemma view_set: "object_ok g ob \<Longrightarrow> view (fst (object_set g p fl t ob)) = (p, fl, t)"
  by (simp add: view_def object_set_ok object_fields)

lemma view_new: "view (object_new g p fl t) = (p, fl, t)"
  by (simp add: view_def object_new_ok) (simp add: object_new_def Let_def)

lemma object_touch_simps [simp]:
  "object_ok g (object_touch t ob) = object_ok g ob" "contents (object_touch t ob) = contents ob"
  "o_flags (object_touch t ob) = o_flags ob" "o_exptime (object_touch t ob) = t"
  "o_cas (object_touch t ob) = o_cas ob" "o_lock (object_touch t ob) = o_lock ob"
  by (simp_all add: object_touch_def)

lemma repl_apply_effect:
  assumes ok: "store_ok hf g m" and r: "repl_parsed now a r"
  shows "\<exists>m' st'. repl_apply hf g r m st = Inr (m', st') \<and> store_ok hf g m' \<and> views hf m' = effect a (views hf m)"
proof -
  have inv: "hm_invar hf m" and all: "\<And>k ob. hm_lookup hf m k = Some ob \<Longrightarrow> object_ok g ob"
    using ok by (simp_all add: store_ok_def)
  have result: ?thesis
    if "repl_apply hf g r m st = Inr (m', st')" "hm_invar hf m'" "hm_lookup hf m' = M"
      "\<And>k ob. M k = Some ob \<Longrightarrow> object_ok g ob" "\<And>k. map_option view (M k) = effect a (views hf m) k" for m' st' M
    using that by (auto simp: store_ok_def views_def)
  show ?thesis
  proof (cases a)
    case (R_set k ob)
    have r: "br_command r = Bin_SetQ" "br_key r = k" "br_data r = contents ob" "br_flags r = o_flags ob"
      "br_exptime r = o_exptime ob" using assms(2) by (simp_all add: R_set repl_parsed_def)
    define ob' where "ob' = (case hm_lookup hf m k of
        None \<Rightarrow> object_new g (contents ob) (o_flags ob) (o_exptime ob)
      | Some o1 \<Rightarrow> fst (object_set g (contents ob) (o_flags ob) (o_exptime ob) o1))"
    have "\<exists>b st'. map_apply k (Some (slave_set_handler g r)) (Some (slave_set_creator g r)) (hm_lookup hf m) st =
        Inr (b, (hm_lookup hf m)(k \<mapsto> ob'), st')"
      by (cases "hm_lookup hf m k")
        (auto simp: ob'_def map_apply_def slave_set_handler_def slave_set_creator_def r)
    moreover have "object_ok g ob' \<and> view ob' = (contents ob, o_flags ob, o_exptime ob)"
      using all [of k] view_set [of g _ "contents ob" "o_flags ob" "o_exptime ob"]
        object_set_ok [of g _ "contents ob" "o_flags ob" "o_exptime ob"]
      by (cases "hm_lookup hf m k") (simp_all add: ob'_def view_new object_new_ok)
    then have "object_ok g ob'" "view ob' = view ob" by (simp_all add: view_def [of ob])
    ultimately obtain b st' where ob': "map_apply k (Some (slave_set_handler g r)) (Some (slave_set_creator g r))
        (hm_lookup hf m) st = Inr (b, (hm_lookup hf m)(k \<mapsto> ob'), st')" "object_ok g ob'" "view ob' = view ob"
      by blast
    from hm.apply_InrI [OF inv ob'(1)] obtain m' where
      m': "hash_map_apply hf k (Some (slave_set_handler g r)) (Some (slave_set_creator g r)) m st = Inr (b, m', st')"
      "hm_lookup hf m' = (hm_lookup hf m)(k \<mapsto> ob')" "hm_invar hf m'" by blast
    show ?thesis
      by (rule result [OF _ m'(3,2), of st'])
        (use ob' m'(1) all in \<open>auto simp: repl_apply_def r R_set views_def split: if_splits\<close>)
  next
    case (R_touch k ob)
    have r: "br_command r = Bin_Touch" "br_key r = k" "br_exptime r = o_exptime ob"
      using assms(2) by (simp_all add: R_touch repl_parsed_def)
    let ?M = "(hm_lookup hf m)(k := map_option (object_touch (o_exptime ob)) (hm_lookup hf m k))"
    have "\<exists>b st'. map_apply k (Some (slave_touch_handler r)) None (hm_lookup hf m) st = Inr (b, ?M, st')"
      by (cases "hm_lookup hf m k") (auto simp: map_apply_def slave_touch_handler_def r)
    then obtain b st' where M: "map_apply k (Some (slave_touch_handler r)) None (hm_lookup hf m) st = Inr (b, ?M, st')"
      by blast
    from hm.apply_InrI [OF inv M] obtain m' where
      m': "hash_map_apply hf k (Some (slave_touch_handler r)) None m st = Inr (b, m', st')"
      "hm_lookup hf m' = ?M" "hm_invar hf m'" by blast
    show ?thesis
      by (rule result [OF _ m'(3,2), of st'])
        (use m'(1) all in \<open>auto simp: repl_apply_def r repl_distinct R_touch views_def view_def option.map_comp comp_def
           split: if_splits\<close>)
  next
    case (R_delete k)
    have r: "br_command r = Bin_DeleteQ" "br_key r = k" using assms(2) by (simp_all add: R_delete repl_parsed_def)
    let ?st = "st\<lparr>repl_removed := repl_removed st + 1\<rparr>"
    have "\<exists>b. map_remove k None (hm_lookup hf m) ?st = Inr (b, (hm_lookup hf m)(k := None), ?st)"
      by (auto simp: map_remove_def fun_upd_idem)
    then obtain b m' where m': "hash_map_remove hf k None m ?st = Inr (b, m', ?st)"
      "hm_lookup hf m' = (hm_lookup hf m)(k := None)"
      using hm.remove_map [OF inv, of k None ?st] by (auto simp: abs_res_eq_Inr)
    show ?thesis
      by (rule result [OF _ hm.remove_invar [OF inv m'(1)] m'(2), of ?st])
        (use m'(1) all in \<open>auto simp: repl_apply_def r repl_distinct R_delete views_def split: if_splits\<close>)
  qed
qed

lemma repl_recv_op:
  assumes "store_ok hf g m" "repl_op_ok g' a"
  shows "\<exists>m' st'. store_ok hf g m' \<and> views hf m' = effect a (views hf m) \<and>
    repl_recv hf g now (repl_bytes a @ s) m st =
      bind_res (repl_recv hf g now s m' st') (\<lambda>(c, m'', st''). Inr (length (repl_bytes a) + c, m'', st''))"
proof -
  let ?r = "parse_binary now (repl_bytes a @ s)"
  have p: "repl_parsed now a ?r" "repl_bytes a \<noteq> []" "is_binary_request (repl_bytes a @ s)"
    using parse_repl_bytes [OF assms(2)] by simp_all
  then have len: "br_length ?r = length (repl_bytes a)" by (simp add: repl_parsed_def)
  from repl_apply_effect [OF assms(1) p(1)] obtain m' st' where
    "repl_apply hf g ?r m st = Inr (m', st')" "store_ok hf g m'" "views hf m' = effect a (views hf m)" by blast
  then show ?thesis using p len by (auto simp: repl_recv_simps(4))
qed

lemma repl_recv_ops:
  assumes "store_ok hf g m" "list_all (repl_op_ok g') ops"
  shows "\<exists>m' st'. repl_recv hf g now (concat (map repl_bytes ops)) m st =
      Inr (length (concat (map repl_bytes ops)), m', st') \<and>
    store_ok hf g m' \<and> views hf m' = fold effect ops (views hf m)"
  using assms
proof (induction ops arbitrary: m st)
  case Nil
  then show ?case by (simp add: repl_recv_simps(1))
next
  case (Cons a ops)
  then obtain m1 st1 where m1: "store_ok hf g m1" "views hf m1 = effect a (views hf m)"
    "repl_recv hf g now (repl_bytes a @ concat (map repl_bytes ops)) m st =
      bind_res (repl_recv hf g now (concat (map repl_bytes ops)) m1 st1)
        (\<lambda>(c, m'', st''). Inr (length (repl_bytes a) + c, m'', st''))"
    using repl_recv_op [of hf g m g' a now "concat (map repl_bytes ops)" st] by auto
  from Cons.IH [OF m1(1), of st1] Cons.prems(2) m1(2,3) show ?case by auto
qed



text \<open>
  C31: an empty object does not survive replication.  The master sends it like any other object, but the
  slave's parser takes a storage request without data for invalid before it reads the flags and the
  expiration time, and the slave does not look at the verdict: it stores the object with neither.
\<close>

theorem repl_empty_object:
  assumes "store_ok hf g m" "good_repl_key k" "object_ok g' ob" "contents ob = []"
  shows "\<exists>m' st'. repl_recv hf g now (repl_object_bytes k ob) m st =
      Inr (length (repl_object_bytes k ob), m', st') \<and> views hf m' k = Some ([], 0, 0)"
proof -
  have f: "repl_object_bytes k ob =
      bin_frame Bin_SetQ (hton (o_flags ob) @ hton (object_exptime ob)) k [] (replicate 4 (CHR 0x00)) 0"
    using assms(2-4) repl_fill_header_frame [of k 8 0 Bin_SetQ]
    by (simp add: repl_object_bytes_def bin_frame_def good_repl_key_def object_size_contents [of g'] object_data_eq)
  let ?r = "parse_binary now (repl_object_bytes k ob)"
  have r: "?r = frame_request Bin_SetQ (hton (o_flags ob) @ hton (object_exptime ob)) k [] (replicate 4 (CHR 0x00)) 0"
    using assms(2) parse_bin_frame [OF repl_enumerators(1), of "replicate 4 (CHR 0x00)"
        "hton (o_flags ob) @ hton (object_exptime ob)" k "[]" now 0 "[]"]
    by (simp add: f good_repl_key_def parse_command_def Let_def repl_groups)
  have len: "br_length ?r = length (repl_object_bytes k ob)" "repl_object_bytes k ob \<noteq> []"
    "is_binary_request (repl_object_bytes k ob)"
    using bin_frame_start(2) [of _ _ _ _ _ _ "[]"] by (simp_all add: r) (simp_all add: f length_bin_frame bin_frame_start)
  define e :: object where "e = object_new g [] 0 0"
  have "repl_parsed now (R_set k e) (?r\<lparr>br_length := length (repl_object_bytes k e)\<rparr>)"
    by (simp add: repl_parsed_def r e_def object_new_ok) (simp add: object_new_def Let_def frame_request_def binary_request_init_def)
  from repl_apply_effect [OF assms(1) this, of st] obtain m' st' where
    "repl_apply hf g (?r\<lparr>br_length := length (repl_object_bytes k e)\<rparr>) m st = Inr (m', st')"
    "views hf m' = effect (R_set k e) (views hf m)" by blast
  moreover have "repl_apply hf g (?r\<lparr>br_length := n\<rparr>) m st = repl_apply hf g ?r m st" for n
    by (simp add: repl_apply_def slave_set_handler_def [abs_def] slave_set_creator_def [abs_def]
        slave_touch_handler_def [abs_def])
  ultimately have "repl_apply hf g ?r m st = Inr (m', st')" "views hf m' k = Some ([], 0, 0)"
    by (simp_all add: e_def view_new)
  then show ?thesis using len by (auto simp: repl_recv_simps)
qed

theorem repl_empty_object_witness:
  "\<exists>m' st'. repl_recv (\<lambda>_. 0) sample_cfg 9 (repl_object_bytes ''k'' (object_new sample_cfg [] 7 4000000)) (hash_map_ctor 1)
       statistics_reset =
     Inr (length (repl_object_bytes ''k'' (object_new sample_cfg [] 7 4000000)), m', st') \<and>
     views (\<lambda>_. 0) m' ''k'' = Some ([], 0, 0) \<and> view (object_new sample_cfg [] 7 4000000) = ([], 7, 4000000)"
proof -
  have "store_ok (\<lambda>_. 0) sample_cfg (hash_map_ctor 1)"
    by (simp add: store_ok_def hm_invar_ctor hm_lookup_ctor)
  from repl_empty_object [OF this _ object_new_ok(1) [of sample_cfg "[]" 7 4000000], of "''k''" 9 statistics_reset] show ?thesis
    by (simp add: good_repl_key_def MAX_KEY_LENGTH_def object_new_ok view_new)
qed

end
