(* ===== verification/Memcache_Socket.thy ===== *)
theory Memcache_Socket
  imports Replication
begin

text \<open>
  Models the execution of binary requests by \<^verbatim>\<open>memcache_socket\<close> in \<^verbatim>\<open>src/memcache/sockets.cpp\<close> and
  \<^verbatim>\<open>sockets.hpp\<close>.  Text requests are in the theory \<open>Memcache_Text\<close>.

  The environment of a request is what does not change while it runs: the configuration, the
  time, the lock context (the file descriptor of the connection), the slaves copied when the
  connection became readable, and what the operating system reports.  The callbacks given to
  the hash map work on the state \<open>mstate\<close>: the statistics, the list of locks of the connection, the
  calls made on sockets so far, and the threshold of the logger.
\<close>

record menv =
  e_cfg :: cfg
  e_now :: time_t
  e_ctx :: int
  e_slaves :: "nat list"
  e_host :: host
  e_stale :: bool
  e_beyond :: string

record mstate =
  ms_stats :: statistics
  ms_locks :: "string list"
  ms_outs :: "event list"
  ms_threshold :: severity

type_synonym exec = "object hash_map \<Rightarrow> mstate \<Rightarrow> exn + (object hash_map \<times> mstate)"

section \<open>Helpers\<close>

definition emit :: "event list \<Rightarrow> mstate \<Rightarrow> mstate" where
  "emit evs s = s\<lparr>ms_outs := ms_outs s @ evs\<rparr>"

definition reply_if :: "bool \<Rightarrow> event list \<Rightarrow> mstate \<Rightarrow> mstate" where
  "reply_if b evs s = (if b then emit evs s else s)"

definition upd_stats :: "(statistics \<Rightarrow> statistics) \<Rightarrow> mstate \<Rightarrow> mstate" where
  "upd_stats f s = s\<lparr>ms_stats := f (ms_stats s)\<rparr>"

definition inc_get_hits where "inc_get_hits st = st\<lparr>get_hits := get_hits st + 1\<rparr>"
definition inc_get_misses where "inc_get_misses st = st\<lparr>get_misses := get_misses st + 1\<rparr>"
definition inc_cas_hits where "inc_cas_hits st = st\<lparr>cas_hits := cas_hits st + 1\<rparr>"
definition inc_cas_misses where "inc_cas_misses st = st\<lparr>cas_misses := cas_misses st + 1\<rparr>"
definition inc_cas_badval where "inc_cas_badval st = st\<lparr>cas_badval := cas_badval st + 1\<rparr>"

definition obj_expired :: "menv \<Rightarrow> mstate \<Rightarrow> object \<Rightarrow> bool" where
  "obj_expired e s ob = object_expired (flush_time (ms_stats s)) (e_now e) ob"

text \<open>The three calls that replicate a change, made only when there are slaves.\<close>

definition do_repl_object :: "menv \<Rightarrow> string \<Rightarrow> object \<Rightarrow> mstate \<Rightarrow> object \<times> mstate" where
  "do_repl_object e k ob s =
     (if e_slaves e = [] then (ob, s)
      else (let (evs, ob') = repl_object (e_slaves e) k ob True in (ob', emit evs s)))"

definition do_repl_touch :: "menv \<Rightarrow> string \<Rightarrow> object \<Rightarrow> mstate \<Rightarrow> mstate" where
  "do_repl_touch e k ob s = (if e_slaves e = [] then s else emit (repl_touch (e_slaves e) k ob) s)"

definition do_repl_delete :: "menv \<Rightarrow> string \<Rightarrow> mstate \<Rightarrow> mstate" where
  "do_repl_delete e k s = (if e_slaves e = [] then s else emit (repl_delete (e_slaves e) k) s)"

section \<open>Locks of a connection\<close>

definition add_lock :: "string \<Rightarrow> mstate \<Rightarrow> mstate" where
  "add_lock k s = s\<lparr>ms_locks := ms_locks s @ [k]\<rparr>"

definition remove_lock :: "string \<Rightarrow> mstate \<Rightarrow> exn + mstate" where
  "remove_lock k s =
     (if k \<in> set (ms_locks s) then Inr (s\<lparr>ms_locks := remove1 k (ms_locks s)\<rparr>)
      else Inl (Logic_error ''<memcache_socket::remove_lock> bug''))"

definition unlock_handler :: "menv \<Rightarrow> bool \<Rightarrow> (object, mstate) handler" where
  "unlock_handler e force k ob s = bind_res (object_unlock (e_ctx e) force ob) (\<lambda>ob'. Inr (True, ob', s))"

fun unlock_keys :: "(string \<Rightarrow> u64) \<Rightarrow> menv \<Rightarrow> bool \<Rightarrow> string list \<Rightarrow> exec" where
  "unlock_keys hf e force [] m s = Inr (m, s)"
| "unlock_keys hf e force (k # ks) m s =
     bind_res (hash_map_apply hf k (Some (unlock_handler e force)) None m s)
       (\<lambda>(_, m', s'). unlock_keys hf e force ks m' s')"

definition unlock_all :: "(string \<Rightarrow> u64) \<Rightarrow> menv \<Rightarrow> exec" where
  "unlock_all hf e m s =
     bind_res (unlock_keys hf e False (ms_locks s) m s) (\<lambda>(m', s'). Inr (m', s'\<lparr>ms_locks := []\<rparr>))"

text \<open>The destructor of the socket.\<close>

definition memcache_socket_dtor :: "(string \<Rightarrow> u64) \<Rightarrow> menv \<Rightarrow> exec" where
  "memcache_socket_dtor hf e m s = unlock_keys hf e True (ms_locks s) m s"

section \<open>Handlers of binary requests\<close>

definition bin_error :: "binary_request \<Rightarrow> binary_status \<Rightarrow> mstate \<Rightarrow> exn + mstate" where
  "bin_error cmd status s = bind_res (binary_error cmd status) (\<lambda>evs. Inr (emit evs s))"

definition bin_fail :: "binary_request \<Rightarrow> binary_status \<Rightarrow> object \<Rightarrow> mstate \<Rightarrow> exn + (bool \<times> object \<times> mstate)" where
  "bin_fail cmd status ob s = bind_res (bin_error cmd status s) (\<lambda>s'. Inr (True, ob, s'))"

definition is_lag :: "binary_command \<Rightarrow> bool" where
  "is_lag c \<longleftrightarrow>
     byte_of_command Bin_LaG \<le> byte_of_command c \<and> byte_of_command c \<le> byte_of_command Bin_LaGKQ"

definition keyless_gets :: "binary_command set" where
  "keyless_gets = {Bin_Get, Bin_GetQ, Bin_GaT, Bin_GaTQ, Bin_LaG, Bin_LaGQ}"

definition bin_get_handler :: "menv \<Rightarrow> binary_request \<Rightarrow> (object, mstate) handler" where
  "bin_get_handler e cmd k ob s =
     (let lag = is_lag (br_command cmd)
      in if lag \<and> object_locked ob then bin_fail cmd St_Locked ob s
         else
           bind_res
             (if lag then bind_res (object_lock (e_ctx e) ob) (\<lambda>ob1. Inr (ob1, add_lock k s)) else Inr (ob, s))
             (\<lambda>(ob1, s1).
               if obj_expired e s1 ob1 then Inr (False, ob1, s1)
               else
                 (let (ob2, s2) =
                        (if br_exptime cmd \<noteq> EXPTIME_NONE then
                           (let ob' = object_touch (br_exptime cmd) ob1 in (ob', do_repl_touch e k ob' s1))
                         else (ob1, s1));
                      (data, ob3) = object_data ob2
                  in Inr (True, ob3,
                       emit (binary_get cmd (o_flags ob3) data (o_cas ob3) (\<not> br_quiet cmd)
                               (if br_command cmd \<in> keyless_gets then None else Some k)) s2))))"

definition bin_set_handler :: "menv \<Rightarrow> binary_request \<Rightarrow> (object, mstate) handler" where
  "bin_set_handler e cmd k ob s =
     (let cas = br_cas_unique cmd; c = br_command cmd
      in if locked_by_other (e_ctx e) ob then bin_fail cmd St_Locked ob s
         else if obj_expired e s ob \<and> (cas \<noteq> 0 \<or> c = Bin_Replace \<or> c = Bin_ReplaceQ) then
           bin_fail cmd St_NotFound ob (if cas \<noteq> 0 then upd_stats inc_cas_misses s else s)
         else if \<not> obj_expired e s ob \<and> (c = Bin_Add \<or> c = Bin_AddQ) then bin_fail cmd St_Exists ob s
         else if cas \<noteq> 0 \<and> cas \<noteq> o_cas ob then bin_fail cmd St_Exists ob (upd_stats inc_cas_badval s)
         else
           (let ob1 = fst (object_set (e_cfg e) (br_data cmd) (br_flags cmd) (br_exptime cmd) ob);
                s1 = reply_if (\<not> br_quiet cmd) (binary_set cmd (o_cas ob1)) s;
                s2 = (if cas \<noteq> 0 then upd_stats inc_cas_hits s1 else s1);
                (ob2, s3) = do_repl_object e k ob1 s2
            in Inr (True, ob2, s3)))"

definition bin_set_creator :: "menv \<Rightarrow> binary_request \<Rightarrow> (object, mstate) creator" where
  "bin_set_creator e cmd k s =
     (let ob = object_new (e_cfg e) (br_data cmd) (br_flags cmd) (br_exptime cmd);
          s1 = reply_if (\<not> br_quiet cmd) (binary_set cmd (o_cas ob)) (upd_stats count_object s);
          (ob1, s2) = do_repl_object e k ob s1
      in Inr (ob1, s2))"

definition bin_rau_handler :: "menv \<Rightarrow> binary_request \<Rightarrow> (object, mstate) handler" where
  "bin_rau_handler e cmd k ob s =
     (if \<not> locked_by_self (e_ctx e) ob then bin_fail cmd St_NotLocked ob s
      else if br_cas_unique cmd \<noteq> 0 \<and> br_cas_unique cmd \<noteq> o_cas ob then bin_fail cmd St_Exists ob s
      else
        (let ob1 = fst (object_set (e_cfg e) (br_data cmd) (br_flags cmd) (br_exptime cmd) ob)
         in bind_res (object_unlock (e_ctx e) False ob1) (\<lambda>ob2.
            bind_res (remove_lock k s) (\<lambda>s1.
              (let s2 = reply_if (\<not> br_quiet cmd) (binary_set cmd (o_cas ob2)) s1;
                   (ob3, s3) = do_repl_object e k ob2 s2
               in Inr (True, ob3, s3))))))"

text \<open>\<^verbatim>\<open>Append\<close> and \<^verbatim>\<open>Prepend\<close> differ in the operation on the object only, as do the arithmetic commands.\<close>

definition bin_concat_handler ::
  "(string \<Rightarrow> object \<Rightarrow> object) \<Rightarrow> menv \<Rightarrow> binary_request \<Rightarrow> (object, mstate) handler" where
  "bin_concat_handler f e cmd k ob s =
     (if locked_by_other (e_ctx e) ob then bin_fail cmd St_Locked ob s
      else if obj_expired e s ob then Inr (False, ob, s)
      else if br_cas_unique cmd \<noteq> 0 \<and> br_cas_unique cmd \<noteq> o_cas ob then bin_fail cmd St_Exists ob s
      else
        (let ob1 = f (br_data cmd) ob;
             s1 = reply_if (\<not> br_quiet cmd) (binary_set cmd (o_cas ob1)) s;
             (ob2, s2) = do_repl_object e k ob1 s1
         in Inr (True, ob2, s2)))"

definition bin_append_handler :: "menv \<Rightarrow> binary_request \<Rightarrow> (object, mstate) handler" where
  "bin_append_handler e = bin_concat_handler (\<lambda>p ob. fst (object_append (e_cfg e) p ob)) e"

definition bin_prepend_handler :: "menv \<Rightarrow> binary_request \<Rightarrow> (object, mstate) handler" where
  "bin_prepend_handler e = bin_concat_handler (\<lambda>p ob. fst (object_prepend (e_cfg e) p ob)) e"

text \<open>The predicate given to \<^verbatim>\<open>remove_if\<close>.\<close>

definition bin_delete_pred :: "menv \<Rightarrow> binary_request \<Rightarrow> (object, mstate) handler" where
  "bin_delete_pred e cmd k ob s =
     (if locked_by_other (e_ctx e) ob then
        bind_res (bin_error cmd St_Locked s) (\<lambda>s'. Inr (False, ob, s'))
      else if br_cas_unique cmd \<noteq> 0 \<and> br_cas_unique cmd \<noteq> o_cas ob then
        bind_res (bin_error cmd St_Exists s) (\<lambda>s'. Inr (False, ob, s'))
      else
        bind_res (if locked_by_self (e_ctx e) ob then remove_lock k s else Inr s) (\<lambda>s1.
          Inr (True, ob, do_repl_delete e k (reply_if (\<not> br_quiet cmd) (binary_success cmd) s1))))"

definition bin_arith_handler ::
  "(u64 \<Rightarrow> object \<Rightarrow> exn + (u64 \<times> object \<times> block list)) \<Rightarrow> menv \<Rightarrow> binary_request \<Rightarrow> (object, mstate) handler" where
  "bin_arith_handler f e cmd k ob s =
     (if locked_by_other (e_ctx e) ob then bin_fail cmd St_Locked ob s
      else if obj_expired e s ob then Inr (False, ob, s)
      else if br_cas_unique cmd \<noteq> 0 \<and> br_cas_unique cmd \<noteq> o_cas ob then bin_fail cmd St_Exists ob s
      else
        (case f (br_value cmd) ob of
           Inl Not_a_number \<Rightarrow> bin_fail cmd St_NonNumeric ob s
         | Inl x \<Rightarrow> Inl x
         | Inr (n, ob1, _) \<Rightarrow>
             (let s1 = reply_if (\<not> br_quiet cmd) (binary_incdec cmd n (o_cas ob1)) s;
                  (ob2, s2) = do_repl_object e k ob1 s1
              in Inr (True, ob2, s2))))"

definition bin_arith_creator :: "menv \<Rightarrow> binary_request \<Rightarrow> (object, mstate) creator" where
  "bin_arith_creator e cmd k s =
     (let ob = object_new_number (e_cfg e) (br_initial cmd) (br_exptime cmd);
          s1 = reply_if (\<not> br_quiet cmd) (binary_incdec cmd (br_initial cmd) (o_cas ob)) (upd_stats count_object s);
          (ob1, s2) = do_repl_object e k ob s1
      in Inr (ob1, s2))"

definition bin_touch_handler :: "menv \<Rightarrow> binary_request \<Rightarrow> (object, mstate) handler" where
  "bin_touch_handler e cmd k ob s =
     (if obj_expired e s ob then Inr (False, ob, s)
      else
        (let ob1 = object_touch (br_exptime cmd) ob
         in Inr (True, ob1, emit (binary_set cmd (o_cas ob1)) (do_repl_touch e k ob1 s))))"

definition bin_lock_handler :: "menv \<Rightarrow> binary_request \<Rightarrow> (object, mstate) handler" where
  "bin_lock_handler e cmd k ob s =
     (if obj_expired e s ob then Inr (False, ob, s)
      else if object_locked ob then bin_fail cmd St_Locked ob s
      else
        bind_res (object_lock (e_ctx e) ob) (\<lambda>ob1.
          Inr (True, ob1, reply_if (\<not> br_quiet cmd) (binary_success cmd) (add_lock k s))))"

definition bin_unlock_handler :: "menv \<Rightarrow> binary_request \<Rightarrow> (object, mstate) handler" where
  "bin_unlock_handler e cmd k ob s =
     (if \<not> locked_by_self (e_ctx e) ob then bin_fail cmd St_NotLocked ob s
      else
        bind_res (object_unlock (e_ctx e) False ob) (\<lambda>ob1.
        bind_res (remove_lock k s) (\<lambda>s1.
          Inr (True, ob1, reply_if (\<not> br_quiet cmd) (binary_success cmd) s1))))"

definition bin_keys_pred :: "menv \<Rightarrow> binary_request \<Rightarrow> string \<Rightarrow> object \<Rightarrow> mstate \<Rightarrow> exn + (object \<times> mstate)" where
  "bin_keys_pred e cmd k ob s =
     (if obj_expired e s ob then Inr (ob, s)
      else if br_key cmd = [] \<or> has_prefix k (br_key cmd) then Inr (ob, emit (binary_key cmd k) s)
      else Inr (ob, s))"

section \<open>Binary commands\<close>

text \<open>Calls to the map that answer \<^verbatim>\<open>NotFound\<close> when the callback did not run or declined.\<close>

definition apply_or_not_found ::
  "(string \<Rightarrow> u64) \<Rightarrow> binary_request \<Rightarrow> (object, mstate) handler \<Rightarrow> (object, mstate) creator option \<Rightarrow> exec" where
  "apply_or_not_found hf cmd h c m s =
     bind_res (hash_map_apply hf (br_key cmd) (Some h) c m s) (\<lambda>(r, m', s').
       if r then Inr (m', s') else bind_res (bin_error cmd St_NotFound s') (\<lambda>s''. Inr (m', s'')))"

definition bin_cmd_get :: "(string \<Rightarrow> u64) \<Rightarrow> menv \<Rightarrow> binary_request \<Rightarrow> exec" where
  "bin_cmd_get hf e cmd m s =
     bind_res (hash_map_apply hf (br_key cmd) (Some (bin_get_handler e cmd)) None m s) (\<lambda>(r, m', s').
       if r then Inr (m', upd_stats inc_get_hits s')
       else
         (let s1 = upd_stats inc_get_misses s'
          in if \<not> br_quiet cmd \<or> br_command cmd = Bin_LaGQ then
               bind_res (bin_error cmd St_NotFound s1) (\<lambda>s2. Inr (m', s2))
             else Inr (m', s1)))"

text \<open>The checks on the length of the key and of the data before a store.\<close>

definition bin_store_checked :: "menv \<Rightarrow> binary_request \<Rightarrow> exec \<Rightarrow> exec" where
  "bin_store_checked e cmd f m s =
     (if length (br_key cmd) > MAX_KEY_LENGTH then bind_res (bin_error cmd St_Invalid s) (\<lambda>s'. Inr (m, s'))
      else if length (br_data cmd) > max_data_size (e_cfg e) then
        bind_res (bin_error cmd St_TooLargeValue s) (\<lambda>s'. Inr (m, s'))
      else f m s)"

definition bin_cmd_set :: "(string \<Rightarrow> u64) \<Rightarrow> menv \<Rightarrow> binary_request \<Rightarrow> exec" where
  "bin_cmd_set hf e cmd =
     bin_store_checked e cmd (\<lambda>m s.
       let c = (if br_command cmd \<noteq> Bin_Replace \<and> br_command cmd \<noteq> Bin_ReplaceQ \<and> br_cas_unique cmd = 0
                then Some (bin_set_creator e cmd) else None)
       in bind_res (hash_map_apply hf (br_key cmd) (Some (bin_set_handler e cmd)) c m s) (\<lambda>(r, m', s').
            if r then Inr (m', s')
            else
              bind_res (bin_error cmd St_NotFound
                 (if br_cas_unique cmd \<noteq> 0 then upd_stats inc_cas_misses s' else s')) (\<lambda>s''. Inr (m', s''))))"

definition bin_cmd_rau :: "(string \<Rightarrow> u64) \<Rightarrow> menv \<Rightarrow> binary_request \<Rightarrow> exec" where
  "bin_cmd_rau hf e cmd =
     bin_store_checked e cmd (apply_or_not_found hf cmd (bin_rau_handler e cmd) None)"

definition bin_cmd_delete :: "(string \<Rightarrow> u64) \<Rightarrow> menv \<Rightarrow> binary_request \<Rightarrow> exec" where
  "bin_cmd_delete hf e cmd m s =
     bind_res (hash_map_remove_if hf (br_key cmd) (bin_delete_pred e cmd) m s) (\<lambda>(r, m', s').
       if \<not> r \<and> \<not> br_quiet cmd then bind_res (bin_error cmd St_NotFound s') (\<lambda>s''. Inr (m', s''))
       else Inr (m', s'))"

definition bin_cmd_arith ::
  "(string \<Rightarrow> u64) \<Rightarrow> (u64 \<Rightarrow> object \<Rightarrow> exn + (u64 \<times> object \<times> block list)) \<Rightarrow> menv \<Rightarrow> binary_request \<Rightarrow> exec" where
  "bin_cmd_arith hf f e cmd =
     apply_or_not_found hf cmd (bin_arith_handler f e cmd)
       (if br_exptime cmd \<noteq> EXPTIME_NONE then Some (bin_arith_creator e cmd) else None)"

definition bin_cmd_quit :: "(string \<Rightarrow> u64) \<Rightarrow> menv \<Rightarrow> binary_request \<Rightarrow> exec" where
  "bin_cmd_quit hf e cmd m s =
     bind_res (unlock_all hf e m s) (\<lambda>(m', s').
       Inr (m', if br_quiet cmd then emit [Shut] s' else emit (binary_quit cmd) s'))"

definition bin_cmd_stat :: "menv \<Rightarrow> binary_request \<Rightarrow> exec" where
  "bin_cmd_stat e cmd m s =
     (case br_stats cmd of
        Stats_SETTINGS \<Rightarrow> Inr (m, emit (binary_stats_settings cmd (e_cfg e)) s)
      | Stats_ITEMS \<Rightarrow> Inr (m, emit (binary_stats_items cmd (ms_stats s)) s)
      | Stats_SIZES \<Rightarrow> Inr (m, emit (binary_stats_sizes cmd (ms_stats s)) s)
      | Stats_OPS \<Rightarrow> Inr (m, emit (binary_stats_ops cmd (ms_stats s)) s)
      | Stats_GENERAL \<Rightarrow>
          bind_res (binary_stats_general cmd (e_cfg e) (e_now e) (ms_stats s) (e_host e) (length (e_slaves e)))
            (\<lambda>evs. Inr (m, emit evs s)))"

definition bin_cmd_keys :: "menv \<Rightarrow> binary_request \<Rightarrow> exec" where
  "bin_cmd_keys e cmd m s =
     bind_res (hash_map_foreach (bin_keys_pred e cmd) m s) (\<lambda>(m', s'). Inr (m', emit (binary_success cmd) s'))"

definition inc_bin_ops :: "binary_command \<Rightarrow> statistics \<Rightarrow> statistics" where
  "inc_bin_ops c st =
     st\<lparr>bin_ops := (bin_ops st)(byte_of_command c := bin_ops st (byte_of_command c) + 1)\<rparr>"

definition set_flush_time :: "time_t \<Rightarrow> statistics \<Rightarrow> statistics" where
  "set_flush_time t st = st\<lparr>flush_time := t\<rparr>"

definition bin_dispatch :: "(string \<Rightarrow> u64) \<Rightarrow> menv \<Rightarrow> binary_request \<Rightarrow> exec" where
  "bin_dispatch hf e cmd m s =
     (let c = br_command cmd
      in if c \<in> get_cmds then bin_cmd_get hf e cmd m s
         else if c \<in> store_cmds then bin_cmd_set hf e cmd m s
         else if c \<in> rau_cmds then bin_cmd_rau hf e cmd m s
         else if c = Bin_Append \<or> c = Bin_AppendQ then
           apply_or_not_found hf cmd (bin_append_handler e cmd) None m s
         else if c = Bin_Prepend \<or> c = Bin_PrependQ then
           apply_or_not_found hf cmd (bin_prepend_handler e cmd) None m s
         else if c \<in> delete_cmds then bin_cmd_delete hf e cmd m s
         else if c = Bin_Increment \<or> c = Bin_IncrementQ then bin_cmd_arith hf object_incr e cmd m s
         else if c = Bin_Decrement \<or> c = Bin_DecrementQ then bin_cmd_arith hf object_decr e cmd m s
         else if c = Bin_Touch then apply_or_not_found hf cmd (bin_touch_handler e cmd) None m s
         else if c = Bin_Lock \<or> c = Bin_LockQ then apply_or_not_found hf cmd (bin_lock_handler e cmd) None m s
         else if c = Bin_Unlock \<or> c = Bin_UnlockQ then
           apply_or_not_found hf cmd (bin_unlock_handler e cmd) None m s
         else if c = Bin_UnlockAll \<or> c = Bin_UnlockAllQ then
           bind_res (unlock_all hf e m s) (\<lambda>(m', s'). Inr (m', reply_if (\<not> br_quiet cmd) (binary_success cmd) s'))
         else if c = Bin_Quit \<or> c = Bin_QuitQ then bin_cmd_quit hf e cmd m s
         else if c \<in> flush_cmds then
           Inr (m, reply_if (\<not> br_quiet cmd) (binary_success cmd) (upd_stats (set_flush_time (br_exptime cmd)) s))
         else if c = Bin_Noop then Inr (m, emit (binary_success cmd) s)
         else if c = Bin_Version then Inr (m, emit (binary_version cmd) s)
         else if c = Bin_Stat then bin_cmd_stat e cmd m s
         else if c = Bin_Keys then bin_cmd_keys e cmd m s
         else bind_res (bin_error cmd St_UnknownCommand s) (\<lambda>s'. Inr (m, s')))"

definition cmd_bin :: "(string \<Rightarrow> u64) \<Rightarrow> menv \<Rightarrow> binary_request \<Rightarrow> exec" where
  "cmd_bin hf e cmd m s =
     (if br_status cmd \<noteq> St_OK then bind_res (bin_error cmd (br_status cmd) s) (\<lambda>s'. Inr (m, s'))
      else bin_dispatch hf e cmd m (upd_stats (inc_bin_ops (br_command cmd)) s))"

end
