(* ===== verification/Memcache_Text.thy ===== *)
theory Memcache_Text
  imports Memcache_Socket
begin

text \<open>
  Models the execution of text requests by \<^verbatim>\<open>memcache_socket\<close> in \<^verbatim>\<open>src/memcache/sockets.cpp\<close>, and the
  job that receives and executes the requests of a connection.
\<close>

definition NON_NUMERIC :: string where
  "NON_NUMERIC = ''CLIENT_ERROR cannot increment or decrement non-numeric value'' @ CRLF"

definition NOT_LOCKED :: string where
  "NOT_LOCKED = ''CLIENT_ERROR object is not locked or not found'' @ CRLF"

definition answer :: "string \<Rightarrow> mstate \<Rightarrow> mstate" where
  "answer msg s = emit (text_const msg) s"

text \<open>An answer that \<^verbatim>\<open>noreply\<close> suppresses.\<close>

definition answer_if :: "text_request \<Rightarrow> string \<Rightarrow> mstate \<Rightarrow> mstate" where
  "answer_if cmd msg s = (if tr_no_reply cmd then s else answer msg s)"

section \<open>Handlers of text requests\<close>

definition txt_set_handler :: "menv \<Rightarrow> text_request \<Rightarrow> (object, mstate) handler" where
  "txt_set_handler e cmd k ob s =
     (if locked_by_other (e_ctx e) ob then Inr (True, ob, answer_if cmd TEXT_LOCKED s)
      else if obj_expired e s ob \<and> tr_command cmd = Txt_REPLACE then Inr (False, ob, s)
      else if \<not> obj_expired e s ob \<and> tr_command cmd = Txt_ADD then Inr (False, ob, s)
      else
        (let ob1 = fst (object_set (e_cfg e) (tr_data cmd) (tr_flags cmd) (tr_exptime cmd) ob);
             (ob2, s1) = do_repl_object e k ob1 (answer_if cmd TEXT_STORED s)
         in Inr (True, ob2, s1)))"

definition txt_set_creator :: "menv \<Rightarrow> text_request \<Rightarrow> (object, mstate) creator" where
  "txt_set_creator e cmd k s =
     (let ob = object_new (e_cfg e) (tr_data cmd) (tr_flags cmd) (tr_exptime cmd);
          (ob1, s1) = do_repl_object e k ob (answer_if cmd TEXT_STORED (upd_stats count_object s))
      in Inr (ob1, s1))"

definition txt_concat_handler ::
  "(string \<Rightarrow> object \<Rightarrow> object) \<Rightarrow> menv \<Rightarrow> text_request \<Rightarrow> (object, mstate) handler" where
  "txt_concat_handler f e cmd k ob s =
     (if locked_by_other (e_ctx e) ob then Inr (True, ob, answer_if cmd TEXT_LOCKED s)
      else if obj_expired e s ob then Inr (False, ob, s)
      else
        (let (ob2, s1) = do_repl_object e k (f (tr_data cmd) ob) (answer_if cmd TEXT_STORED s)
         in Inr (True, ob2, s1)))"

definition txt_append_handler :: "menv \<Rightarrow> text_request \<Rightarrow> (object, mstate) handler" where
  "txt_append_handler e = txt_concat_handler (\<lambda>p ob. fst (object_append (e_cfg e) p ob)) e"

definition txt_prepend_handler :: "menv \<Rightarrow> text_request \<Rightarrow> (object, mstate) handler" where
  "txt_prepend_handler e = txt_concat_handler (\<lambda>p ob. fst (object_prepend (e_cfg e) p ob)) e"

definition txt_cas_handler :: "menv \<Rightarrow> text_request \<Rightarrow> (object, mstate) handler" where
  "txt_cas_handler e cmd k ob s =
     (if locked_by_other (e_ctx e) ob then Inr (True, ob, answer_if cmd TEXT_LOCKED s)
      else if obj_expired e s ob then Inr (False, ob, s)
      else if o_cas ob \<noteq> tr_cas_unique cmd then
        Inr (True, ob, upd_stats inc_cas_badval (answer_if cmd TEXT_EXISTS s))
      else
        (let ob1 = fst (object_set (e_cfg e) (tr_data cmd) (tr_flags cmd) (tr_exptime cmd) ob);
             (ob2, s1) = do_repl_object e k ob1 (answer_if cmd TEXT_STORED s)
         in Inr (True, ob2, upd_stats inc_cas_hits s1)))"

definition txt_arith_handler ::
  "(u64 \<Rightarrow> object \<Rightarrow> exn + (u64 \<times> object \<times> block list)) \<Rightarrow> menv \<Rightarrow> text_request \<Rightarrow> (object, mstate) handler" where
  "txt_arith_handler f e cmd k ob s =
     (if locked_by_other (e_ctx e) ob then Inr (True, ob, answer_if cmd TEXT_LOCKED s)
      else if obj_expired e s ob then Inr (False, ob, s)
      else
        (case f (tr_value cmd) ob of
           Inl Not_a_number \<Rightarrow> Inr (True, ob, answer_if cmd NON_NUMERIC s)
         | Inl x \<Rightarrow> Inl x
         | Inr (n, ob1, _) \<Rightarrow>
             (let (ob2, s1) = do_repl_object e k ob1 (answer_if cmd (w64 n @ CRLF) s)
              in Inr (True, ob2, s1))))"

definition txt_touch_handler :: "menv \<Rightarrow> text_request \<Rightarrow> (object, mstate) handler" where
  "txt_touch_handler e cmd k ob s =
     (if obj_expired e s ob then Inr (False, ob, s)
      else (let ob1 = object_touch (tr_exptime cmd) ob in Inr (True, ob1, do_repl_touch e k ob1 s)))"

definition txt_delete_pred :: "menv \<Rightarrow> text_request \<Rightarrow> (object, mstate) handler" where
  "txt_delete_pred e cmd k ob s =
     (if locked_by_other (e_ctx e) ob then Inr (False, ob, answer_if cmd TEXT_LOCKED s)
      else
        bind_res (if locked_by_self (e_ctx e) ob then remove_lock k s else Inr s) (\<lambda>s1.
          Inr (True, ob, do_repl_delete e k (answer_if cmd TEXT_DELETED s1))))"

definition txt_lock_handler :: "menv \<Rightarrow> text_request \<Rightarrow> (object, mstate) handler" where
  "txt_lock_handler e cmd k ob s =
     (if obj_expired e s ob then Inr (False, ob, s)
      else if object_locked ob then Inr (True, ob, answer TEXT_LOCKED s)
      else bind_res (object_lock (e_ctx e) ob) (\<lambda>ob1. Inr (True, ob1, answer TEXT_OK (add_lock k s))))"

definition txt_unlock_handler :: "menv \<Rightarrow> text_request \<Rightarrow> (object, mstate) handler" where
  "txt_unlock_handler e cmd k ob s =
     (if \<not> locked_by_self (e_ctx e) ob then Inr (False, ob, s)
      else
        bind_res (object_unlock (e_ctx e) False ob) (\<lambda>ob1.
        bind_res (remove_lock k s) (\<lambda>s1. Inr (True, ob1, answer TEXT_OK s1))))"

definition txt_get_handler :: "menv \<Rightarrow> text_request \<Rightarrow> (object, mstate) handler" where
  "txt_get_handler e cmd k ob s =
     (if obj_expired e s ob then Inr (False, ob, s)
      else
        (let (data, ob1) = object_data ob
         in bind_res
              (if tr_command cmd = Txt_GETS then text_value_cas k (o_flags ob1) data (o_cas ob1)
               else text_value k (o_flags ob1) data)
              (\<lambda>evs. Inr (True, ob1, emit evs s))))"

definition txt_keys_pred :: "menv \<Rightarrow> text_request \<Rightarrow> string \<Rightarrow> object \<Rightarrow> mstate \<Rightarrow> exn + (object \<times> mstate)" where
  "txt_keys_pred e cmd k ob s =
     (if obj_expired e s ob then Inr (ob, s)
      else if tr_key cmd = [] \<or> has_prefix k (tr_key cmd) then
        bind_res (text_value_key k) (\<lambda>evs. Inr (ob, emit evs s))
      else Inr (ob, s))"

section \<open>Text commands\<close>

text \<open>A call to the map and the answer when it returns false.\<close>

definition txt_apply ::
  "(string \<Rightarrow> u64) \<Rightarrow> text_request \<Rightarrow> (object, mstate) handler \<Rightarrow> (object, mstate) creator option
   \<Rightarrow> (mstate \<Rightarrow> mstate) \<Rightarrow> exec" where
  "txt_apply hf cmd h c miss m s =
     bind_res (hash_map_apply hf (tr_key cmd) (Some h) c m s) (\<lambda>(r, m', s'). Inr (m', if r then s' else miss s'))"

definition txt_cmd_set :: "(string \<Rightarrow> u64) \<Rightarrow> menv \<Rightarrow> text_request \<Rightarrow> exec" where
  "txt_cmd_set hf e cmd m s =
     (if length (tr_key cmd) > MAX_KEY_LENGTH then Inr (m, answer TEXT_ERROR s)
      else if length (tr_data cmd) > max_data_size (e_cfg e) then Inr (m, answer TEXT_ERROR s)
      else txt_apply hf cmd (txt_set_handler e cmd)
             (if tr_command cmd \<noteq> Txt_REPLACE then Some (txt_set_creator e cmd) else None)
             (answer_if cmd TEXT_NOT_STORED) m s)"

definition txt_cmd_cas :: "(string \<Rightarrow> u64) \<Rightarrow> menv \<Rightarrow> text_request \<Rightarrow> exec" where
  "txt_cmd_cas hf e cmd =
     txt_apply hf cmd (txt_cas_handler e cmd) None
       (\<lambda>s. answer_if cmd TEXT_NOT_FOUND (upd_stats inc_cas_misses s))"

definition txt_cmd_touch :: "(string \<Rightarrow> u64) \<Rightarrow> menv \<Rightarrow> text_request \<Rightarrow> exec" where
  "txt_cmd_touch hf e cmd m s =
     bind_res (hash_map_apply hf (tr_key cmd) (Some (txt_touch_handler e cmd)) None m s) (\<lambda>(r, m', s').
       Inr (m', if r then answer_if cmd TEXT_TOUCHED s' else answer_if cmd TEXT_NOT_FOUND s'))"

definition txt_cmd_delete :: "(string \<Rightarrow> u64) \<Rightarrow> menv \<Rightarrow> text_request \<Rightarrow> exec" where
  "txt_cmd_delete hf e cmd m s =
     bind_res (hash_map_remove_if hf (tr_key cmd) (txt_delete_pred e cmd) m s) (\<lambda>(r, m', s').
       Inr (m', if r then s' else answer_if cmd TEXT_NOT_FOUND s'))"

fun txt_get_keys :: "(string \<Rightarrow> u64) \<Rightarrow> menv \<Rightarrow> text_request \<Rightarrow> string list \<Rightarrow> exec" where
  "txt_get_keys hf e cmd [] m s = Inr (m, s)"
| "txt_get_keys hf e cmd (k # ks) m s =
     bind_res (hash_map_apply hf k (Some (txt_get_handler e cmd)) None m s) (\<lambda>(r, m', s').
       txt_get_keys hf e cmd ks m' (upd_stats (if r then inc_get_hits else inc_get_misses) s'))"

definition txt_cmd_get :: "(string \<Rightarrow> u64) \<Rightarrow> menv \<Rightarrow> text_request \<Rightarrow> exec" where
  "txt_cmd_get hf e cmd m s =
     bind_res (txt_get_keys hf e cmd (request_keys cmd) m s) (\<lambda>(m', s'). Inr (m', answer TEXT_END s'))"

definition txt_cmd_keys :: "menv \<Rightarrow> text_request \<Rightarrow> exec" where
  "txt_cmd_keys e cmd m s =
     bind_res (hash_map_foreach (txt_keys_pred e cmd) m s) (\<lambda>(m', s'). Inr (m', answer TEXT_END s'))"

definition txt_cmd_stats :: "menv \<Rightarrow> text_request \<Rightarrow> exec" where
  "txt_cmd_stats e cmd m s =
     bind_res
       (case tr_stats cmd of
          Stats_SETTINGS \<Rightarrow> Inr (text_stats_settings (e_cfg e))
        | Stats_ITEMS \<Rightarrow> Inr (text_stats_items (ms_stats s))
        | Stats_SIZES \<Rightarrow> Inr (text_stats_sizes (ms_stats s))
        | Stats_OPS \<Rightarrow> Inr (text_stats_ops (ms_stats s))
        | Stats_GENERAL \<Rightarrow>
            text_stats_general (e_cfg e) (e_now e) (ms_stats s) (e_host e) (length (e_slaves e)))
       (\<lambda>evs. Inr (m, answer TEXT_END (emit evs s)))"

definition txt_cmd_quit :: "(string \<Rightarrow> u64) \<Rightarrow> menv \<Rightarrow> exec" where
  "txt_cmd_quit hf e m s = bind_res (unlock_all hf e m s) (\<lambda>(m', s'). Inr (m', emit [Shut] s'))"

definition inc_text_ops :: "text_command \<Rightarrow> statistics \<Rightarrow> statistics" where
  "inc_text_ops c st = st\<lparr>text_ops := (text_ops st)(text_index c := text_ops st (text_index c) + 1)\<rparr>"

definition txt_dispatch :: "(string \<Rightarrow> u64) \<Rightarrow> menv \<Rightarrow> text_request \<Rightarrow> exec" where
  "txt_dispatch hf e cmd m s =
     (let c = tr_command cmd
      in if c = Txt_SET \<or> c = Txt_ADD \<or> c = Txt_REPLACE then txt_cmd_set hf e cmd m s
         else if c = Txt_APPEND then
           txt_apply hf cmd (txt_append_handler e cmd) None (answer_if cmd TEXT_NOT_STORED) m s
         else if c = Txt_PREPEND then
           txt_apply hf cmd (txt_prepend_handler e cmd) None (answer_if cmd TEXT_NOT_STORED) m s
         else if c = Txt_CAS then txt_cmd_cas hf e cmd m s
         else if c = Txt_INCR then
           txt_apply hf cmd (txt_arith_handler object_incr e cmd) None (answer_if cmd TEXT_NOT_FOUND) m s
         else if c = Txt_DECR then
           txt_apply hf cmd (txt_arith_handler object_decr e cmd) None (answer_if cmd TEXT_NOT_FOUND) m s
         else if c = Txt_TOUCH then txt_cmd_touch hf e cmd m s
         else if c = Txt_DELETE then txt_cmd_delete hf e cmd m s
         else if c = Txt_LOCK then txt_apply hf cmd (txt_lock_handler e cmd) None (answer TEXT_NOT_FOUND) m s
         else if c = Txt_UNLOCK then txt_apply hf cmd (txt_unlock_handler e cmd) None (answer NOT_LOCKED) m s
         else if c = Txt_UNLOCK_ALL then
           bind_res (unlock_all hf e m s) (\<lambda>(m', s'). Inr (m', answer TEXT_OK s'))
         else if c = Txt_GET \<or> c = Txt_GETS then txt_cmd_get hf e cmd m s
         else if c = Txt_KEYS then txt_cmd_keys e cmd m s
         else if c = Txt_SLABS then Inr (m, answer TEXT_OK s)
         else if c = Txt_STATS then txt_cmd_stats e cmd m s
         else if c = Txt_FLUSH_ALL then
           Inr (m, answer_if cmd TEXT_OK (upd_stats (set_flush_time (tr_exptime cmd)) s))
         else if c = Txt_VERSION then Inr (m, emit text_version s)
         else if c = Txt_VERBOSITY then Inr (m, answer_if cmd TEXT_OK (s\<lparr>ms_threshold := tr_verbosity cmd\<rparr>))
         else if c = Txt_QUIT then txt_cmd_quit hf e m s
         else Inr (m, answer TEXT_ERROR s))"

definition cmd_text :: "(string \<Rightarrow> u64) \<Rightarrow> menv \<Rightarrow> text_request \<Rightarrow> exec" where
  "cmd_text hf e cmd m s =
     (if \<not> tr_valid cmd then Inr (m, answer TEXT_ERROR s)
      else txt_dispatch hf e cmd m (upd_stats (inc_text_ops (tr_command cmd)) s))"

section \<open>The job of a worker\<close>

text \<open>
  The inner loop of \<^verbatim>\<open>m_recvjob\<close>: execute the complete requests at the head of the buffer and return
  what is left.  The bytes beyond the buffer are an argument of the environment.
\<close>

function process_requests ::
  "(string \<Rightarrow> u64) \<Rightarrow> menv \<Rightarrow> string \<Rightarrow> object hash_map \<Rightarrow> mstate
   \<Rightarrow> exn + (string \<times> object hash_map \<times> mstate)" where
  "process_requests hf e p m s =
     (if p = [] then Inr (p, m, s)
      else if is_binary_request p then
        (let r = parse_binary (e_now e) p
         in if br_length r = 0 then Inr (p, m, s)
            else (case cmd_bin hf e r m s of
                    Inl x \<Rightarrow> Inl x
                  | Inr (m', s') \<Rightarrow> process_requests hf e (drop (br_length r) p) m' s'))
      else
        (let r = parse_text (e_stale e) (e_now e) p (e_beyond e)
         in if tr_length r = 0 then Inr (p, m, s)
            else (case cmd_text hf e r m s of
                    Inl x \<Rightarrow> Inl x
                  | Inr (m', s') \<Rightarrow> process_requests hf e (drop (tr_length r) p) m' s')))"
  by pat_completeness auto
termination
  by (relation "measure (\<lambda>(hf, e, p, m, s). length p)") auto

declare process_requests.simps [simp del]

text \<open>
  The receiving loop.  Each call of \<^verbatim>\<open>tcp_socket::receive\<close> is given as the validity of the socket at that
  time and the answers of \<^verbatim>\<open>recv\<close>; a list of calls that ends stands for \<^verbatim>\<open>AGAIN\<close>.
\<close>

fun recvjob_loop ::
  "(string \<Rightarrow> u64) \<Rightarrow> menv \<Rightarrow> (bool \<times> recv_answer list) list \<Rightarrow> string \<Rightarrow> object hash_map \<Rightarrow> mstate
   \<Rightarrow> exn + (string \<times> object hash_map \<times> mstate)" where
  "recvjob_loop hf e [] buf m s = Inr (buf, m, s)"
| "recvjob_loop hf e ((valid, as) # calls) buf m s =
     bind_res (receive valid as) (\<lambda>res.
       case res of
         Recv_AGAIN \<Rightarrow> Inr (buf, m, s)
       | Recv_OK d \<Rightarrow>
           bind_res (process_requests hf e (buf @ d) m s) (\<lambda>(rest, m', s').
             if length rest > MAX_REQUEST_LENGTH then
               bind_res (unlock_all hf e m' s') (\<lambda>(m'', s''). Inr ([], m'', emit [Shut] s''))
             else recvjob_loop hf e calls rest m' s')
       | _ \<Rightarrow> bind_res (unlock_all hf e m s) (\<lambda>(m', s'). Inr ([], m', s')))"

text \<open>
  The job first makes the descriptor its lock context, if the socket is still valid; otherwise the thread
  keeps the context of its previous job.  It takes the pending bytes and returns the new ones.
\<close>

definition recvjob ::
  "(string \<Rightarrow> u64) \<Rightarrow> menv \<Rightarrow> int \<Rightarrow> bool \<Rightarrow> (bool \<times> recv_answer list) list \<Rightarrow> string \<Rightarrow> object hash_map \<Rightarrow> mstate
   \<Rightarrow> exn + (string \<times> object hash_map \<times> mstate)" where
  "recvjob hf e fd valid calls pending m s =
     recvjob_loop hf (if valid then e\<lparr>e_ctx := fd\<rparr> else e) calls pending m s"

end
