(* ===== verification/Hash_Map_Facts.thy ===== *)
theory Hash_Map_Facts
  imports Hash_Map
begin

text \<open>
  Facts on the hash map that both protocols use: its items and the map from keys to objects, loops that only read, and
  sweeps, which remove some objects and change the others one by one.
\<close>

section \<open>Items\<close>

text \<open>A loop over all objects whose body leaves them alone.\<close>

lemma bucket_foreach_pure:
  assumes "\<And>k v s. (k, v) \<in> set b \<Longrightarrow> pred k v s = Inr (v, f k v s)"
  shows "bucket_foreach pred b s = Inr (b, fold (\<lambda>(k, v). f k v) b s)"
  using assms
proof (induction b arbitrary: s)
  case (Cons a b)
  obtain k v where a: "a = (k, v)" by (cases a)
  from Cons have "bucket_foreach pred b (f k v s) = Inr (b, fold (\<lambda>(k, v). f k v) b (f k v s))" by simp
  then show ?case using Cons.prems [of k v] by (simp add: a)
qed simp

lemma buckets_foreach_pure:
  assumes "\<And>k v s. (k, v) \<in> set (concat bs) \<Longrightarrow> pred k v s = Inr (v, f k v s)"
  shows "buckets_foreach pred bs s = Inr (bs, fold (\<lambda>(k, v). f k v) (concat bs) s)"
  using assms
proof (induction bs arbitrary: s)
  case (Cons b bs)
  then show ?case using bucket_foreach_pure [of b pred f s] by auto
qed simp

lemma hash_map_foreach_pure:
  assumes "\<And>k v s. (k, v) \<in> set (hm_items m) \<Longrightarrow> pred k v s = Inr (v, f k v s)"
  shows "hash_map_foreach pred m s = Inr (m, fold (\<lambda>(k, v). f k v) (hm_items m) s)"
  using buckets_foreach_pure [of "m_buckets m" pred f s] assms by (simp add: hash_map_foreach_def hm_items_def)

lemma hm_items_lookup:
  assumes "hm_invar hf m" "(k, v) \<in> set (hm_items m)"
  shows "hm_lookup hf m k = Some v"
proof -
  obtain b where "b \<in> set (m_buckets m)" "(k, v) \<in> set b" using assms(2) by (auto simp: hm_items_def)
  then obtain i where i: "i < length (m_buckets m)" "(k, v) \<in> set (m_buckets m ! i)"
    by (auto simp: in_set_conv_nth [of b])
  then have "bucket_ok hf (m_size m) i (m_buckets m ! i)" using assms(1) by (simp add: hm_invar_def)
  then have "distinct (map fst (m_buckets m ! i))" "unat (hf k) mod m_size m = i"
    using i(2) by (auto simp: bucket_ok_def list_all_iff)
  then show ?thesis using i(2) by (simp add: hm_lookup_def get_bucket_def bucket_index_def)
qed

text \<open>The keys of the map are distinct.\<close>

lemma distinct_buckets:
  assumes "\<forall>i < length bs. distinct (map fst (bs ! i)) \<and> (\<forall>x \<in> set (bs ! i). f (fst x) = c + i)"
  shows "distinct (map fst (concat bs)) \<and> (\<forall>x \<in> set (concat bs). c \<le> f (fst x))"
  using assms
proof (induction bs arbitrary: c)
  case (Cons b bs)
  have b: "distinct (map fst b)" "\<forall>x \<in> set b. f (fst x) = c" using Cons.prems [rule_format, of 0] by auto
  have "distinct (map fst (bs ! i)) \<and> (\<forall>x \<in> set (bs ! i). f (fst x) = Suc c + i)" if "i < length bs" for i
    using Cons.prems [rule_format, of "Suc i"] that by simp
  then have "\<forall>i < length bs. distinct (map fst (bs ! i)) \<and> (\<forall>x \<in> set (bs ! i). f (fst x) = Suc c + i)" by blast
  from Cons.IH [OF this] have bs: "distinct (map fst (concat bs))" "\<forall>x \<in> set (concat bs). Suc c \<le> f (fst x)" by blast+
  have "fst x \<noteq> fst y" if "x \<in> set b" "y \<in> set (concat bs)" for x y using b(2) bs(2) that by fastforce
  then have "set (map fst b) \<inter> set (map fst (concat bs)) = {}" by fastforce
  moreover have "\<forall>x \<in> set (concat bs). c \<le> f (fst x)" using bs(2) Suc_leD by blast
  ultimately show ?case using b bs(1) by auto
qed simp

lemma hm_items_distinct:
  assumes "hm_invar hf m"
  shows "distinct (map fst (hm_items m))"
proof -
  have "\<forall>i < length (m_buckets m). distinct (map fst (m_buckets m ! i)) \<and>
      (\<forall>x \<in> set (m_buckets m ! i). unat (hf (fst x)) mod m_size m = 0 + i)"
    using assms by (fastforce simp: hm_invar_def bucket_ok_def list_all_iff)
  from distinct_buckets [of "m_buckets m" "\<lambda>k. unat (hf k) mod m_size m" 0, OF this] show ?thesis by (simp add: hm_items_def)
qed

lemma hm_items_lookup_iff:
  assumes "hm_invar hf m"
  shows "hm_lookup hf m k = map_of (hm_items m) k"
proof (cases "hm_lookup hf m k")
  case (Some v)
  have "bucket_index hf m k < length (m_buckets m)" using assms by (simp add: hm_invar_def bucket_index_def)
  moreover have "(k, v) \<in> set (get_bucket hf m k)" using Some by (auto simp: hm_lookup_def dest: map_of_SomeD)
  ultimately have "(k, v) \<in> set (hm_items m)" by (auto simp: hm_items_def get_bucket_def)
  then show ?thesis using Some hm_items_distinct [OF assms] by simp
next
  case None
  then show ?thesis using hm_items_lookup [OF assms] by (metis map_of_SomeD not_None_eq)
qed

section \<open>Sweeps\<close>

text \<open>The objects that satisfy \<open>dead\<close> are removed; \<open>f\<close> is applied to the others.\<close>

definition sweep_bucket :: "('a \<Rightarrow> bool) \<Rightarrow> ('a \<Rightarrow> 'a) \<Rightarrow> 'a bucket \<Rightarrow> 'a bucket" where
  "sweep_bucket dead f b = map (\<lambda>(k, v). (k, f v)) (filter (\<lambda>(k, v). \<not> dead v) b)"

definition sweep :: "('a \<Rightarrow> bool) \<Rightarrow> ('a \<Rightarrow> 'a) \<Rightarrow> 'a hash_map \<Rightarrow> 'a hash_map" where
  "sweep dead f m = m\<lparr>m_buckets := map (sweep_bucket dead f) (m_buckets m)\<rparr>"

definition sweep_at :: "nat \<Rightarrow> ('a \<Rightarrow> bool) \<Rightarrow> ('a \<Rightarrow> 'a) \<Rightarrow> 'a hash_map \<Rightarrow> 'a hash_map" where
  "sweep_at i dead f m = m\<lparr>m_buckets := (m_buckets m)[i := sweep_bucket dead f (m_buckets m ! i)]\<rparr>"

lemma map_of_sweep_bucket:
  assumes "distinct (map fst b)"
  shows "map_of (sweep_bucket dead f b) k =
    (case map_of b k of None \<Rightarrow> None | Some v \<Rightarrow> if dead v then None else Some (f v))"
  using assms
proof (induction b)
  case (Cons x b)
  obtain k' v where x: "x = (k', v)" by (cases x)
  have "map_of b k' = None" using Cons.prems x by (simp add: map_of_eq_None_iff)
  with Cons x show ?case by (auto simp: sweep_bucket_def)
qed (simp add: sweep_bucket_def)

lemma sweep_bucket_ok: "bucket_ok hf n i b \<Longrightarrow> bucket_ok hf n i (sweep_bucket dead f b)"
  by (induction b) (force simp: bucket_ok_def sweep_bucket_def)+

lemma sweep_invar: "hm_invar hf m \<Longrightarrow> hm_invar hf (sweep dead f m)"
  by (simp add: hm_invar_def sweep_def sweep_bucket_ok)

lemma sweep_at_invar: "hm_invar hf m \<Longrightarrow> hm_invar hf (sweep_at i dead f m)"
  by (cases "i < length (m_buckets m)") (auto simp: hm_invar_def sweep_at_def sweep_bucket_ok nth_list_update)

lemma get_bucket_distinct:
  assumes "hm_invar hf m"
  shows "bucket_index hf m k < length (m_buckets m)" "distinct (map fst (m_buckets m ! bucket_index hf m k))"
proof -
  show i: "bucket_index hf m k < length (m_buckets m)" using assms by (simp add: hm_invar_def bucket_index_def)
  with assms show "distinct (map fst (m_buckets m ! bucket_index hf m k))" by (auto simp: hm_invar_def bucket_ok_def)
qed

lemma sweep_lookup:
  assumes "hm_invar hf m"
  shows "hm_lookup hf (sweep dead f m) k =
    (case hm_lookup hf m k of None \<Rightarrow> None | Some v \<Rightarrow> if dead v then None else Some (f v))"
proof -
  have "get_bucket hf (sweep dead f m) k = sweep_bucket dead f (get_bucket hf m k)"
    using get_bucket_distinct [OF assms] by (simp add: get_bucket_def sweep_def bucket_index_def)
  then show ?thesis using get_bucket_distinct(2) [OF assms] by (simp add: hm_lookup_def map_of_sweep_bucket get_bucket_def)
qed

lemma sweep_at_lookup:
  assumes "hm_invar hf m"
  shows "hm_lookup hf (sweep_at i dead f m) k =
    (case hm_lookup hf m k of
       None \<Rightarrow> None
     | Some v \<Rightarrow> if bucket_index hf m k \<noteq> i then Some v else if dead v then None else Some (f v))"
proof -
  have "get_bucket hf (sweep_at i dead f m) k =
      (if bucket_index hf m k = i then sweep_bucket dead f (get_bucket hf m k) else get_bucket hf m k)"
    using get_bucket_distinct(1) [OF assms, of k] by (simp add: get_bucket_def sweep_at_def bucket_index_def nth_list_update)
  then show ?thesis
    using get_bucket_distinct(2) [OF assms, of k] by (auto simp: hm_lookup_def map_of_sweep_bucket get_bucket_def split: option.splits)
qed

end
