(* ===== verification/Memcache_Facts.thy ===== *)
theory Memcache_Facts
  imports Memcache_Text Hash_Map_Facts
begin

text \<open>
  What one callback of the hash map may do.  The relation \<open>sane\<close> bounds the effect of a callback on the
  object of its key, on the locks of its connection and on the stream to the slaves; every
  handler of every command stays within it and throws no exception.
\<close>

section \<open>Client and slave events\<close>

definition slave_bytes :: "event list \<Rightarrow> nat \<Rightarrow> string" where
  "slave_bytes evs i = concat (map (\<lambda>v. case v of Send_slave j b _ \<Rightarrow> if j = i then b else [] | _ \<Rightarrow> []) evs)"

lemma slave_bytes_simps [simp]:
  "slave_bytes [] i = []"
  "slave_bytes (Send a fl # evs) i = slave_bytes evs i"
  "slave_bytes (Send_close a # evs) i = slave_bytes evs i"
  "slave_bytes (Shut # evs) i = slave_bytes evs i"
  "slave_bytes (Send_slave j b f # evs) i = (if j = i then b else []) @ slave_bytes evs i"
  "slave_bytes (xs @ ys) i = slave_bytes xs i @ slave_bytes ys i"
  by (simp_all add: slave_bytes_def)

definition client_only :: "event list \<Rightarrow> bool" where
  "client_only evs \<longleftrightarrow> (\<forall>i. slave_bytes evs i = [])"

lemma client_only_simps [simp]:
  "client_only []" "client_only (xs @ ys) \<longleftrightarrow> client_only xs \<and> client_only ys"
  by (auto simp: client_only_def)

lemma client_only_stats [simp]: "client_only (map (send_stat r) tab)"
  by (induction tab) (simp_all add: client_only_def send_stat_def)

lemma client_only_responses [simp]:
  "client_only (text_const x)" "client_only (binary_success r)" "client_only (binary_get r fl d c f ko)"
  "client_only (binary_key r k)" "client_only (binary_set r c)" "client_only (binary_incdec r v c)"
  "client_only (binary_quit r)" "client_only (binary_version r)" "client_only [Shut]"
  "client_only text_version" "client_only (text_stats_settings g)" "client_only (text_stats_items st)"
  "client_only (text_stats_sizes st)" "client_only (text_stats_ops st)"
  "client_only (binary_stats_settings r g)" "client_only (binary_stats_items r st)"
  "client_only (binary_stats_sizes r st)" "client_only (binary_stats_ops r st)"
proof -
  show "client_only (binary_success r)" for r by (simp add: client_only_def binary_success_def)
  then show "client_only (binary_stats_settings r g)" "client_only (binary_stats_items r st)"
    "client_only (binary_stats_sizes r st)" "client_only (binary_stats_ops r st)"
    by (simp_all add: binary_stats_settings_def binary_stats_items_def binary_stats_sizes_def binary_stats_ops_def)
qed (simp_all add: client_only_def text_const_def binary_get_def binary_key_def binary_set_def
    binary_incdec_def binary_quit_def binary_version_def text_version_def text_stats_settings_def
    text_stats_items_def text_stats_sizes_def text_stats_ops_def split: option.split)

lemma bin_error_total:
  assumes "status \<noteq> St_OK"
  obtains evs where "client_only evs" "\<And>s. bin_error cmd status s = Inr (emit evs s)"
proof -
  obtain msg where "status_message status = Some msg" "length msg \<le> 100"
    using assms by (cases status) simp_all
  then have "\<And>s. bin_error cmd status s =
      Inr (emit [Send (fill_header cmd 0 0 (word_of_nat (length msg)) 0 status @ msg) True] s)"
    by (simp add: bin_error_def binary_error_def send_error_def)
  with that [of "[Send (fill_header cmd 0 0 (word_of_nat (length msg)) 0 status @ msg) True]"] show thesis
    by (simp add: client_only_def)
qed

lemma mstate_simps [simp]:
  "ms_locks (emit evs s) = ms_locks s" "ms_outs (emit evs s) = ms_outs s @ evs" "ms_stats (emit evs s) = ms_stats s"
  "ms_locks (upd_stats f s) = ms_locks s" "ms_outs (upd_stats f s) = ms_outs s"
  "ms_locks (add_lock k s) = ms_locks s @ [k]" "ms_outs (add_lock k s) = ms_outs s" "ms_stats (add_lock k s) = ms_stats s"
  "ms_locks (reply_if b evs s) = ms_locks s" "ms_outs (reply_if b evs s) = ms_outs s @ (if b then evs else [])"
  "ms_locks (answer msg s) = ms_locks s" "ms_outs (answer msg s) = ms_outs s @ text_const msg"
  "ms_locks (answer_if cmd msg s) = ms_locks s"
  "ms_outs (answer_if cmd msg s) = ms_outs s @ (if tr_no_reply cmd then [] else text_const msg)"
  by (simp_all add: emit_def upd_stats_def add_lock_def reply_if_def answer_def answer_if_def)

section \<open>The bound on a callback\<close>

definition lockof :: "object option \<Rightarrow> int" where
  "lockof x = (case x of None \<Rightarrow> - 1 | Some ob \<Rightarrow> o_lock ob)"

lemma lockof_simps [simp]: "lockof None = - 1" "lockof (Some ob) = o_lock ob"
  by (simp_all add: lockof_def)

text \<open>What a lock protects from other connections.\<close>

definition core :: "object \<Rightarrow> string \<times> u32 \<times> u64" where
  "core ob = (contents ob, o_flags ob, o_cas ob)"

text \<open>The streams to the slaves carry these changes, to the current slaves only.\<close>

definition streams :: "menv \<Rightarrow> event list \<Rightarrow> repl_op list \<Rightarrow> bool" where
  "streams e new ops \<longleftrightarrow>
     (\<forall>i. slave_bytes new i = (if i \<in> set (e_slaves e) then concat (map repl_bytes ops) else []))"

text \<open>The changes describe what happened to the object of key \<open>k\<close>.\<close>

definition ops_at :: "cfg \<Rightarrow> string \<Rightarrow> repl_op list \<Rightarrow> object option \<Rightarrow> object option \<Rightarrow> bool" where
  "ops_at g k ops x x' \<longleftrightarrow>
     ops = [] \<and> map_option view x' = map_option view x \<or>
     (\<exists>ob. ops = [R_set k ob] \<and> object_ok g ob \<and> map_option view x' = Some (view ob)) \<or>
     (\<exists>ob d f t. ops = [R_touch k ob] \<and> map_option view x = Some (d, f, t) \<and>
        map_option view x' = Some (d, f, o_exptime ob)) \<or>
     ops = [R_delete k] \<and> x' = None"

definition sane :: "menv \<Rightarrow> string \<Rightarrow> object option \<Rightarrow> mstate \<Rightarrow> object option \<Rightarrow> mstate \<Rightarrow> bool" where
  "sane e k x s x' s' \<longleftrightarrow>
     (lockof x' = lockof x \<and> ms_locks s' = ms_locks s \<or>
      lockof x = - 1 \<and> lockof x' = e_ctx e \<and> ms_locks s' = ms_locks s @ [k] \<or>
      lockof x = e_ctx e \<and> lockof x' = - 1 \<and> ms_locks s' = remove1 k (ms_locks s)) \<and>
     (\<forall>ob'. x' = Some ob' \<longrightarrow> object_ok (e_cfg e) ob') \<and>
     (x = None \<and> x' \<noteq> None \<longrightarrow> length k \<le> MAX_KEY_LENGTH) \<and>
     (lockof x \<noteq> - 1 \<and> lockof x \<noteq> e_ctx e \<longrightarrow> map_option core x' = map_option core x) \<and>
     (\<exists>new ops. ms_outs s' = ms_outs s @ new \<and> streams e new ops \<and> ops_at (e_cfg e) k ops x x')"

text \<open>What a callback may rely on: its object is well formed and the list of locks tells whether it is locked.\<close>

definition callable :: "menv \<Rightarrow> string \<Rightarrow> object \<Rightarrow> mstate \<Rightarrow> bool" where
  "callable e k ob s \<longleftrightarrow>
     e_ctx e \<noteq> - 1 \<and> 20 \<le> heap_data_limit (e_cfg e) \<and> distinct (e_slaves e) \<and> object_ok (e_cfg e) ob \<and>
     (k \<in> set (ms_locks s) \<longleftrightarrow> o_lock ob = e_ctx e)"

definition fits :: "menv \<Rightarrow> string \<Rightarrow> object \<Rightarrow> mstate \<Rightarrow> exn + (bool \<times> object \<times> mstate) \<Rightarrow> bool" where
  "fits e k ob s res =
     (case res of Inl _ \<Rightarrow> False | Inr (_, ob', s') \<Rightarrow> sane e k (Some ob) s (Some ob') s')"

definition fits_del :: "menv \<Rightarrow> string \<Rightarrow> object \<Rightarrow> mstate \<Rightarrow> exn + (bool \<times> object \<times> mstate) \<Rightarrow> bool" where
  "fits_del e k ob s res =
     (case res of Inl _ \<Rightarrow> False
      | Inr (del, ob', s') \<Rightarrow> sane e k (Some ob) s (if del then None else Some ob') s')"

definition fits_new :: "menv \<Rightarrow> string \<Rightarrow> mstate \<Rightarrow> exn + (object \<times> mstate) \<Rightarrow> bool" where
  "fits_new e k s res = (case res of Inl _ \<Rightarrow> False | Inr (ob', s') \<Rightarrow> sane e k None s (Some ob') s')"

lemma fits_simps [simp]:
  "fits e k ob s (Inr (r, ob', s')) = sane e k (Some ob) s (Some ob') s'"
  "fits_del e k ob s (Inr (del, ob', s')) = sane e k (Some ob) s (if del then None else Some ob') s'"
  "fits_new e k s (Inr (ob', s')) = sane e k None s (Some ob') s'"
  "\<not> fits e k ob s (Inl x)" "\<not> fits_del e k ob s (Inl x)" "\<not> fits_new e k s (Inl x)"
  by (simp_all add: fits_def fits_del_def fits_new_def)

lemma fitsD:
  "fits e k ob s res \<Longrightarrow> \<exists>r ob' s'. res = Inr (r, ob', s') \<and> sane e k (Some ob) s (Some ob') s'"
  "fits_del e k ob s res \<Longrightarrow> \<exists>del ob' s'. res = Inr (del, ob', s') \<and> sane e k (Some ob) s (if del then None else Some ob') s'"
  "fits_new e k s nres \<Longrightarrow> \<exists>ob' s'. nres = Inr (ob', s') \<and> sane e k None s (Some ob') s'"
  by (cases res; force simp: fits_def fits_del_def fits_new_def split: sum.splits)+

definition good_handler :: "menv \<Rightarrow> string \<Rightarrow> (object, mstate) handler \<Rightarrow> bool" where
  "good_handler e k h \<longleftrightarrow> (\<forall>ob s. callable e k ob s \<longrightarrow> fits e k ob s (h k ob s))"

definition good_pred :: "menv \<Rightarrow> string \<Rightarrow> (object, mstate) handler \<Rightarrow> bool" where
  "good_pred e k p \<longleftrightarrow> (\<forall>ob s. callable e k ob s \<longrightarrow> fits_del e k ob s (p k ob s))"

definition good_creator :: "menv \<Rightarrow> string \<Rightarrow> (object, mstate) creator \<Rightarrow> bool" where
  "good_creator e k c \<longleftrightarrow>
     (\<forall>s. e_ctx e \<noteq> - 1 \<longrightarrow> distinct (e_slaves e) \<longrightarrow> 20 \<le> heap_data_limit (e_cfg e) \<longrightarrow>
        length k \<le> MAX_KEY_LENGTH \<longrightarrow> fits_new e k s (c k s))"

section \<open>Ways to stay within the bound\<close>

lemma streams_client: "client_only new \<Longrightarrow> streams e new []"
  by (simp add: streams_def client_only_def)

lemma streams_append: "client_only xs \<Longrightarrow> streams e ys ops \<Longrightarrow> streams e (xs @ ys) ops"
  "client_only xs \<Longrightarrow> streams e ys ops \<Longrightarrow> streams e (ys @ xs) ops"
  by (simp_all add: streams_def client_only_def)

lemma slave_bytes_map:
  "distinct sl \<Longrightarrow> slave_bytes (map (\<lambda>j. Send_slave j b f) sl) i = (if i \<in> set sl then b else [])"
  by (induction sl) auto

lemma streams_repl:
  assumes "distinct (e_slaves e)"
  shows "streams e (fst (repl_object (e_slaves e) k ob fl)) [R_set k ob]"
    "streams e (repl_touch (e_slaves e) k ob) [R_touch k ob]"
    "streams e (repl_delete (e_slaves e) k) [R_delete k]"
  using assms by (simp_all add: streams_def repl_object_def repl_touch_def repl_delete_def slave_bytes_map)

lemma streams_no_slaves: "e_slaves e = [] \<Longrightarrow> client_only new \<Longrightarrow> streams e new ops"
  by (simp add: streams_def client_only_def)

lemma view_gc_old [simp]: "view (ob\<lparr>o_gc_old := a\<rparr>) = view ob" "core (ob\<lparr>o_gc_old := a\<rparr>) = core ob"
  "view (ob\<lparr>o_lock := l\<rparr>) = view ob" "core (ob\<lparr>o_lock := l\<rparr>) = core ob"
  "core (ob\<lparr>o_exptime := t\<rparr>) = core ob"
  by (simp_all add: view_def core_def)

text \<open>The object keeps its value; only its age may change.\<close>

lemma sane_keep:
  assumes "object_ok (e_cfg e) ob" "ob' = ob \<or> ob' = ob\<lparr>o_gc_old := 0\<rparr>"
    "ms_locks s' = ms_locks s" "ms_outs s' = ms_outs s @ new" "client_only new"
  shows "sane e k (Some ob) s (Some ob') s'"
  using assms streams_client [of new e] by (auto simp: sane_def ops_at_def intro!: exI [of _ new] exI [of _ "[]"])

lemma sane_absent:
  assumes "ms_locks s' = ms_locks s" "ms_outs s' = ms_outs s @ new" "client_only new"
  shows "sane e k None s None s'"
  using assms streams_client [of new e] by (auto simp: sane_def ops_at_def intro!: exI [of _ new] exI [of _ "[]"])

text \<open>The object is replaced and replicated, possibly after its lock was released.\<close>

lemma do_repl_object_cases:
  assumes "distinct (e_slaves e)" "object_ok (e_cfg e) ob" "(ob', s') = do_repl_object e k ob s"
  obtains new where "ob' = ob \<or> ob' = ob\<lparr>o_gc_old := 0\<rparr>" "ms_locks s' = ms_locks s" "ms_outs s' = ms_outs s @ new"
    "streams e new [R_set k ob]"
proof (cases "e_slaves e = []")
  case True
  with assms(3) that [of "[]"] show thesis by (simp add: do_repl_object_def streams_no_slaves)
next
  case False
  with assms(3) that [of "fst (repl_object (e_slaves e) k ob True)"] streams_repl(1) [OF assms(1), of k ob True]
  show thesis by (simp add: do_repl_object_def repl_object_def object_data_eq)
qed

lemma sane_store:
  assumes "distinct (e_slaves e)" "object_ok (e_cfg e) ob1" "(ob2, s2) = do_repl_object e k ob1 s1"
    and lock: "lockof x = - 1 \<or> lockof x = e_ctx e"
      "o_lock ob1 = lockof x \<and> ms_locks s1 = ms_locks s \<or>
       lockof x = e_ctx e \<and> o_lock ob1 = - 1 \<and> ms_locks s1 = remove1 k (ms_locks s)"
    and key: "x = None \<Longrightarrow> length k \<le> MAX_KEY_LENGTH"
    and outs: "\<exists>new. ms_outs s1 = ms_outs s @ new \<and> client_only new"
  shows "sane e k x s (Some ob2) s2"
proof -
  obtain new where outs: "ms_outs s1 = ms_outs s @ new" "client_only new" using outs by blast
  obtain new' where n: "ob2 = ob1 \<or> ob2 = ob1\<lparr>o_gc_old := 0\<rparr>" "ms_locks s2 = ms_locks s1"
    "ms_outs s2 = ms_outs s1 @ new'" "streams e new' [R_set k ob1]"
    using do_repl_object_cases [OF assms(1-3)] by blast
  have "ops_at (e_cfg e) k [R_set k ob1] x (Some ob2)" using n(1) assms(2) by (auto simp: ops_at_def)
  moreover have "ms_outs s2 = ms_outs s @ (new @ new')" "streams e (new @ new') [R_set k ob1]"
    using n(3,4) outs streams_append by auto
  ultimately show ?thesis using assms(2) lock key n(1,2) unfolding sane_def by fastforce
qed

lemma do_repl_touch_streams:
  assumes "distinct (e_slaves e)"
  obtains new where "ms_locks (do_repl_touch e k ob s) = ms_locks s" "ms_outs (do_repl_touch e k ob s) = ms_outs s @ new"
    "streams e new [R_touch k ob]"
  using assms that [of "[]"] that [of "repl_touch (e_slaves e) k ob"] streams_repl(2) [OF assms, of k ob]
  by (cases "e_slaves e = []") (simp_all add: do_repl_touch_def streams_no_slaves)

lemma do_repl_delete_streams:
  assumes "distinct (e_slaves e)"
  obtains new where "ms_locks (do_repl_delete e k s) = ms_locks s" "ms_outs (do_repl_delete e k s) = ms_outs s @ new"
    "streams e new [R_delete k]"
  using assms that [of "[]"] that [of "repl_delete (e_slaves e) k"] streams_repl(3) [OF assms, of k]
  by (cases "e_slaves e = []") (simp_all add: do_repl_delete_def streams_no_slaves)

end
