(* ===== verification/Memcache_Handlers.thy ===== *)
theory Memcache_Handlers
  imports Memcache_Facts
begin

text \<open>
  Every callback of the binary and of the text commands stays within the bound \<^const>\<open>sane\<close> and throws
  no exception.
\<close>

section \<open>Common endings\<close>

lemma callableD:
  assumes "callable e k ob s"
  shows "e_ctx e \<noteq> - 1" "20 \<le> heap_data_limit (e_cfg e)" "distinct (e_slaves e)" "object_ok (e_cfg e) ob"
    "k \<in> set (ms_locks s) \<longleftrightarrow> o_lock ob = e_ctx e"
  using assms by (simp_all add: callable_def)

text \<open>The value, the flags and the CAS value stay; lock, age and expiration time may change.\<close>

lemma sane_core:
  assumes "object_ok (e_cfg e) ob'" "core ob' = core ob"
    and lock: "o_lock ob' = o_lock ob \<and> ms_locks s' = ms_locks s \<or>
       o_lock ob = - 1 \<and> o_lock ob' = e_ctx e \<and> ms_locks s' = ms_locks s @ [k] \<or>
       o_lock ob = e_ctx e \<and> o_lock ob' = - 1 \<and> ms_locks s' = remove1 k (ms_locks s)"
    and outs: "ms_outs s' = ms_outs s @ new" "streams e new ops"
    and ops: "ops = [] \<and> o_exptime ob' = o_exptime ob \<or> (\<exists>o1. ops = [R_touch k o1] \<and> o_exptime ob' = o_exptime o1)"
  shows "sane e k (Some ob) s (Some ob') s'"
proof -
  have "ops_at (e_cfg e) k ops (Some ob) (Some ob')"
    using assms(2) ops by (auto simp: ops_at_def view_def core_def)
  with assms show ?thesis unfolding sane_def by auto
qed

lemma client_only_if [simp]:
  "client_only (if b then x else y) \<longleftrightarrow> (b \<longrightarrow> client_only x) \<and> (\<not> b \<longrightarrow> client_only y)"
  by simp

lemma bin_fail_fits:
  assumes "callable e k ob s" "status \<noteq> St_OK" "ms_locks s1 = ms_locks s" "ms_outs s1 = ms_outs s"
  shows "fits e k ob s (bin_fail cmd status ob s1)"
proof -
  obtain evs where "client_only evs" "\<And>s. bin_error cmd status s = Inr (emit evs s)"
    using bin_error_total [OF assms(2)] by blast
  with assms callableD(4) [OF assms(1)] show ?thesis by (auto simp: bin_fail_def intro!: sane_keep)
qed

lemma sane_unchanged: "callable e k ob s \<Longrightarrow> sane e k (Some ob) s (Some ob) s"
  using callableD(4) by (auto intro!: sane_keep [of _ _ _ _ _ "[]"])

lemma remove_lock_held: "k \<in> set (ms_locks s) \<Longrightarrow> remove_lock k s = Inr (s\<lparr>ms_locks := remove1 k (ms_locks s)\<rparr>)"
  by (simp add: remove_lock_def)

lemma locked_by_other_iff: "locked_by_other ctx ob \<longleftrightarrow> o_lock ob \<noteq> - 1 \<and> o_lock ob \<noteq> ctx"
  by (simp add: locked_by_other_def object_locked_def locked_by_self_def)

lemma core_touch [simp]: "core (object_touch t ob) = core ob"
  by (simp add: core_def)

lemma sane_set:
  assumes c: "callable e k ob s" and free: "\<not> locked_by_other (e_ctx e) ob"
    and "object_ok (e_cfg e) ob1" "o_lock ob1 = o_lock ob" "ms_locks s1 = ms_locks s"
    and "\<exists>new. ms_outs s1 = ms_outs s @ new \<and> client_only new" "(ob2, s2) = do_repl_object e k ob1 s1"
  shows "sane e k (Some ob) s (Some ob2) s2"
  using assms callableD [OF c] by (intro sane_store [OF _ assms(3) assms(7)]) (auto simp: locked_by_other_iff)

section \<open>Binary commands\<close>

lemma good_bin_get: "good_handler e k (bin_get_handler e cmd)"
  unfolding good_handler_def
proof (intro allI impI)
  fix ob s
  assume c: "callable e k ob s"
  note cD = callableD [OF c]
  define lag where "lag = is_lag (br_command cmd)"
  show "fits e k ob s (bin_get_handler e cmd k ob s)"
  proof (cases "lag \<and> object_locked ob")
    case True
    then show ?thesis using bin_fail_fits [OF c] by (simp add: bin_get_handler_def lag_def)
  next
    case False
    define ob1 s1 where "ob1 = (if lag then ob\<lparr>o_lock := e_ctx e\<rparr> else ob)" and "s1 = (if lag then add_lock k s else s)"
    have pre: "(if lag then bind_res (object_lock (e_ctx e) ob) (\<lambda>ob1. Inr (ob1, add_lock k s)) else Inr (ob, s)) =
        (Inr (ob1, s1) :: exn + _)"
      using False by (simp add: ob1_def s1_def object_lock_def)
    have o1: "object_ok (e_cfg e) ob1" "core ob1 = core ob" "o_exptime ob1 = o_exptime ob" "ms_outs s1 = ms_outs s"
      using cD(4) by (simp_all add: ob1_def s1_def)
    have lock: "o_lock ob1 = o_lock ob \<and> ms_locks s1 = ms_locks s \<or>
        o_lock ob = - 1 \<and> o_lock ob1 = e_ctx e \<and> ms_locks s1 = ms_locks s @ [k]"
      using False by (auto simp: ob1_def s1_def object_locked_def)
    have expired: "sane e k (Some ob) s (Some ob1) s1"
      by (rule sane_core [where new = "[]" and ops = "[]"]) (use o1 lock in \<open>auto simp: streams_client\<close>)
    have plain: "sane e k (Some ob) s (Some (ob1\<lparr>o_gc_old := 0\<rparr>)) (emit evs s1)" if "client_only evs" for evs
      by (rule sane_core [where new = evs and ops = "[]"]) (use o1 lock that in \<open>auto simp: streams_client\<close>)
    define o2 where "o2 = object_touch (br_exptime cmd) ob1"
    obtain new where n: "ms_locks (do_repl_touch e k o2 s1) = ms_locks s1"
      "ms_outs (do_repl_touch e k o2 s1) = ms_outs s1 @ new" "streams e new [R_touch k o2]"
      using do_repl_touch_streams [OF cD(3)] by blast
    have o2: "object_ok (e_cfg e) o2" "core o2 = core ob" "o_lock o2 = o_lock ob1" using o1 by (simp_all add: o2_def)
    have touched: "sane e k (Some ob) s (Some (o2\<lparr>o_gc_old := 0\<rparr>)) (emit evs (do_repl_touch e k o2 s1))"
      if "client_only evs" for evs
      by (rule sane_core [where new = "new @ evs" and ops = "[R_touch k o2]"])
        (use o1 o2 lock that n in \<open>auto simp: streams_append\<close>)
    have "bin_get_handler e cmd k ob s =
       (if obj_expired e s1 ob1 then Inr (False, ob1, s1)
        else
          (let (ob2, s2) = (if br_exptime cmd \<noteq> EXPTIME_NONE then (o2, do_repl_touch e k o2 s1) else (ob1, s1))
           in Inr (True, ob2\<lparr>o_gc_old := 0\<rparr>,
                emit (binary_get cmd (o_flags ob2) (contents ob2) (o_cas ob2) (\<not> br_quiet cmd)
                        (if br_command cmd \<in> keyless_gets then None else Some k)) s2)))"
      unfolding bin_get_handler_def Let_def lag_def [symmetric] pre
      using False by (simp add: object_data_eq case_prod_beta o2_def del: de_Morgan_conj)
    then show ?thesis using expired plain touched by simp
  qed
qed

lemma good_bin_set: "good_handler e k (bin_set_handler e cmd)"
  unfolding good_handler_def
proof (intro allI impI)
  fix ob s
  assume c: "callable e k ob s"
  define ob1 where "ob1 = fst (object_set (e_cfg e) (br_data cmd) (br_flags cmd) (br_exptime cmd) ob)"
  define s1 where "s1 = reply_if (\<not> br_quiet cmd) (binary_set cmd (o_cas ob1)) s"
  define s2 where "s2 = (if br_cas_unique cmd \<noteq> 0 then upd_stats inc_cas_hits s1 else s1)"
  obtain ob2 s3 where r: "(ob2, s3) = do_repl_object e k ob1 s2" by (metis surj_pair)
  have "object_ok (e_cfg e) ob1" "o_lock ob1 = o_lock ob"
    using object_set_ok [OF callableD(4) [OF c]] by (simp_all add: ob1_def object_fields)
  moreover have "ms_locks s2 = ms_locks s" "ms_outs s2 = ms_outs s @ (if br_quiet cmd then [] else binary_set cmd (o_cas ob1))"
    by (simp_all add: s2_def s1_def)
  ultimately have stored: "sane e k (Some ob) s (Some ob2) s3" if "\<not> locked_by_other (e_ctx e) ob"
    using sane_set [OF c that _ _ _ _ r] by simp
  show "fits e k ob s (bin_set_handler e cmd k ob s)"
    unfolding bin_set_handler_def Let_def ob1_def [symmetric] s1_def [symmetric] s2_def [symmetric] r [symmetric]
    using bin_fail_fits [OF c] stored by simp
qed

lemma good_bin_set_creator: "good_creator e k (bin_set_creator e cmd)"
  unfolding good_creator_def
proof (intro allI impI)
  fix s
  assume c: "distinct (e_slaves e)" "length k \<le> MAX_KEY_LENGTH"
  define ob where "ob = object_new (e_cfg e) (br_data cmd) (br_flags cmd) (br_exptime cmd)"
  define s1 where "s1 = reply_if (\<not> br_quiet cmd) (binary_set cmd (o_cas ob)) (upd_stats count_object s)"
  obtain ob1 s2 where r: "(ob1, s2) = do_repl_object e k ob s1" by (metis surj_pair)
  have ok: "object_ok (e_cfg e) ob" "o_lock ob = - 1"
    by (simp_all add: ob_def object_new_ok) (simp add: object_new_def Let_def)
  have "sane e k None s (Some ob1) s2"
    by (rule sane_store [OF c(1) ok(1) r]) (use ok c in \<open>simp_all add: s1_def\<close>)
  then show "fits_new e k s (bin_set_creator e cmd k s)"
    unfolding bin_set_creator_def Let_def ob_def [symmetric] s1_def [symmetric] r [symmetric] by simp
qed

lemma good_bin_rau: "good_handler e k (bin_rau_handler e cmd)"
  unfolding good_handler_def
proof (intro allI impI)
  fix ob s
  assume c: "callable e k ob s"
  note cD = callableD [OF c]
  define ob1 where "ob1 = fst (object_set (e_cfg e) (br_data cmd) (br_flags cmd) (br_exptime cmd) ob)"
  define ob2 where "ob2 = ob1\<lparr>o_lock := - 1\<rparr>"
  define s1 where "s1 = s\<lparr>ms_locks := remove1 k (ms_locks s)\<rparr>"
  define s2 where "s2 = reply_if (\<not> br_quiet cmd) (binary_set cmd (o_cas ob2)) s1"
  obtain ob3 s3 where r: "(ob3, s3) = do_repl_object e k ob2 s2" by (metis surj_pair)
  show "fits e k ob s (bin_rau_handler e cmd k ob s)"
  proof (cases "locked_by_self (e_ctx e) ob")
    case False
    then show ?thesis using bin_fail_fits [OF c] by (simp add: bin_rau_handler_def)
  next
    case True
    then have l: "o_lock ob = e_ctx e" by (simp add: locked_by_self_def)
    have ok: "object_ok (e_cfg e) ob2" using object_set_ok [OF cD(4)] by (simp add: ob2_def ob1_def)
    have u: "object_unlock (e_ctx e) False ob1 = Inr ob2" "remove_lock k s = Inr s1"
      using l cD(5) by (simp_all add: object_unlock_def locked_by_self_def ob1_def ob2_def object_fields remove_lock_def s1_def)
    have "sane e k (Some ob) s (Some ob3) s3"
      by (rule sane_store [OF cD(3) ok r]) (use l in \<open>simp_all add: s2_def s1_def ob2_def\<close>)
    then show ?thesis
      using True bin_fail_fits [OF c]
      by (simp add: bin_rau_handler_def Let_def ob1_def [symmetric] u s2_def [symmetric] r [symmetric])
  qed
qed

lemma good_bin_concat:
  assumes f: "\<And>p ob. object_ok (e_cfg e) ob \<Longrightarrow> object_ok (e_cfg e) (f p ob) \<and> o_lock (f p ob) = o_lock ob"
  shows "good_handler e k (bin_concat_handler f e cmd)"
  unfolding good_handler_def
proof (intro allI impI)
  fix ob s
  assume c: "callable e k ob s"
  define ob1 where "ob1 = f (br_data cmd) ob"
  define s1 where "s1 = reply_if (\<not> br_quiet cmd) (binary_set cmd (o_cas ob1)) s"
  obtain ob2 s2 where r: "(ob2, s2) = do_repl_object e k ob1 s1" by (metis surj_pair)
  have "sane e k (Some ob) s (Some ob2) s2" if "\<not> locked_by_other (e_ctx e) ob"
    by (rule sane_set [OF c that _ _ _ _ r]) (use f [OF callableD(4) [OF c]] in \<open>simp_all add: ob1_def s1_def\<close>)
  then show "fits e k ob s (bin_concat_handler f e cmd k ob s)"
    unfolding bin_concat_handler_def Let_def ob1_def [symmetric] s1_def [symmetric] r [symmetric]
    using bin_fail_fits [OF c] sane_unchanged [OF c] by simp
qed

lemma append_lock: "object_ok g ob \<Longrightarrow> object_ok g (fst (object_append g p ob)) \<and> o_lock (fst (object_append g p ob)) = o_lock ob"
  and prepend_lock: "object_ok g ob \<Longrightarrow> object_ok g (fst (object_prepend g p ob)) \<and> o_lock (fst (object_prepend g p ob)) = o_lock ob"
  by (simp_all add: object_append_ok object_prepend_ok object_fields)

lemma good_bin_append: "good_handler e k (bin_append_handler e cmd)"
  and good_bin_prepend: "good_handler e k (bin_prepend_handler e cmd)"
  unfolding bin_append_handler_def bin_prepend_handler_def
  by (rule good_bin_concat; simp add: append_lock prepend_lock)+

lemma good_bin_delete: "good_pred e k (bin_delete_pred e cmd)"
  unfolding good_pred_def
proof (intro allI impI)
  fix ob s
  assume c: "callable e k ob s"
  note cD = callableD [OF c]
  have keep: "fits_del e k ob s (bind_res (bin_error cmd status s) (\<lambda>s'. Inr (False, ob, s')))" if ne: "status \<noteq> St_OK" for status
  proof -
    obtain evs where "client_only evs" "\<And>s. bin_error cmd status s = Inr (emit evs s)"
      using bin_error_total [OF ne] by blast
    with cD(4) show ?thesis by (auto intro!: sane_keep)
  qed
  define s1 where "s1 = (if locked_by_self (e_ctx e) ob then s\<lparr>ms_locks := remove1 k (ms_locks s)\<rparr> else s)"
  define s2 where "s2 = reply_if (\<not> br_quiet cmd) (binary_success cmd) s1"
  have rl: "(if locked_by_self (e_ctx e) ob then remove_lock k s else Inr s) = Inr s1"
    using cD(5) by (simp add: s1_def remove_lock_def locked_by_self_def)
  obtain new where n: "ms_locks (do_repl_delete e k s2) = ms_locks s2"
    "ms_outs (do_repl_delete e k s2) = ms_outs s2 @ new" "streams e new [R_delete k]"
    using do_repl_delete_streams [OF cD(3)] by blast
  let ?evs = "(if br_quiet cmd then [] else binary_success cmd) @ new"
  have "sane e k (Some ob) s None (do_repl_delete e k s2)" if "\<not> locked_by_other (e_ctx e) ob"
    unfolding sane_def
    using that n streams_append(1) [of "if br_quiet cmd then [] else binary_success cmd" e new "[R_delete k]"]
    by (auto simp: locked_by_other_iff s2_def s1_def locked_by_self_def ops_at_def intro!: exI [of _ ?evs] exI [of _ "[R_delete k]"])
  then show "fits_del e k ob s (bin_delete_pred e cmd k ob s)"
    unfolding bin_delete_pred_def rl using keep by (simp add: s2_def)
qed

lemma arith_cases:
  assumes "object_ok g ob" "20 \<le> heap_data_limit g" "f = object_incr \<or> f = object_decr"
  shows "f v ob = Inl Not_a_number \<or>
    (\<exists>n ob' fr. f v ob = Inr (n, ob', fr) \<and> object_ok g ob' \<and> o_lock ob' = o_lock ob)"
proof -
  obtain h where h: "f v = object_arith h" using assms(3) by (auto simp: object_incr_def object_decr_def)
  show ?thesis
    unfolding h using object_arith_throws [OF assms(1), of h] object_arith_ok(1) [OF assms(1,2), of h]
      object_arith_fields(4) [of h ob]
    by (cases "object_arith h ob") auto
qed

lemma good_bin_arith:
  assumes f: "f = object_incr \<or> f = object_decr"
  shows "good_handler e k (bin_arith_handler f e cmd)"
  unfolding good_handler_def
proof (intro allI impI)
  fix ob s
  assume c: "callable e k ob s"
  have stored: "fits e k ob s (let s1 = reply_if (\<not> br_quiet cmd) (binary_incdec cmd n (o_cas ob1)) s;
                  (ob2, s2) = do_repl_object e k ob1 s1 in Inr (True, ob2, s2))"
    if "\<not> locked_by_other (e_ctx e) ob" "object_ok (e_cfg e) ob1" "o_lock ob1 = o_lock ob" for n ob1
  proof -
    define s1 where "s1 = reply_if (\<not> br_quiet cmd) (binary_incdec cmd n (o_cas ob1)) s"
    obtain ob2 s2 where r: "(ob2, s2) = do_repl_object e k ob1 s1" by (metis surj_pair)
    have "sane e k (Some ob) s (Some ob2) s2"
      by (rule sane_set [OF c that _ _ r]) (simp_all add: s1_def)
    then show ?thesis unfolding Let_def s1_def [symmetric] r [symmetric] by simp
  qed
  show "fits e k ob s (bin_arith_handler f e cmd k ob s)"
    unfolding bin_arith_handler_def
    using bin_fail_fits [OF c] sane_unchanged [OF c] stored arith_cases [OF callableD(4,2) [OF c] f, of "br_value cmd"]
    by auto
qed

lemma good_bin_arith_creator: "good_creator e k (bin_arith_creator e cmd)"
  unfolding good_creator_def
proof (intro allI impI)
  fix s
  assume c: "distinct (e_slaves e)" "length k \<le> MAX_KEY_LENGTH" "20 \<le> heap_data_limit (e_cfg e)"
  define ob where "ob = object_new_number (e_cfg e) (br_initial cmd) (br_exptime cmd)"
  define s1 where "s1 = reply_if (\<not> br_quiet cmd) (binary_incdec cmd (br_initial cmd) (o_cas ob)) (upd_stats count_object s)"
  obtain ob1 s2 where r: "(ob1, s2) = do_repl_object e k ob s1" by (metis surj_pair)
  have ok: "object_ok (e_cfg e) ob" "o_lock ob = - 1"
    using object_new_number_ok [OF c(3)] by (simp_all add: ob_def) (simp add: object_new_number_def Let_def)
  have "sane e k None s (Some ob1) s2"
    by (rule sane_store [OF c(1) ok(1) r]) (use ok c in \<open>simp_all add: s1_def\<close>)
  then show "fits_new e k s (bin_arith_creator e cmd k s)"
    unfolding bin_arith_creator_def Let_def ob_def [symmetric] s1_def [symmetric] r [symmetric] by simp
qed

lemma good_bin_touch: "good_handler e k (bin_touch_handler e cmd)"
  unfolding good_handler_def
proof (intro allI impI)
  fix ob s
  assume c: "callable e k ob s"
  note cD = callableD [OF c]
  define o1 where "o1 = object_touch (br_exptime cmd) ob"
  obtain new where n: "ms_locks (do_repl_touch e k o1 s) = ms_locks s"
    "ms_outs (do_repl_touch e k o1 s) = ms_outs s @ new" "streams e new [R_touch k o1]"
    using do_repl_touch_streams [OF cD(3)] by blast
  have "sane e k (Some ob) s (Some o1) (emit (binary_set cmd (o_cas o1)) (do_repl_touch e k o1 s))"
    by (rule sane_core [where new = "new @ binary_set cmd (o_cas o1)" and ops = "[R_touch k o1]"])
      (use cD n in \<open>simp_all add: o1_def streams_append\<close>)
  then show "fits e k ob s (bin_touch_handler e cmd k ob s)"
    using sane_unchanged [OF c] by (simp add: bin_touch_handler_def Let_def o1_def)
qed

lemma sane_locked:
  assumes "callable e k ob s" "\<not> object_locked ob" "ms_locks s' = ms_locks s @ [k]"
    "\<exists>new. ms_outs s' = ms_outs s @ new \<and> client_only new"
  shows "sane e k (Some ob) s (Some (ob\<lparr>o_lock := e_ctx e\<rparr>)) s'"
proof -
  obtain new where "ms_outs s' = ms_outs s @ new" "client_only new" using assms(4) by blast
  with assms callableD(4) [OF assms(1)] show ?thesis
    by (intro sane_core [where new = new and ops = "[]"]) (simp_all add: streams_client object_locked_def)
qed

lemma sane_unlocked:
  assumes "callable e k ob s" "locked_by_self (e_ctx e) ob" "ms_locks s' = remove1 k (ms_locks s)"
    "\<exists>new. ms_outs s' = ms_outs s @ new \<and> client_only new"
  shows "sane e k (Some ob) s (Some (ob\<lparr>o_lock := - 1\<rparr>)) s'"
proof -
  obtain new where "ms_outs s' = ms_outs s @ new" "client_only new" using assms(4) by blast
  with assms callableD(4) [OF assms(1)] show ?thesis
    by (intro sane_core [where new = new and ops = "[]"]) (simp_all add: streams_client locked_by_self_def)
qed

lemma unlock_self:
  assumes "callable e k ob s" "locked_by_self (e_ctx e) ob"
  shows "object_unlock (e_ctx e) False ob = Inr (ob\<lparr>o_lock := - 1\<rparr>)"
    "remove_lock k s = Inr (s\<lparr>ms_locks := remove1 k (ms_locks s)\<rparr>)"
  using assms callableD(5) [OF assms(1)] by (simp_all add: object_unlock_def remove_lock_def locked_by_self_def)

lemma good_bin_lock: "good_handler e k (bin_lock_handler e cmd)"
  unfolding good_handler_def
proof (intro allI impI)
  fix ob s
  assume c: "callable e k ob s"
  show "fits e k ob s (bin_lock_handler e cmd k ob s)"
    using bin_fail_fits [OF c] sane_unchanged [OF c]
      sane_locked [OF c, of "reply_if (\<not> br_quiet cmd) (binary_success cmd) (add_lock k s)"]
    by (simp add: bin_lock_handler_def object_lock_def)
qed

lemma good_bin_unlock: "good_handler e k (bin_unlock_handler e cmd)"
  unfolding good_handler_def
proof (intro allI impI)
  fix ob s
  assume c: "callable e k ob s"
  show "fits e k ob s (bin_unlock_handler e cmd k ob s)"
    using bin_fail_fits [OF c] unlock_self [OF c]
      sane_unlocked [OF c, of "reply_if (\<not> br_quiet cmd) (binary_success cmd) (s\<lparr>ms_locks := remove1 k (ms_locks s)\<rparr>)"]
    by (simp add: bin_unlock_handler_def)
qed

section \<open>Text commands\<close>

lemma sane_answer:
  assumes "callable e k ob s" "ob' = ob \<or> ob' = ob\<lparr>o_gc_old := 0\<rparr>" "ms_locks s' = ms_locks s"
    "\<exists>new. ms_outs s' = ms_outs s @ new \<and> client_only new"
  shows "sane e k (Some ob) s (Some ob') s'"
proof -
  obtain new where "ms_outs s' = ms_outs s @ new" "client_only new" using assms(4) by blast
  with assms show ?thesis by (intro sane_keep [OF callableD(4) [OF assms(1)]]) simp_all
qed

lemma fits_store:
  assumes "callable e k ob s" "\<not> locked_by_other (e_ctx e) ob" "object_ok (e_cfg e) ob1" "o_lock ob1 = o_lock ob"
    "ms_locks s1 = ms_locks s" "\<exists>new. ms_outs s1 = ms_outs s @ new \<and> client_only new"
    "\<And>t. ms_locks (f t) = ms_locks t \<and> ms_outs (f t) = ms_outs t"
  shows "fits e k ob s (case do_repl_object e k ob1 s1 of (ob2, s2) \<Rightarrow> Inr (r, ob2, f s2))"
proof -
  obtain ob2 s2 where r: "(ob2, s2) = do_repl_object e k ob1 s1" by (metis surj_pair)
  have "sane e k (Some ob) s (Some ob2) s2" by (rule sane_set [OF assms(1-6) r])
  then have "sane e k (Some ob) s (Some ob2) (f s2)" using assms(7) by (simp add: sane_def)
  then show ?thesis unfolding r [symmetric] by simp
qed

lemma set_lock: "object_ok g ob \<Longrightarrow> object_ok g (fst (object_set g p fl t ob)) \<and> o_lock (fst (object_set g p fl t ob)) = o_lock ob"
  by (simp add: object_set_ok object_fields)

lemma good_txt_set: "good_handler e k (txt_set_handler e cmd)"
  unfolding good_handler_def
proof (intro allI impI)
  fix ob s
  assume c: "callable e k ob s"
  show "fits e k ob s (txt_set_handler e cmd k ob s)"
    using sane_unchanged [OF c] sane_answer [OF c, of ob "answer_if cmd TEXT_LOCKED s"]
      set_lock [OF callableD(4) [OF c]] fits_store [OF c, where f = id]
    by (simp add: txt_set_handler_def Let_def)
qed

lemma good_txt_set_creator: "good_creator e k (txt_set_creator e cmd)"
  unfolding good_creator_def
proof (intro allI impI)
  fix s
  assume c: "distinct (e_slaves e)" "length k \<le> MAX_KEY_LENGTH"
  define ob where "ob = object_new (e_cfg e) (tr_data cmd) (tr_flags cmd) (tr_exptime cmd)"
  define s1 where "s1 = answer_if cmd TEXT_STORED (upd_stats count_object s)"
  obtain ob1 s2 where r: "(ob1, s2) = do_repl_object e k ob s1" by (metis surj_pair)
  have ok: "object_ok (e_cfg e) ob" "o_lock ob = - 1"
    by (simp_all add: ob_def object_new_ok) (simp add: object_new_def Let_def)
  have "sane e k None s (Some ob1) s2"
    by (rule sane_store [OF c(1) ok(1) r]) (use ok c in \<open>simp_all add: s1_def\<close>)
  then show "fits_new e k s (txt_set_creator e cmd k s)"
    unfolding txt_set_creator_def Let_def ob_def [symmetric] s1_def [symmetric] r [symmetric] by simp
qed

lemma good_txt_concat:
  assumes f: "\<And>p ob. object_ok (e_cfg e) ob \<Longrightarrow> object_ok (e_cfg e) (f p ob) \<and> o_lock (f p ob) = o_lock ob"
  shows "good_handler e k (txt_concat_handler f e cmd)"
  unfolding good_handler_def
proof (intro allI impI)
  fix ob s
  assume c: "callable e k ob s"
  show "fits e k ob s (txt_concat_handler f e cmd k ob s)"
    using sane_unchanged [OF c] sane_answer [OF c, of ob "answer_if cmd TEXT_LOCKED s"]
      f [OF callableD(4) [OF c]] fits_store [OF c, where f = id]
    by (simp add: txt_concat_handler_def Let_def)
qed

lemma good_txt_append: "good_handler e k (txt_append_handler e cmd)"
  and good_txt_prepend: "good_handler e k (txt_prepend_handler e cmd)"
  unfolding txt_append_handler_def txt_prepend_handler_def
  by (rule good_txt_concat; simp add: append_lock prepend_lock)+

lemma good_txt_cas: "good_handler e k (txt_cas_handler e cmd)"
  unfolding good_handler_def
proof (intro allI impI)
  fix ob s
  assume c: "callable e k ob s"
  show "fits e k ob s (txt_cas_handler e cmd k ob s)"
    using sane_unchanged [OF c] sane_answer [OF c, of ob "answer_if cmd TEXT_LOCKED s"]
      sane_answer [OF c, of ob "upd_stats inc_cas_badval (answer_if cmd TEXT_EXISTS s)"]
      set_lock [OF callableD(4) [OF c]] fits_store [OF c, where f = "upd_stats inc_cas_hits"]
    by (simp add: txt_cas_handler_def Let_def)
qed

lemma good_txt_arith:
  assumes f: "f = object_incr \<or> f = object_decr"
  shows "good_handler e k (txt_arith_handler f e cmd)"
  unfolding good_handler_def
proof (intro allI impI)
  fix ob s
  assume c: "callable e k ob s"
  show "fits e k ob s (txt_arith_handler f e cmd k ob s)"
    using sane_unchanged [OF c] sane_answer [OF c, of ob "answer_if cmd TEXT_LOCKED s"]
      sane_answer [OF c, of ob "answer_if cmd NON_NUMERIC s"]
      arith_cases [OF callableD(4,2) [OF c] f, of "tr_value cmd"] fits_store [OF c, where f = id]
    by (auto simp: txt_arith_handler_def Let_def)
qed

lemma good_txt_touch: "good_handler e k (txt_touch_handler e cmd)"
  unfolding good_handler_def
proof (intro allI impI)
  fix ob s
  assume c: "callable e k ob s"
  note cD = callableD [OF c]
  define o1 where "o1 = object_touch (tr_exptime cmd) ob"
  obtain new where n: "ms_locks (do_repl_touch e k o1 s) = ms_locks s"
    "ms_outs (do_repl_touch e k o1 s) = ms_outs s @ new" "streams e new [R_touch k o1]"
    using do_repl_touch_streams [OF cD(3)] by blast
  have "sane e k (Some ob) s (Some o1) (do_repl_touch e k o1 s)"
    by (rule sane_core [where new = new and ops = "[R_touch k o1]"]) (use cD n in \<open>simp_all add: o1_def\<close>)
  then show "fits e k ob s (txt_touch_handler e cmd k ob s)"
    using sane_unchanged [OF c] by (simp add: txt_touch_handler_def Let_def o1_def)
qed

lemma good_txt_delete: "good_pred e k (txt_delete_pred e cmd)"
  unfolding good_pred_def
proof (intro allI impI)
  fix ob s
  assume c: "callable e k ob s"
  note cD = callableD [OF c]
  define s1 where "s1 = (if locked_by_self (e_ctx e) ob then s\<lparr>ms_locks := remove1 k (ms_locks s)\<rparr> else s)"
  define s2 where "s2 = answer_if cmd TEXT_DELETED s1"
  have rl: "(if locked_by_self (e_ctx e) ob then remove_lock k s else Inr s) = Inr s1"
    using cD(5) by (simp add: s1_def remove_lock_def locked_by_self_def)
  obtain new where n: "ms_locks (do_repl_delete e k s2) = ms_locks s2"
    "ms_outs (do_repl_delete e k s2) = ms_outs s2 @ new" "streams e new [R_delete k]"
    using do_repl_delete_streams [OF cD(3)] by blast
  let ?evs = "(if tr_no_reply cmd then [] else text_const TEXT_DELETED) @ new"
  have "sane e k (Some ob) s None (do_repl_delete e k s2)" if "\<not> locked_by_other (e_ctx e) ob"
    unfolding sane_def
    using that n streams_append(1) [of "if tr_no_reply cmd then [] else text_const TEXT_DELETED" e new "[R_delete k]"]
    by (auto simp: locked_by_other_iff s2_def s1_def locked_by_self_def ops_at_def intro!: exI [of _ ?evs] exI [of _ "[R_delete k]"])
  then show "fits_del e k ob s (txt_delete_pred e cmd k ob s)"
    unfolding txt_delete_pred_def rl using sane_answer [OF c, of ob "answer_if cmd TEXT_LOCKED s"] by (simp add: s2_def)
qed

lemma good_txt_lock: "good_handler e k (txt_lock_handler e cmd)"
  unfolding good_handler_def
proof (intro allI impI)
  fix ob s
  assume c: "callable e k ob s"
  show "fits e k ob s (txt_lock_handler e cmd k ob s)"
    using sane_unchanged [OF c] sane_answer [OF c, of ob "answer TEXT_LOCKED s"]
      sane_locked [OF c, of "answer TEXT_OK (add_lock k s)"]
    by (simp add: txt_lock_handler_def object_lock_def)
qed

lemma good_txt_unlock: "good_handler e k (txt_unlock_handler e cmd)"
  unfolding good_handler_def
proof (intro allI impI)
  fix ob s
  assume c: "callable e k ob s"
  show "fits e k ob s (txt_unlock_handler e cmd k ob s)"
    using sane_unchanged [OF c] unlock_self [OF c]
      sane_unlocked [OF c, of "answer TEXT_OK (s\<lparr>ms_locks := remove1 k (ms_locks s)\<rparr>)"]
    by (simp add: txt_unlock_handler_def)
qed

lemma good_txt_get:
  assumes "length k \<le> MAX_KEY_LENGTH"
  shows "good_handler e k (txt_get_handler e cmd)"
  unfolding good_handler_def
proof (intro allI impI)
  fix ob s
  assume c: "callable e k ob s"
  have "sane e k (Some ob) s (Some (ob\<lparr>o_gc_old := 0\<rparr>)) (emit [Send x False] s)" for x
    by (rule sane_answer [OF c]) (simp_all add: client_only_def)
  then show "fits e k ob s (txt_get_handler e cmd k ob s)"
    using sane_unchanged [OF c] assms
    by (simp add: txt_get_handler_def object_data_eq text_value_def text_value_cas_def check_key_def)
qed

end
