(* ===== verification/Memcache_Commands.thy ===== *)
theory Memcache_Commands
  imports Memcache_Handlers
begin

text \<open>
  What one request does to the store.  The invariant \<open>ready\<close> ties the list of locks of a connection to
  the lock fields of the objects; the relation \<open>step_ok\<close> says what a request may change, including for the
  objects locked by others and for the streams to the slaves.  Every binary and text command
  returns without an exception and stays within it.
\<close>

section \<open>The invariant of a connection and the bound on a request\<close>

definition env_ok :: "menv \<Rightarrow> bool" where
  "env_ok e \<longleftrightarrow>
     e_ctx e \<noteq> - 1 \<and> 20 \<le> heap_data_limit (e_cfg e) \<and> distinct (e_slaves e) \<and> h_rusage (e_host e) \<noteq> None"

text \<open>The keys of the objects that a lock context has locked.\<close>

definition held :: "(string \<Rightarrow> u64) \<Rightarrow> object hash_map \<Rightarrow> int \<Rightarrow> string set" where
  "held hf m c = {k. \<exists>ob. hm_lookup hf m k = Some ob \<and> o_lock ob = c}"

definition keyed_ok :: "(string \<Rightarrow> u64) \<Rightarrow> cfg \<Rightarrow> object hash_map \<Rightarrow> bool" where
  "keyed_ok hf g m \<longleftrightarrow>
     hm_invar hf m \<and> (\<forall>k ob. hm_lookup hf m k = Some ob \<longrightarrow> object_ok g ob \<and> good_repl_key k)"

definition ready :: "(string \<Rightarrow> u64) \<Rightarrow> menv \<Rightarrow> object hash_map \<Rightarrow> mstate \<Rightarrow> bool" where
  "ready hf e m s \<longleftrightarrow>
     keyed_ok hf (e_cfg e) m \<and> distinct (ms_locks s) \<and> set (ms_locks s) = held hf m (e_ctx e)"

text \<open>Values that survive replication, as \<^const>\<open>repl_op_ok\<close> demands of one object.\<close>

definition replicable :: "view \<Rightarrow> bool" where
  "replicable v = (case v of (d, f, t) \<Rightarrow> 0 < length d \<and> length d \<le> MAX_REQUEST_LENGTH \<and> stable_exptime t)"

definition all_replicable :: "(string \<Rightarrow> u64) \<Rightarrow> object hash_map \<Rightarrow> bool" where
  "all_replicable hf m \<longleftrightarrow> (\<forall>k v. views hf m k = Some v \<longrightarrow> replicable v)"

definition step_ok ::
  "(string \<Rightarrow> u64) \<Rightarrow> menv \<Rightarrow> repl_op list \<Rightarrow> object hash_map \<Rightarrow> mstate \<Rightarrow> object hash_map \<Rightarrow> mstate \<Rightarrow> bool" where
  "step_ok hf e ops m s m' s' \<longleftrightarrow>
     ready hf e m' s' \<and>
     (\<forall>c. c \<noteq> - 1 \<and> c \<noteq> e_ctx e \<longrightarrow> held hf m' c = held hf m c) \<and>
     (\<forall>k ob. hm_lookup hf m k = Some ob \<and> o_lock ob \<noteq> - 1 \<and> o_lock ob \<noteq> e_ctx e \<longrightarrow>
        map_option core (hm_lookup hf m' k) = Some (core ob)) \<and>
     (\<exists>new. ms_outs s' = ms_outs s @ new \<and> streams e new ops) \<and>
     views hf m' = fold effect ops (views hf m) \<and>
     (all_replicable hf m' \<longrightarrow> list_all (repl_op_ok (e_cfg e)) ops)"

lemma step_okI:
  assumes "ready hf e m' s'" "\<And>c. c \<noteq> - 1 \<Longrightarrow> c \<noteq> e_ctx e \<Longrightarrow> held hf m' c = held hf m c"
    "\<And>k ob. hm_lookup hf m k = Some ob \<Longrightarrow> o_lock ob \<noteq> - 1 \<Longrightarrow> o_lock ob \<noteq> e_ctx e \<Longrightarrow>
       map_option core (hm_lookup hf m' k) = Some (core ob)"
    "ms_outs s' = ms_outs s @ new" "streams e new ops" "views hf m' = fold effect ops (views hf m)"
    "all_replicable hf m' \<Longrightarrow> list_all (repl_op_ok (e_cfg e)) ops"
  shows "step_ok hf e ops m s m' s'"
  using assms unfolding step_ok_def by blast

lemma step_okD:
  assumes "step_ok hf e ops m s m' s'"
  shows "ready hf e m' s'" "\<And>c. c \<noteq> - 1 \<Longrightarrow> c \<noteq> e_ctx e \<Longrightarrow> held hf m' c = held hf m c"
    "\<And>k ob. hm_lookup hf m k = Some ob \<Longrightarrow> o_lock ob \<noteq> - 1 \<Longrightarrow> o_lock ob \<noteq> e_ctx e \<Longrightarrow>
       map_option core (hm_lookup hf m' k) = Some (core ob)"
    "\<exists>new. ms_outs s' = ms_outs s @ new \<and> streams e new ops" "views hf m' = fold effect ops (views hf m)"
    "all_replicable hf m' \<Longrightarrow> list_all (repl_op_ok (e_cfg e)) ops"
  using assms unfolding step_ok_def by blast+

text \<open>A request that touches no value.\<close>

lemma step_ok_refl: "ready hf e m s \<Longrightarrow> step_ok hf e [] m s m s"
  by (rule step_okI [where new = "[]"]) (simp_all add: streams_client)

lemma streams_trans: "streams e xs ops \<Longrightarrow> streams e ys ops' \<Longrightarrow> streams e (xs @ ys) (ops @ ops')"
  by (simp add: streams_def)

lemma all_replicable_cong: "views hf m = views hf m' \<Longrightarrow> all_replicable hf m = all_replicable hf m'"
  by (simp add: all_replicable_def)

lemma step_ok_trans:
  assumes a: "step_ok hf e ops m s m1 s1" and b: "step_ok hf e ops' m1 s1 m2 s2" and one: "ops = [] \<or> ops' = []"
  shows "step_ok hf e (ops @ ops') m s m2 s2"
proof -
  note A = step_okD [OF a] and B = step_okD [OF b]
  obtain new new' where n: "ms_outs s1 = ms_outs s @ new" "streams e new ops" "ms_outs s2 = ms_outs s1 @ new'" "streams e new' ops'"
    using A(4) B(4) by blast
  show ?thesis
  proof (rule step_okI [where new = "new @ new'"])
    fix k ob
    assume k: "hm_lookup hf m k = Some ob" "o_lock ob \<noteq> - 1" "o_lock ob \<noteq> e_ctx e"
    then have "k \<in> held hf m (o_lock ob)" by (simp add: held_def)
    then have "k \<in> held hf m1 (o_lock ob)" using A(2) k by simp
    then obtain ob1 where ob1: "hm_lookup hf m1 k = Some ob1" "o_lock ob1 = o_lock ob" unfolding held_def by blast
    then have "core ob1 = core ob" using A(3) [OF k] by simp
    with B(3) [OF ob1(1)] ob1(2) k show "map_option core (hm_lookup hf m2 k) = Some (core ob)" by simp
  next
    assume r: "all_replicable hf m2"
    show "list_all (repl_op_ok (e_cfg e)) (ops @ ops')"
    proof (cases "ops = []")
      case True
      then show ?thesis using B(6) [OF r] by simp
    next
      case False
      then have none: "ops' = []" using one by simp
      then have "all_replicable hf m1" using B(5) r none all_replicable_cong [of hf m2 m1] by simp
      then show ?thesis using A(6) none by simp
    qed
  qed (use A B n in \<open>simp_all add: streams_trans\<close>)
qed

text \<open>Only events for the client are added.\<close>

lemma step_ok_out:
  assumes "step_ok hf e ops m s m1 s1" "ms_locks s2 = ms_locks s1" "\<exists>new. ms_outs s2 = ms_outs s1 @ new \<and> client_only new"
  shows "step_ok hf e ops m s m1 s2"
proof -
  obtain new where n: "ms_outs s2 = ms_outs s1 @ new" "client_only new" using assms(3) by blast
  have "ready hf e m1 s1" using assms(1) by (rule step_okD)
  then have "step_ok hf e [] m1 s1 m1 s2"
    by (intro step_okI [where new = new]) (use assms(2) n in \<open>simp_all add: ready_def streams_client\<close>)
  from step_ok_trans [OF assms(1) this] show ?thesis by simp
qed

lemma step_ok_pre:
  assumes "ms_locks s1 = ms_locks s" "\<exists>new. ms_outs s1 = ms_outs s @ new \<and> client_only new" "step_ok hf e ops m s1 m' s'"
  shows "step_ok hf e ops m s m' s'"
proof -
  obtain new where n: "ms_outs s1 = ms_outs s @ new" "client_only new" using assms(2) by blast
  note A = step_okD [OF assms(3)]
  obtain new' where n': "ms_outs s' = ms_outs s1 @ new'" "streams e new' ops" using A(4) by blast
  show ?thesis
    by (rule step_okI [where new = "new @ new'"]) (use A n n' in \<open>simp_all add: streams_append(1)\<close>)
qed

text \<open>One callback.\<close>

lemma views_upd: "hm_lookup hf m' = (hm_lookup hf m)(k := x) \<Longrightarrow> views hf m' = (views hf m)(k := map_option view x)"
  by (auto simp: views_def)

lemma ops_at_effect:
  assumes "ops_at g k ops x x'" "V k = map_option view x"
  shows "fold effect ops V = V(k := map_option view x')"
  using assms unfolding ops_at_def by (auto simp: fun_eq_iff)

lemma ops_at_ok:
  assumes "ops_at g k ops x x'" "x \<noteq> None \<or> x' \<noteq> None \<Longrightarrow> good_repl_key k"
    "\<And>v. map_option view x' = Some v \<Longrightarrow> replicable v" "ops = [R_delete k] \<Longrightarrow> x \<noteq> None"
  shows "list_all (repl_op_ok g) ops"
  using assms unfolding ops_at_def by (auto simp: view_def replicable_def)

lemma saneD:
  assumes "sane e k x s x' s'"
  shows "lockof x' = lockof x \<and> ms_locks s' = ms_locks s \<or>
      lockof x = - 1 \<and> lockof x' = e_ctx e \<and> ms_locks s' = ms_locks s @ [k] \<or>
      lockof x = e_ctx e \<and> lockof x' = - 1 \<and> ms_locks s' = remove1 k (ms_locks s)"
    "\<And>ob'. x' = Some ob' \<Longrightarrow> object_ok (e_cfg e) ob'"
    "lockof x \<noteq> - 1 \<Longrightarrow> lockof x \<noteq> e_ctx e \<Longrightarrow> map_option core x' = map_option core x"
    "\<exists>new ops. ms_outs s' = ms_outs s @ new \<and> streams e new ops \<and> ops_at (e_cfg e) k ops x x'"
  using assms unfolding sane_def by blast+

lemma held_upd:
  assumes "hm_lookup hf m' = (hm_lookup hf m)(k := x')" "c \<noteq> - 1"
  shows "held hf m' c = (if lockof x' = c then insert k (held hf m c) else held hf m c - {k})"
    "k \<in> held hf m c \<longleftrightarrow> lockof (hm_lookup hf m k) = c"
  using assms by (cases x'; force simp: held_def)
    (cases "hm_lookup hf m k"; use assms(2) in \<open>simp add: held_def\<close>)

lemma step_sane:
  assumes "ready hf e m s" "hm_invar hf m'" and l: "hm_lookup hf m' = (hm_lookup hf m)(k := x')"
    and sane: "sane e k (hm_lookup hf m k) s x' s'"
    and key: "hm_lookup hf m k \<noteq> None \<or> x' \<noteq> None \<Longrightarrow> good_repl_key k"
    and some: "hm_lookup hf m k = None \<Longrightarrow> x' = None \<Longrightarrow> s' = s"
    and ctx: "e_ctx e \<noteq> - 1"
  shows "\<exists>ops. step_ok hf e ops m s m' s'"
proof -
  let ?x = "hm_lookup hf m k"
  note S = saneD [OF sane]
  have r: "keyed_ok hf (e_cfg e) m" "distinct (ms_locks s)" "set (ms_locks s) = held hf m (e_ctx e)"
    using assms(1) by (simp_all add: ready_def)
  obtain new ops where o: "ms_outs s' = ms_outs s @ new" "streams e new ops" "ops_at (e_cfg e) k ops ?x x'"
    and del: "?x = None \<Longrightarrow> x' = None \<Longrightarrow> ops = []"
  proof (cases "?x = None \<and> x' = None")
    case True
    then show thesis using some that [of "[]" "[]"] by (simp add: ops_at_def streams_client)
  next
    case False
    then show thesis using S(4) that by blast
  qed
  have keyed: "keyed_ok hf (e_cfg e) m'"
    using r(1) assms(2) S(2) key by (simp add: keyed_ok_def l)
  have locks: "distinct (ms_locks s') \<and> set (ms_locks s') = held hf m' (e_ctx e)"
    using S(1) r(2,3) held_upd [OF l ctx] ctx by auto
  have others: "held hf m' c = held hf m c" if "c \<noteq> - 1" "c \<noteq> e_ctx e" for c
    using S(1) held_upd [OF l that(1)] that by auto
  have core: "map_option core (hm_lookup hf m' k') = Some (core ob)"
    if "hm_lookup hf m k' = Some ob" "o_lock ob \<noteq> - 1" "o_lock ob \<noteq> e_ctx e" for k' ob
    using S(3) that by (cases "k' = k") (simp_all add: l)
  have v: "views hf m' = fold effect ops (views hf m)"
    using ops_at_effect [OF o(3), of "views hf m"] views_upd [OF l] by (simp add: views_def)
  have rep: "list_all (repl_op_ok (e_cfg e)) ops" if "all_replicable hf m'"
  proof (rule ops_at_ok [OF o(3) key])
    show "replicable v" if "map_option view x' = Some v" for v
    proof -
      have "views hf m' k = Some v" using that views_upd [OF l] by simp
      then show ?thesis using \<open>all_replicable hf m'\<close> unfolding all_replicable_def by blast
    qed
    show "?x \<noteq> None" if "ops = [R_delete k]"
      using o(3) del that by (auto simp: ops_at_def)
  qed
  have "step_ok hf e ops m s m' s'"
    by (rule step_okI [OF _ others core o(1,2) v rep]) (use keyed locks in \<open>simp_all add: ready_def\<close>)
  then show ?thesis ..
qed

section \<open>Calls to the map\<close>

lemma ready_callable:
  assumes "env_ok e" "ready hf e m s" "hm_lookup hf m k = Some ob"
  shows "callable e k ob s" "good_repl_key k"
  using assms by (auto simp: env_ok_def ready_def keyed_ok_def callable_def held_def)

definition runs_ok ::
  "(string \<Rightarrow> u64) \<Rightarrow> menv \<Rightarrow> object hash_map \<Rightarrow> mstate \<Rightarrow> exn + (object hash_map \<times> mstate) \<Rightarrow> bool" where
  "runs_ok hf e m s res = (case res of Inl _ \<Rightarrow> False | Inr (m', s') \<Rightarrow> \<exists>ops. step_ok hf e ops m s m' s')"

lemma runs_ok_Inr [simp]: "runs_ok hf e m s (Inr (m', s')) \<longleftrightarrow> (\<exists>ops. step_ok hf e ops m s m' s')"
  by (simp add: runs_ok_def)

lemma runs_okE:
  assumes "runs_ok hf e m s res"
  obtains m' s' ops where "res = Inr (m', s')" "step_ok hf e ops m s m' s'"
  using assms by (auto simp: runs_ok_def split: sum.splits)

lemma apply_step:
  assumes e: "env_ok e" and r: "ready hf e m s"
    and h: "hm_lookup hf m k \<noteq> None \<Longrightarrow> good_handler e k h"
    and c: "\<And>f. c = Some f \<Longrightarrow> good_creator e k f \<and> good_repl_key k"
  obtains b m' s' ops where "hash_map_apply hf k (Some h) c m s = Inr (b, m', s')" "step_ok hf e ops m s m' s'"
proof -
  note found = that
  have inv: "hm_invar hf m" using r by (simp add: ready_def keyed_ok_def)
  have ctx: "e_ctx e \<noteq> - 1" using e by (simp add: env_ok_def)
  have call: thesis if ap: "map_apply k (Some h) c (hm_lookup hf m) s = Inr (b, (hm_lookup hf m)(k := x'), s')"
    and sane: "sane e k (hm_lookup hf m k) s x' s'"
    and key: "hm_lookup hf m k \<noteq> None \<or> x' \<noteq> None \<Longrightarrow> good_repl_key k"
    and idle: "hm_lookup hf m k = None \<Longrightarrow> x' = None \<Longrightarrow> s' = s" for b x' s'
  proof -
    obtain m' where m': "hash_map_apply hf k (Some h) c m s = Inr (b, m', s')"
      "hm_lookup hf m' = (hm_lookup hf m)(k := x')" "hm_invar hf m'" using hm.apply_InrI [OF inv ap] by blast
    show thesis using step_sane [OF r m'(3,2) sane key idle ctx] m'(1) found by blast
  qed
  show thesis
  proof (cases "hm_lookup hf m k")
    case (Some ob)
    then have "fits e k ob s (h k ob s)"
      using h ready_callable(1) [OF e r Some] by (simp add: good_handler_def)
    then obtain b ob' s' where "h k ob s = Inr (b, ob', s')" "sane e k (Some ob) s (Some ob') s'"
      by (blast dest: fitsD(1))
    then show thesis using Some ready_callable(2) [OF e r Some] call [of b "Some ob'" s'] by (simp add: map_apply_def)
  next
    case None
    show thesis
    proof (cases c)
      case (Some f)
      then have "fits_new e k s (f k s)" using c [OF Some] e by (simp add: good_creator_def env_ok_def good_repl_key_def)
      then obtain ob' s' where "f k s = Inr (ob', s')" "sane e k None s (Some ob') s'" by (blast dest: fitsD(3))
      then show thesis using None Some c [OF Some] call [of True "Some ob'" s'] by (simp add: map_apply_def)
    next
      assume n: "c = None"
      have "sane e k None s None s" by (rule sane_absent [where new = "[]"]) simp_all
      moreover have "(hm_lookup hf m)(k := None) = hm_lookup hf m" using None by (simp add: fun_upd_idem)
      ultimately show thesis using None n call [of False None s] by (simp add: map_apply_def)
    qed
  qed
qed

lemma remove_if_step:
  assumes e: "env_ok e" and r: "ready hf e m s" and p: "good_pred e k p"
  obtains b m' s' ops where "hash_map_remove_if hf k p m s = Inr (b, m', s')" "step_ok hf e ops m s m' s'"
proof -
  have inv: "hm_invar hf m" using r by (simp add: ready_def keyed_ok_def)
  have ctx: "e_ctx e \<noteq> - 1" using e by (simp add: env_ok_def)
  show thesis
  proof (cases "hm_lookup hf m k")
    case (Some ob)
    then have "fits_del e k ob s (p k ob s)"
      using p ready_callable(1) [OF e r Some] by (simp add: good_pred_def)
    then obtain del ob' s' where d: "p k ob s = Inr (del, ob', s')" "sane e k (Some ob) s (if del then None else Some ob') s'"
      by (blast dest: fitsD(2))
    then have rm: "map_remove_if k p (hm_lookup hf m) s = Inr (True, (hm_lookup hf m)(k := if del then None else Some ob'), s')"
      using Some by (simp add: map_remove_if_def)
    obtain m' where m': "hash_map_remove_if hf k p m s = Inr (True, m', s')"
      "hm_lookup hf m' = (hm_lookup hf m)(k := if del then None else Some ob')" "hm_invar hf m'"
      using hm.remove_if_InrI [OF inv rm] by blast
    have "\<exists>ops. step_ok hf e ops m s m' s'"
      by (rule step_sane [OF r m'(3,2)]) (use d Some ready_callable(2) [OF e r Some] ctx in simp_all)
    then show thesis using m'(1) that by blast
  next
    case None
    then have rm: "map_remove_if k p (hm_lookup hf m) s = Inr (False, hm_lookup hf m, s)" by (simp add: map_remove_if_def)
    obtain m' where m': "hash_map_remove_if hf k p m s = Inr (False, m', s)" "hm_lookup hf m' = hm_lookup hf m" "hm_invar hf m'"
      using hm.remove_if_InrI [OF inv rm] by blast
    have "\<exists>ops. step_ok hf e ops m s m' s"
      by (rule step_sane [OF r m'(3), where k = k and x' = None])
        (use None m'(2) sane_absent [of s s "[]"] ctx in \<open>simp_all add: fun_upd_idem\<close>)
    then show thesis using m'(1) that by blast
  qed
qed

section \<open>Releasing all locks and listing keys\<close>

lemma unlock_keys_spec:
  assumes "hm_invar hf m" "distinct ks"
    "\<And>k. k \<in> set ks \<Longrightarrow> \<exists>ob. hm_lookup hf m k = Some ob \<and> (force \<or> o_lock ob = e_ctx e)"
  shows "\<exists>m'. unlock_keys hf e force ks m s = Inr (m', s) \<and> hm_invar hf m' \<and>
    hm_lookup hf m' = (\<lambda>k. if k \<in> set ks then map_option (\<lambda>ob. ob\<lparr>o_lock := - 1\<rparr>) (hm_lookup hf m k) else hm_lookup hf m k)"
  using assms
proof (induction ks arbitrary: m)
  case Nil
  then show ?case by simp
next
  case (Cons k ks)
  obtain ob where ob: "hm_lookup hf m k = Some ob" "force \<or> o_lock ob = e_ctx e" using Cons.prems(3) [of k] by auto
  then have "map_apply k (Some (unlock_handler e force)) None (hm_lookup hf m) s =
      Inr (True, (hm_lookup hf m)(k \<mapsto> ob\<lparr>o_lock := - 1\<rparr>), s)"
    by (auto simp: map_apply_def unlock_handler_def object_unlock_def locked_by_self_def)
  from hm.apply_InrI [OF Cons.prems(1) this] obtain m1 where m1:
    "hash_map_apply hf k (Some (unlock_handler e force)) None m s = Inr (True, m1, s)"
    "hm_lookup hf m1 = (hm_lookup hf m)(k \<mapsto> ob\<lparr>o_lock := - 1\<rparr>)" "hm_invar hf m1" by blast
  have "\<exists>ob. hm_lookup hf m1 k' = Some ob \<and> (force \<or> o_lock ob = e_ctx e)" if "k' \<in> set ks" for k'
    using Cons.prems(2,3) that m1(2) by auto
  from Cons.IH [OF m1(3) _ this] Cons.prems(2) obtain m2 where m2: "unlock_keys hf e force ks m1 s = Inr (m2, s)"
    "hm_invar hf m2" "hm_lookup hf m2 = (\<lambda>k. if k \<in> set ks then map_option (\<lambda>ob. ob\<lparr>o_lock := - 1\<rparr>) (hm_lookup hf m1 k) else hm_lookup hf m1 k)"
    by auto
  show ?case
    using m1 m2 ob Cons.prems(2) by (auto simp: fun_eq_iff)
qed

lemma unlock_all_step:
  assumes e: "env_ok e" and r: "ready hf e m s"
  obtains m' where "unlock_all hf e m s = Inr (m', s\<lparr>ms_locks := []\<rparr>)"
    "step_ok hf e [] m s m' (s\<lparr>ms_locks := []\<rparr>)" "held hf m' (e_ctx e) = {}"
proof -
  have ctx: "e_ctx e \<noteq> - 1" using e by (simp add: env_ok_def)
  have rd: "keyed_ok hf (e_cfg e) m" "distinct (ms_locks s)" "set (ms_locks s) = held hf m (e_ctx e)"
    using r by (simp_all add: ready_def)
  have "\<exists>ob. hm_lookup hf m k = Some ob \<and> (False \<or> o_lock ob = e_ctx e)" if "k \<in> set (ms_locks s)" for k
    using that rd(3) by (simp add: held_def)
  from unlock_keys_spec [OF _ rd(2) this, of s] rd(1) obtain m' where m': "unlock_keys hf e False (ms_locks s) m s = Inr (m', s)"
    "hm_invar hf m'" "hm_lookup hf m' = (\<lambda>k. if k \<in> held hf m (e_ctx e) then map_option (\<lambda>ob. ob\<lparr>o_lock := - 1\<rparr>) (hm_lookup hf m k) else hm_lookup hf m k)"
    unfolding rd(3) by (auto simp: keyed_ok_def)
  have none: "held hf m' (e_ctx e) = {}" using ctx by (auto simp: held_def m'(3) split: if_splits)
  have v: "views hf m' = views hf m" by (auto simp: views_def m'(3) fun_eq_iff option.map_comp o_def)
  have "step_ok hf e [] m s m' (s\<lparr>ms_locks := []\<rparr>)"
  proof (rule step_okI [where new = "[]"])
    show "ready hf e m' (s\<lparr>ms_locks := []\<rparr>)"
      using rd(1) m'(2) none by (auto simp: ready_def keyed_ok_def m'(3) split: if_splits)
    show "held hf m' c = held hf m c" if "c \<noteq> - 1" "c \<noteq> e_ctx e" for c
      using that by (auto simp: held_def m'(3) split: if_splits)
    show "map_option core (hm_lookup hf m' k) = Some (core ob)" if "hm_lookup hf m k = Some ob" for k ob
      using that by (simp add: m'(3))
  qed (simp_all add: v streams_client)
  with that m'(1) none show thesis by (simp add: unlock_all_def)
qed

text \<open>A loop over all objects whose body leaves them alone.\<close>

lemma foreach_step:
  assumes r: "ready hf e m s"
    and p: "\<And>k ob s. hm_lookup hf m k = Some ob \<Longrightarrow> pred k ob s = Inr (ob, f k ob s)"
    and f: "\<And>k ob s. ms_locks (f k ob s) = ms_locks s \<and> (\<exists>new. ms_outs (f k ob s) = ms_outs s @ new \<and> client_only new)"
  obtains s' where "hash_map_foreach pred m s = Inr (m, s')" "step_ok hf e [] m s m s'"
proof -
  have inv: "hm_invar hf m" using r by (simp add: ready_def keyed_ok_def)
  have "step_ok hf e [] m s m (fold (\<lambda>(k, v). f k v) xs t)" if "step_ok hf e [] m s m t" for xs t
    using that
  proof (induction xs arbitrary: t)
    case (Cons x xs)
    then show ?case using f [of "fst x" "snd x" t] by (simp add: case_prod_beta step_ok_out)
  qed simp
  from this [OF step_ok_refl [OF r]] show thesis
    using that hash_map_foreach_pure [of m pred f s] hm_items_lookup [OF inv] p by blast
qed

section \<open>Requests from the parsers\<close>

text \<open>What the commands need of the key: the binary parser bounds it, and creates nothing without one.\<close>

definition bin_key_ok :: "binary_request \<Rightarrow> bool" where
  "bin_key_ok r \<longleftrightarrow>
     (br_status r = St_OK \<longrightarrow> br_command r \<in> store_cmds \<union> incdec_cmds \<longrightarrow> good_repl_key (br_key r))"

definition text_key_ok :: "text_request \<Rightarrow> bool" where
  "text_key_ok r \<longleftrightarrow> (tr_valid r \<longrightarrow> tr_command r \<in> {Txt_SET, Txt_ADD, Txt_REPLACE} \<longrightarrow> tr_key r \<noteq> [])"

lemma store_not_other: "c \<in> store_cmds \<Longrightarrow> c \<notin> get_cmds"
  "c \<in> incdec_cmds \<Longrightarrow> c \<notin> get_cmds \<and> c \<notin> store_cmds \<and> c \<notin> rau_cmds \<and> c \<notin> delete_cmds"
  by (auto simp: get_cmds_def store_cmds_def rau_cmds_def delete_cmds_def incdec_cmds_def)

lemma parse_command_group:
  "br_command r \<in> store_cmds \<Longrightarrow>
   parse_command now kl el dl x r = (if el \<noteq> 8 \<or> kl = 0 \<or> dl = 0 then r
     else r\<lparr>br_status := St_OK, br_flags := ntoh x, br_exptime := binary_exptime now (drop 4 x)\<rparr>)"
  "br_command r \<in> incdec_cmds \<Longrightarrow>
   parse_command now kl el dl x r = (if el \<noteq> 20 \<or> kl = 0 \<or> dl > 0 then r
     else r\<lparr>br_status := St_OK, br_value := ntoh x, br_initial := ntoh (drop 8 x),
        br_exptime := binary_exptime now (drop 16 x)\<rparr>)"
  using store_not_other [of "br_command r"] by (simp_all add: parse_command_def Let_def cong: if_cong)

definition keeps_command :: "binary_request \<Rightarrow> binary_request \<Rightarrow> bool" where
  "keeps_command r q \<longleftrightarrow> br_command q = br_command r \<or> br_command q = Bin_Unknown"

lemma keeps_command_if: "keeps_command r x \<Longrightarrow> keeps_command r y \<Longrightarrow> keeps_command r (if b then x else y)"
  by simp

lemma parse_command_command: "keeps_command r (parse_command now kl el dl x r)"
  unfolding parse_command_def Let_def by (intro keeps_command_if) (simp_all add: keeps_command_def)

lemma parse_command_key:
  assumes "br_status r \<noteq> St_OK" "br_status (parse_command now kl el dl x r) = St_OK"
    "br_command (parse_command now kl el dl x r) \<in> store_cmds \<union> incdec_cmds"
  shows "kl \<noteq> 0"
proof -
  have "Bin_Unknown \<notin> store_cmds \<union> incdec_cmds" by (simp add: store_cmds_def incdec_cmds_def)
  then have "br_command r \<in> store_cmds \<union> incdec_cmds"
    using assms(3) parse_command_command [of r now kl el dl x] by (auto simp: keeps_command_def)
  then consider "br_command r \<in> store_cmds" | "br_command r \<in> incdec_cmds" by blast
  then show ?thesis using assms(1,2) by cases (auto simp: parse_command_group split: if_splits)
qed

lemma accepted_if:
  "(b \<Longrightarrow> br_status x = St_OK \<longrightarrow> x = z \<and> P) \<Longrightarrow> (\<not> b \<Longrightarrow> br_status y = St_OK \<longrightarrow> y = z \<and> P) \<Longrightarrow>
   br_status (if b then x else y) = St_OK \<longrightarrow> (if b then x else y) = z \<and> P"
  by simp

lemma parse_binary_accepted:
  fixes p
  defines "kl \<equiv> unat (ntoh (drop 2 p) :: u16)" and "el \<equiv> of_char (p ! 4)" and "total_len \<equiv> unat (ntoh (drop 8 p) :: u32)"
  assumes "br_status (parse_binary now p) = St_OK"
  obtains r where "parse_binary now p = parse_command now kl el (total_len - kl - el) (drop BINARY_HEADER_SIZE p) r"
    "br_status r \<noteq> St_OK" "br_key r = take kl (drop (BINARY_HEADER_SIZE + el) p)"
    "BINARY_HEADER_SIZE + total_len \<le> length p" "kl \<le> MAX_KEY_LENGTH" "kl + el \<le> total_len"
proof -
  have init: "br_status binary_request_init \<noteq> St_OK" by (simp add: binary_request_init_def)
  define r where "r = binary_request_init\<lparr>br_length := BINARY_HEADER_SIZE + total_len, br_command := command_of_byte (of_char (p ! 1)),
    br_quiet := is_quiet (command_of_byte (of_char (p ! 1))), br_opaque := take 4 (drop 12 p),
    br_key := take kl (drop (BINARY_HEADER_SIZE + el) p), br_cas_unique := ntoh (drop 16 p),
    br_data := take (total_len - kl - el) (drop (BINARY_HEADER_SIZE + el + kl) p)\<rparr>"
  have "br_status (parse_binary now p) = St_OK \<longrightarrow>
      parse_binary now p = parse_command now kl el (total_len - kl - el) (drop BINARY_HEADER_SIZE p) r \<and>
      BINARY_HEADER_SIZE + total_len \<le> length p \<and> kl \<le> MAX_KEY_LENGTH \<and> kl + el \<le> total_len"
    unfolding parse_binary_def Let_def kl_def [symmetric] el_def [symmetric] total_len_def [symmetric]
    by (rule accepted_if, simp add: init)+ (simp add: r_def)
  with assms(4) init that [of r] show thesis by (simp add: r_def)
qed

lemma parse_binary_key_ok: "bin_key_ok (parse_binary now p)"
  unfolding bin_key_ok_def
proof (intro impI)
  let ?r = "parse_binary now p"
  assume s: "br_status ?r = St_OK" and c: "br_command ?r \<in> store_cmds \<union> incdec_cmds"
  define kl where "kl = unat (ntoh (drop 2 p) :: u16)"
  define el :: nat where "el = of_char (p ! 4)"
  define total_len where "total_len = unat (ntoh (drop 8 p) :: u32)"
  show "good_repl_key (br_key ?r)"
    using s
  proof (rule parse_binary_accepted, fold kl_def el_def total_len_def)
    fix r
    assume r: "?r = parse_command now kl el (total_len - kl - el) (drop BINARY_HEADER_SIZE p) r"
      "br_status r \<noteq> St_OK" "br_key r = take kl (drop (BINARY_HEADER_SIZE + el) p)"
      "BINARY_HEADER_SIZE + total_len \<le> length p" "kl \<le> MAX_KEY_LENGTH" "kl + el \<le> total_len"
    have kl: "kl \<noteq> 0" using parse_command_key [OF r(2) s [unfolded r(1)]] c r(1) by simp
    have "length (br_key r) = kl" using r(3,4,6) by simp
    then show "good_repl_key (br_key ?r)" using r(5) kl by (simp add: r(1) good_repl_key_def)
  qed
qed

lemma parse_text_key_ok: "text_key_ok (parse_text stale now p beyond)"
  using parse_text_sound [of p stale now beyond]
  by (auto simp: text_key_ok_def text_request_ok_def keyed_cmds_def storage_cmds_def)

section \<open>Binary commands\<close>

lemma runs_ok_if: "(b \<Longrightarrow> runs_ok hf e m s x) \<Longrightarrow> (\<not> b \<Longrightarrow> runs_ok hf e m s y) \<Longrightarrow> runs_ok hf e m s (if b then x else y)"
  by simp

lemma runs_ok_out:
  assumes "step_ok hf e ops m s m1 s1" "ms_locks s2 = ms_locks s1" "\<exists>new. ms_outs s2 = ms_outs s1 @ new \<and> client_only new"
  shows "runs_ok hf e m s (Inr (m1, s2))"
  using step_ok_out [OF assms] by auto

lemma runs_ok_idle:
  assumes "ready hf e m s" "ms_locks s2 = ms_locks s" "\<exists>new. ms_outs s2 = ms_outs s @ new \<and> client_only new"
  shows "runs_ok hf e m s (Inr (m, s2))"
  using runs_ok_out [OF step_ok_refl [OF assms(1)] assms(2,3)] .

lemma bin_error_ok:
  assumes "step_ok hf e ops m s m1 s1" "status \<noteq> St_OK" "ms_locks s2 = ms_locks s1" "ms_outs s2 = ms_outs s1"
  shows "runs_ok hf e m s (bind_res (bin_error cmd status s2) (\<lambda>s'. Inr (m1, s')))"
proof -
  obtain evs where "client_only evs" "bin_error cmd status s2 = Inr (emit evs s2)"
    using bin_error_total [OF assms(2)] by blast
  then show ?thesis using runs_ok_out [OF assms(1), of "emit evs s2"] assms(3,4) by simp
qed

lemma bin_error_idle:
  assumes "ready hf e m s" "status \<noteq> St_OK"
  shows "runs_ok hf e m s (bind_res (bin_error cmd status s) (\<lambda>s'. Inr (m, s')))"
  using bin_error_ok [OF step_ok_refl [OF assms(1)] assms(2)] by simp

lemma apply_or_not_found_ok:
  assumes "env_ok e" "ready hf e m s" "good_handler e (br_key cmd) h"
    "\<And>f. c = Some f \<Longrightarrow> good_creator e (br_key cmd) f \<and> good_repl_key (br_key cmd)"
  shows "runs_ok hf e m s (apply_or_not_found hf cmd h c m s)"
proof (rule apply_step [OF assms(1,2), of "br_key cmd" h c])
  fix b m' s' ops
  assume "hash_map_apply hf (br_key cmd) (Some h) c m s = Inr (b, m', s')" "step_ok hf e ops m s m' s'"
  then show ?thesis using bin_error_ok [of hf e ops m s m' s' St_NotFound s' cmd]
    by (auto simp: apply_or_not_found_def)
qed (use assms(3,4) in auto)

lemma apply_existing_ok:
  "env_ok e \<Longrightarrow> ready hf e m s \<Longrightarrow> good_handler e (br_key cmd) h \<Longrightarrow>
   runs_ok hf e m s (apply_or_not_found hf cmd h None m s)"
  by (rule apply_or_not_found_ok) simp_all

lemma bin_cmd_get_ok:
  assumes "env_ok e" "ready hf e m s"
  shows "runs_ok hf e m s (bin_cmd_get hf e cmd m s)"
proof (rule apply_step [OF assms, of "br_key cmd" "bin_get_handler e cmd" None])
  fix b m' s' ops
  assume a: "hash_map_apply hf (br_key cmd) (Some (bin_get_handler e cmd)) None m s = Inr (b, m', s')" "step_ok hf e ops m s m' s'"
  show ?thesis
    using runs_ok_out [OF a(2), of "upd_stats inc_get_hits s'"] runs_ok_out [OF a(2), of "upd_stats inc_get_misses s'"]
      bin_error_ok [OF a(2), of St_NotFound "upd_stats inc_get_misses s'" cmd]
    by (simp add: bin_cmd_get_def a(1) Let_def)
qed (simp_all add: good_bin_get)

lemma bin_store_checked_ok:
  assumes "ready hf e m s" "length (br_key cmd) \<le> MAX_KEY_LENGTH \<Longrightarrow> runs_ok hf e m s (f m s)"
  shows "runs_ok hf e m s (bin_store_checked e cmd f m s)"
  using assms(2) bin_error_idle [OF assms(1), of St_Invalid cmd] bin_error_idle [OF assms(1), of St_TooLargeValue cmd]
  by (simp add: bin_store_checked_def)

lemma bin_cmd_set_ok:
  assumes "env_ok e" "ready hf e m s" "good_repl_key (br_key cmd)"
  shows "runs_ok hf e m s (bin_cmd_set hf e cmd m s)"
  unfolding bin_cmd_set_def Let_def
proof (rule bin_store_checked_ok [OF assms(2)])
  define c where "c = (if br_command cmd \<noteq> Bin_Replace \<and> br_command cmd \<noteq> Bin_ReplaceQ \<and> br_cas_unique cmd = 0
    then Some (bin_set_creator e cmd) else None)"
  show "runs_ok hf e m s (bind_res (hash_map_apply hf (br_key cmd) (Some (bin_set_handler e cmd))
      (if br_command cmd \<noteq> Bin_Replace \<and> br_command cmd \<noteq> Bin_ReplaceQ \<and> br_cas_unique cmd = 0
       then Some (bin_set_creator e cmd) else None) m s) (\<lambda>(r, m', s').
        if r then Inr (m', s')
        else bind_res (bin_error cmd St_NotFound (if br_cas_unique cmd \<noteq> 0 then upd_stats inc_cas_misses s' else s'))
               (\<lambda>s''. Inr (m', s''))))"
    unfolding c_def [symmetric]
  proof (rule apply_step [OF assms(1,2), of "br_key cmd" "bin_set_handler e cmd" c])
    fix b m' s' ops
    assume a: "hash_map_apply hf (br_key cmd) (Some (bin_set_handler e cmd)) c m s = Inr (b, m', s')" "step_ok hf e ops m s m' s'"
    have "runs_ok hf e m s (bind_res (bin_error cmd St_NotFound (if br_cas_unique cmd \<noteq> 0 then upd_stats inc_cas_misses s' else s'))
               (\<lambda>s''. Inr (m', s'')))" by (rule bin_error_ok [OF a(2)]) simp_all
    then show "runs_ok hf e m s (bind_res (hash_map_apply hf (br_key cmd) (Some (bin_set_handler e cmd)) c m s) (\<lambda>(r, m', s').
        if r then Inr (m', s')
        else bind_res (bin_error cmd St_NotFound (if br_cas_unique cmd \<noteq> 0 then upd_stats inc_cas_misses s' else s'))
               (\<lambda>s''. Inr (m', s''))))" using a by (cases b) auto
  qed (use assms(3) in \<open>auto simp: good_bin_set good_bin_set_creator c_def split: if_splits\<close>)
qed

lemma bin_cmd_delete_ok:
  assumes "env_ok e" "ready hf e m s"
  shows "runs_ok hf e m s (bin_cmd_delete hf e cmd m s)"
proof (rule remove_if_step [OF assms good_bin_delete, of "br_key cmd" cmd])
  fix b m' s' ops
  assume a: "hash_map_remove_if hf (br_key cmd) (bin_delete_pred e cmd) m s = Inr (b, m', s')" "step_ok hf e ops m s m' s'"
  then show ?thesis using bin_error_ok [OF a(2), of St_NotFound s' cmd] by (auto simp: bin_cmd_delete_def)
qed

lemma bin_cmd_quit_ok:
  assumes "env_ok e" "ready hf e m s"
  shows "runs_ok hf e m s (bin_cmd_quit hf e cmd m s)"
proof (rule unlock_all_step [OF assms])
  fix m'
  assume a: "unlock_all hf e m s = Inr (m', s\<lparr>ms_locks := []\<rparr>)" "step_ok hf e [] m s m' (s\<lparr>ms_locks := []\<rparr>)"
  show ?thesis
    using runs_ok_out [OF a(2), of "emit [Shut] (s\<lparr>ms_locks := []\<rparr>)"]
      runs_ok_out [OF a(2), of "emit (binary_quit cmd) (s\<lparr>ms_locks := []\<rparr>)"]
    by (simp add: bin_cmd_quit_def a(1))
qed

lemma unlock_all_then_ok:
  assumes "env_ok e" "ready hf e m s" "\<And>t. ms_locks (f t) = ms_locks t \<and> (\<exists>new. ms_outs (f t) = ms_outs t @ new \<and> client_only new)"
  shows "runs_ok hf e m s (bind_res (unlock_all hf e m s) (\<lambda>(m', s'). Inr (m', f s')))"
proof (rule unlock_all_step [OF assms(1,2)])
  fix m'
  assume a: "unlock_all hf e m s = Inr (m', s\<lparr>ms_locks := []\<rparr>)" "step_ok hf e [] m s m' (s\<lparr>ms_locks := []\<rparr>)"
  show ?thesis
    using runs_ok_out [OF a(2), of "f (s\<lparr>ms_locks := []\<rparr>)"] assms(3) [of "s\<lparr>ms_locks := []\<rparr>"] by (simp add: a(1))
qed

lemma general_table_total:
  assumes "h_rusage h \<noteq> None"
  obtains tab where "general_table g now st h n = Inr tab"
  using assms by (auto simp: general_table_def)

lemma bin_cmd_stat_ok:
  assumes "env_ok e" "ready hf e m s"
  shows "runs_ok hf e m s (bin_cmd_stat e cmd m s)"
proof -
  obtain tab where "general_table (e_cfg e) (e_now e) (ms_stats s) (e_host e) (length (e_slaves e)) = Inr tab"
    using assms(1) general_table_total unfolding env_ok_def by blast
  then have evs: "binary_stats_general cmd (e_cfg e) (e_now e) (ms_stats s) (e_host e) (length (e_slaves e)) =
      Inr (map (send_stat cmd) tab @ binary_success cmd)"
    by (simp add: binary_stats_general_def)
  have out: "runs_ok hf e m s (Inr (m, emit x s))" if "client_only x" for x
    by (rule runs_ok_idle [OF assms(2)]) (use that in simp_all)
  show ?thesis
    unfolding bin_cmd_stat_def evs bind_res_simps using out by (cases "br_stats cmd") simp_all
qed

lemma bin_cmd_keys_ok:
  assumes "ready hf e m s"
  shows "runs_ok hf e m s (bin_cmd_keys e cmd m s)"
proof (rule foreach_step [OF assms, of "bin_keys_pred e cmd"
      "\<lambda>k ob s. if \<not> obj_expired e s ob \<and> (br_key cmd = [] \<or> has_prefix k (br_key cmd)) then emit (binary_key cmd k) s else s"])
  fix s'
  assume a: "hash_map_foreach (bin_keys_pred e cmd) m s = Inr (m, s')" "step_ok hf e [] m s m s'"
  show ?thesis using runs_ok_out [OF a(2), of "emit (binary_success cmd) s'"] by (simp add: bin_cmd_keys_def a(1))
qed (auto simp: bin_keys_pred_def)

lemma incdec_cmds_mem:
  "c = Bin_Increment \<or> c = Bin_IncrementQ \<Longrightarrow> c \<in> incdec_cmds" "c = Bin_Decrement \<or> c = Bin_DecrementQ \<Longrightarrow> c \<in> incdec_cmds"
  by (auto simp: incdec_cmds_def)

lemma bin_dispatch_ok:
  assumes e: "env_ok e" and r: "ready hf e m s" and k: "br_command cmd \<in> store_cmds \<union> incdec_cmds \<Longrightarrow> good_repl_key (br_key cmd)"
  shows "runs_ok hf e m s (bin_dispatch hf e cmd m s)"
  unfolding bin_dispatch_def Let_def
proof (intro runs_ok_if)
  assume "br_command cmd \<in> store_cmds"
  then show "runs_ok hf e m s (bin_cmd_set hf e cmd m s)" using bin_cmd_set_ok [OF e r] k by simp
next
  assume "br_command cmd = Bin_Increment \<or> br_command cmd = Bin_IncrementQ"
  then have "good_repl_key (br_key cmd)" using k incdec_cmds_mem by blast
  then show "runs_ok hf e m s (bin_cmd_arith hf object_incr e cmd m s)"
    unfolding bin_cmd_arith_def
    by (intro apply_or_not_found_ok [OF e r]) (auto simp: good_bin_arith good_bin_arith_creator split: if_splits)
next
  assume "br_command cmd = Bin_Decrement \<or> br_command cmd = Bin_DecrementQ"
  then have "good_repl_key (br_key cmd)" using k incdec_cmds_mem by blast
  then show "runs_ok hf e m s (bin_cmd_arith hf object_decr e cmd m s)"
    unfolding bin_cmd_arith_def
    by (intro apply_or_not_found_ok [OF e r]) (auto simp: good_bin_arith good_bin_arith_creator split: if_splits)
next
  show "runs_ok hf e m s (bin_cmd_rau hf e cmd m s)"
    unfolding bin_cmd_rau_def
    by (intro bin_store_checked_ok [OF r] apply_or_not_found_ok [OF e r]) (simp_all add: good_bin_rau)
next
  show "runs_ok hf e m s (bind_res (unlock_all hf e m s) (\<lambda>(m', s'). Inr (m', reply_if (\<not> br_quiet cmd) (binary_success cmd) s')))"
    by (rule unlock_all_then_ok [OF e r]) simp
qed (use e r in \<open>simp_all add: bin_cmd_get_ok bin_cmd_delete_ok bin_cmd_quit_ok bin_cmd_stat_ok bin_cmd_keys_ok bin_error_idle
    apply_existing_ok good_bin_append good_bin_prepend good_bin_touch good_bin_lock good_bin_unlock runs_ok_idle del: runs_ok_Inr\<close>)

lemma cmd_bin_ok:
  assumes "env_ok e" "ready hf e m s" "bin_key_ok cmd"
  shows "runs_ok hf e m s (cmd_bin hf e cmd m s)"
proof (cases "br_status cmd = St_OK")
  case True
  let ?s = "upd_stats (inc_bin_ops (br_command cmd)) s"
  have "ready hf e m ?s" using assms(2) by (simp add: ready_def)
  then have "runs_ok hf e m ?s (bin_dispatch hf e cmd m ?s)"
    by (rule bin_dispatch_ok [OF assms(1)]) (use assms(3) True in \<open>auto simp: bin_key_ok_def\<close>)
  then obtain m' s' ops where "bin_dispatch hf e cmd m ?s = Inr (m', s')" "step_ok hf e ops m ?s m' s'" by (rule runs_okE)
  then show ?thesis using True step_ok_pre [of ?s s hf e ops m m' s'] by (auto simp: cmd_bin_def)
next
  case False
  then show ?thesis using bin_error_idle [OF assms(2) False] by (simp add: cmd_bin_def)
qed

section \<open>Text commands\<close>

lemma txt_apply_ok:
  assumes "env_ok e" "ready hf e m s" "good_handler e (tr_key cmd) h"
    "\<And>f. c = Some f \<Longrightarrow> good_creator e (tr_key cmd) f \<and> good_repl_key (tr_key cmd)"
    "\<forall>t. ms_locks (miss t) = ms_locks t \<and> (\<exists>new. ms_outs (miss t) = ms_outs t @ new \<and> client_only new)"
  shows "runs_ok hf e m s (txt_apply hf cmd h c miss m s)"
proof (rule apply_step [OF assms(1,2), of "tr_key cmd" h c])
  fix b m' s' ops
  assume a: "hash_map_apply hf (tr_key cmd) (Some h) c m s = Inr (b, m', s')" "step_ok hf e ops m s m' s'"
  have "runs_ok hf e m s (Inr (m', miss s'))" by (rule runs_ok_out [OF a(2)]) (use assms(5) in simp_all)
  then show ?thesis using a by (auto simp: txt_apply_def)
qed (use assms(3,4) in auto)

lemma txt_existing_ok:
  "env_ok e \<Longrightarrow> ready hf e m s \<Longrightarrow> good_handler e (tr_key cmd) h \<Longrightarrow>
   \<forall>t. ms_locks (miss t) = ms_locks t \<and> (\<exists>new. ms_outs (miss t) = ms_outs t @ new \<and> client_only new) \<Longrightarrow>
   runs_ok hf e m s (txt_apply hf cmd h None miss m s)"
  by (rule txt_apply_ok) simp_all

lemma txt_cmd_set_ok:
  assumes "env_ok e" "ready hf e m s" "tr_key cmd \<noteq> []"
  shows "runs_ok hf e m s (txt_cmd_set hf e cmd m s)"
proof -
  have "runs_ok hf e m s (txt_apply hf cmd (txt_set_handler e cmd)
      (if tr_command cmd \<noteq> Txt_REPLACE then Some (txt_set_creator e cmd) else None) (answer_if cmd TEXT_NOT_STORED) m s)"
    if "length (tr_key cmd) \<le> MAX_KEY_LENGTH"
    by (rule txt_apply_ok [OF assms(1,2) good_txt_set])
      (use assms(3) that in \<open>auto simp: good_repl_key_def good_txt_set_creator split: if_splits\<close>)
  then show ?thesis
    using runs_ok_idle [OF assms(2), of "answer TEXT_ERROR s"] by (simp add: txt_cmd_set_def del: runs_ok_Inr)
qed

lemma txt_cmd_touch_ok:
  assumes "env_ok e" "ready hf e m s"
  shows "runs_ok hf e m s (txt_cmd_touch hf e cmd m s)"
proof (rule apply_step [OF assms, of "tr_key cmd" "txt_touch_handler e cmd" None])
  fix b m' s' ops
  assume a: "hash_map_apply hf (tr_key cmd) (Some (txt_touch_handler e cmd)) None m s = Inr (b, m', s')" "step_ok hf e ops m s m' s'"
  show ?thesis
    using runs_ok_out [OF a(2), of "answer_if cmd TEXT_TOUCHED s'"] runs_ok_out [OF a(2), of "answer_if cmd TEXT_NOT_FOUND s'"]
    by (simp add: txt_cmd_touch_def a(1) del: runs_ok_Inr)
qed (simp_all add: good_txt_touch)

lemma txt_cmd_delete_ok:
  assumes "env_ok e" "ready hf e m s"
  shows "runs_ok hf e m s (txt_cmd_delete hf e cmd m s)"
proof (rule remove_if_step [OF assms good_txt_delete, of "tr_key cmd" cmd])
  fix b m' s' ops
  assume a: "hash_map_remove_if hf (tr_key cmd) (txt_delete_pred e cmd) m s = Inr (b, m', s')" "step_ok hf e ops m s m' s'"
  show ?thesis
    using runs_ok_out [OF a(2), of "answer_if cmd TEXT_NOT_FOUND s'"] runs_ok_out [OF a(2), of s']
    by (simp add: txt_cmd_delete_def a(1) del: runs_ok_Inr)
qed

lemma step_ok_quiet:
  assumes "step_ok hf e ops m s m' s'" "views hf m' = views hf m" "\<exists>new. ms_outs s' = ms_outs s @ new \<and> client_only new"
  shows "step_ok hf e [] m s m' s'"
proof -
  obtain new where n: "ms_outs s' = ms_outs s @ new" "client_only new" using assms(3) by blast
  show ?thesis
    by (rule step_okI [where new = new]) (use step_okD [OF assms(1)] assms(2) n in \<open>simp_all add: streams_client\<close>)
qed

lemma txt_get_quiet:
  assumes "txt_get_handler e cmd k ob s = Inr (b, ob', s')"
  shows "view ob' = view ob" "\<exists>new. ms_outs s' = ms_outs s @ new \<and> client_only new"
  using assms
  by (auto simp: txt_get_handler_def object_data_eq text_value_def text_value_cas_def check_key_def client_only_def
      split: if_splits)

lemma txt_get_apply_quiet:
  assumes "hm_invar hf m" "hash_map_apply hf k (Some (txt_get_handler e cmd)) None m s = Inr (b, m', s')"
  shows "views hf m' = views hf m" "\<exists>new. ms_outs s' = ms_outs s @ new \<and> client_only new"
proof -
  have ap: "map_apply k (Some (txt_get_handler e cmd)) None (hm_lookup hf m) s = Inr (b, hm_lookup hf m', s')"
    using hm.apply_InrD [OF assms] by blast
  show "views hf m' = views hf m"
  proof (cases "hm_lookup hf m k")
    case (Some ob)
    then obtain ob' where "txt_get_handler e cmd k ob s = Inr (b, ob', s')" "hm_lookup hf m' = (hm_lookup hf m)(k \<mapsto> ob')"
      using ap by (auto simp: map_apply_def)
    then show ?thesis using txt_get_quiet(1) Some views_upd [of hf m' m k "Some ob'"] by (auto simp: views_def fun_eq_iff)
  qed (use ap in \<open>auto simp: map_apply_def views_def fun_eq_iff\<close>)
  show "\<exists>new. ms_outs s' = ms_outs s @ new \<and> client_only new"
    using ap txt_get_quiet(2) by (cases "hm_lookup hf m k") (auto simp: map_apply_def)
qed

lemma txt_get_keys_ok:
  assumes "env_ok e" "ready hf e m s"
  obtains m' s' where "txt_get_keys hf e cmd ks m s = Inr (m', s')" "step_ok hf e [] m s m' s'"
proof -
  have "\<exists>m' s'. txt_get_keys hf e cmd ks m s = Inr (m', s') \<and> step_ok hf e [] m s m' s'"
    using assms(2)
  proof (induction ks arbitrary: m s)
    case Nil
    then show ?case using step_ok_refl by simp
  next
    case (Cons k ks)
    have h: "good_handler e k (txt_get_handler e cmd)" if "hm_lookup hf m k \<noteq> None"
      using that ready_callable(2) [OF assms(1) Cons.prems, of k] by (auto simp: good_repl_key_def intro: good_txt_get)
    obtain b m1 s1 ops where a: "hash_map_apply hf k (Some (txt_get_handler e cmd)) None m s = Inr (b, m1, s1)"
      "step_ok hf e ops m s m1 s1" by (rule apply_step [OF assms(1) Cons.prems h, of None]) simp_all
    let ?s1 = "upd_stats (if b then inc_get_hits else inc_get_misses) s1"
    have inv: "hm_invar hf m" using Cons.prems by (simp add: ready_def keyed_ok_def)
    have "step_ok hf e [] m s m1 s1" by (rule step_ok_quiet [OF a(2) txt_get_apply_quiet [OF inv a(1)]])
    then have 1: "step_ok hf e [] m s m1 ?s1" by (rule step_ok_out) simp_all
    from Cons.IH [OF step_okD(1) [OF 1]] obtain m2 s2 where m2: "txt_get_keys hf e cmd ks m1 ?s1 = Inr (m2, s2)"
      "step_ok hf e [] m1 ?s1 m2 s2" by blast
    have "step_ok hf e [] m s m2 s2" using step_ok_trans [OF 1 m2(2)] by simp
    then show ?case using a(1) m2(1) by auto
  qed
  with that show thesis by blast
qed

lemma txt_cmd_get_ok:
  assumes "env_ok e" "ready hf e m s"
  shows "runs_ok hf e m s (txt_cmd_get hf e cmd m s)"
proof (rule txt_get_keys_ok [OF assms, of cmd "request_keys cmd"])
  fix m' s'
  assume a: "txt_get_keys hf e cmd (request_keys cmd) m s = Inr (m', s')" "step_ok hf e [] m s m' s'"
  show ?thesis using runs_ok_out [OF a(2), of "answer TEXT_END s'"] by (simp add: txt_cmd_get_def a(1) del: runs_ok_Inr)
qed

lemma txt_cmd_keys_ok:
  assumes "env_ok e" "ready hf e m s"
  shows "runs_ok hf e m s (txt_cmd_keys e cmd m s)"
proof (rule foreach_step [OF assms(2), of "txt_keys_pred e cmd"
      "\<lambda>k ob s. if \<not> obj_expired e s ob \<and> (tr_key cmd = [] \<or> has_prefix k (tr_key cmd))
        then emit (case text_value_key k of Inl _ \<Rightarrow> [] | Inr evs \<Rightarrow> evs) s else s"])
  fix s'
  assume a: "hash_map_foreach (txt_keys_pred e cmd) m s = Inr (m, s')" "step_ok hf e [] m s m s'"
  show ?thesis using runs_ok_out [OF a(2), of "answer TEXT_END s'"] by (simp add: txt_cmd_keys_def a(1) del: runs_ok_Inr)
next
  fix k ob s'
  assume "hm_lookup hf m k = Some ob"
  then have "length k \<le> MAX_KEY_LENGTH" using ready_callable(2) [OF assms] by (simp add: good_repl_key_def)
  then show "txt_keys_pred e cmd k ob s' = Inr (ob, if \<not> obj_expired e s' ob \<and> (tr_key cmd = [] \<or> has_prefix k (tr_key cmd))
      then emit (case text_value_key k of Inl _ \<Rightarrow> [] | Inr evs \<Rightarrow> evs) s' else s')"
    by (simp add: txt_keys_pred_def text_value_key_def check_key_def)
qed (auto simp: text_value_key_def check_key_def client_only_def)

lemma txt_cmd_stats_ok:
  assumes "env_ok e" "ready hf e m s"
  shows "runs_ok hf e m s (txt_cmd_stats e cmd m s)"
proof -
  obtain tab where "general_table (e_cfg e) (e_now e) (ms_stats s) (e_host e) (length (e_slaves e)) = Inr tab"
    using assms(1) general_table_total unfolding env_ok_def by blast
  then have evs: "text_stats_general (e_cfg e) (e_now e) (ms_stats s) (e_host e) (length (e_slaves e)) =
      Inr [Send (stat_lines tab) False]"
    by (simp add: text_stats_general_def)
  have out: "runs_ok hf e m s (Inr (m, answer TEXT_END (emit x s)))" if "client_only x" for x
    by (rule runs_ok_idle [OF assms(2)]) (use that in simp_all)
  have "client_only [Send x False]" for x by (simp add: client_only_def)
  then show ?thesis
    unfolding txt_cmd_stats_def evs using out by (cases "tr_stats cmd") simp_all
qed

lemma txt_cmd_quit_ok: "env_ok e \<Longrightarrow> ready hf e m s \<Longrightarrow> runs_ok hf e m s (txt_cmd_quit hf e m s)"
  unfolding txt_cmd_quit_def by (rule unlock_all_then_ok) simp_all

lemma txt_dispatch_ok:
  assumes e: "env_ok e" and r: "ready hf e m s" and k: "tr_command cmd \<in> {Txt_SET, Txt_ADD, Txt_REPLACE} \<Longrightarrow> tr_key cmd \<noteq> []"
  shows "runs_ok hf e m s (txt_dispatch hf e cmd m s)"
  unfolding txt_dispatch_def Let_def
proof (intro runs_ok_if)
  assume "tr_command cmd = Txt_SET \<or> tr_command cmd = Txt_ADD \<or> tr_command cmd = Txt_REPLACE"
  then show "runs_ok hf e m s (txt_cmd_set hf e cmd m s)" using txt_cmd_set_ok [OF e r] k by auto
next
  show "runs_ok hf e m s (bind_res (unlock_all hf e m s) (\<lambda>(m', s'). Inr (m', answer TEXT_OK s')))"
    by (rule unlock_all_then_ok [OF e r]) simp
qed (use e r in \<open>simp_all add: txt_cmd_cas_def txt_cmd_get_ok txt_cmd_delete_ok txt_cmd_quit_ok txt_cmd_stats_ok txt_cmd_keys_ok
    txt_existing_ok txt_cmd_touch_ok good_txt_cas good_txt_arith good_txt_append good_txt_prepend good_txt_lock good_txt_unlock
    runs_ok_idle del: runs_ok_Inr\<close>)

lemma cmd_text_ok:
  assumes "env_ok e" "ready hf e m s" "text_key_ok cmd"
  shows "runs_ok hf e m s (cmd_text hf e cmd m s)"
proof (cases "tr_valid cmd")
  case True
  let ?s = "upd_stats (inc_text_ops (tr_command cmd)) s"
  have "ready hf e m ?s" using assms(2) by (simp add: ready_def)
  then have "runs_ok hf e m ?s (txt_dispatch hf e cmd m ?s)"
    by (rule txt_dispatch_ok [OF assms(1)]) (use assms(3) True in \<open>auto simp: text_key_ok_def\<close>)
  then obtain m' s' ops where "txt_dispatch hf e cmd m ?s = Inr (m', s')" "step_ok hf e ops m ?s m' s'" by (rule runs_okE)
  then show ?thesis using True step_ok_pre [of ?s s hf e ops m m' s'] by (auto simp: cmd_text_def)
next
  case False
  then show ?thesis using runs_ok_idle [OF assms(2), of "answer TEXT_ERROR s"] by (simp add: cmd_text_def)
qed

end
