(* ===== verification/Memcache_Jobs.thy ===== *)
theory Memcache_Jobs
  imports Memcache_Commands
begin

text \<open>
  The receiving job of a connection: it executes the requests in its buffer, keeps what is
  incomplete, and releases all locks when the connection is lost.  The theorems say that a job
  always returns, that it leaves the objects locked by others alone, and that a slave that
  mirrors the store before a request mirrors it afterwards.
\<close>

section \<open>Sequences of requests\<close>

text \<open>What a sequence of requests of one connection may do; the changes it replicates add up.\<close>

definition job_ok ::
  "(string \<Rightarrow> u64) \<Rightarrow> menv \<Rightarrow> object hash_map \<Rightarrow> mstate \<Rightarrow> object hash_map \<Rightarrow> mstate \<Rightarrow> bool" where
  "job_ok hf e m s m' s' \<longleftrightarrow>
     ready hf e m' s' \<and>
     (\<forall>c. c \<noteq> - 1 \<longrightarrow> c \<noteq> e_ctx e \<longrightarrow> held hf m' c = held hf m c) \<and>
     (\<forall>k ob. hm_lookup hf m k = Some ob \<longrightarrow> o_lock ob \<noteq> - 1 \<longrightarrow> o_lock ob \<noteq> e_ctx e \<longrightarrow>
        map_option core (hm_lookup hf m' k) = Some (core ob)) \<and>
     (\<exists>new ops. ms_outs s' = ms_outs s @ new \<and> streams e new ops \<and> views hf m' = fold effect ops (views hf m))"

lemma step_job: "step_ok hf e ops m s m' s' \<Longrightarrow> job_ok hf e m s m' s'"
  unfolding step_ok_def job_ok_def by blast

lemma job_okD:
  assumes "job_ok hf e m s m' s'"
  shows "ready hf e m' s'" "\<And>c. c \<noteq> - 1 \<Longrightarrow> c \<noteq> e_ctx e \<Longrightarrow> held hf m' c = held hf m c"
    "\<And>k ob. hm_lookup hf m k = Some ob \<Longrightarrow> o_lock ob \<noteq> - 1 \<Longrightarrow> o_lock ob \<noteq> e_ctx e \<Longrightarrow>
       map_option core (hm_lookup hf m' k) = Some (core ob)"
    "\<exists>new ops. ms_outs s' = ms_outs s @ new \<and> streams e new ops \<and> views hf m' = fold effect ops (views hf m)"
  using assms unfolding job_ok_def by blast+

lemma job_refl: "ready hf e m s \<Longrightarrow> job_ok hf e m s m s"
  using step_job [OF step_ok_refl] .

lemma job_trans:
  assumes a: "job_ok hf e m s m1 s1" and b: "job_ok hf e m1 s1 m2 s2"
  shows "job_ok hf e m s m2 s2"
proof -
  note A = job_okD [OF a] and B = job_okD [OF b]
  obtain new ops new' ops' where n: "ms_outs s1 = ms_outs s @ new" "streams e new ops" "views hf m1 = fold effect ops (views hf m)"
    "ms_outs s2 = ms_outs s1 @ new'" "streams e new' ops'" "views hf m2 = fold effect ops' (views hf m1)"
    using A(4) B(4) by blast
  have core: "map_option core (hm_lookup hf m2 k) = Some (core ob)"
    if k: "hm_lookup hf m k = Some ob" "o_lock ob \<noteq> - 1" "o_lock ob \<noteq> e_ctx e" for k ob
  proof -
    have "k \<in> held hf m (o_lock ob)" using k by (simp add: held_def)
    then have "k \<in> held hf m1 (o_lock ob)" using A(2) k by simp
    then obtain ob1 where ob1: "hm_lookup hf m1 k = Some ob1" "o_lock ob1 = o_lock ob" unfolding held_def by blast
    then have "core ob1 = core ob" using A(3) [OF k] by simp
    with B(3) [OF ob1(1)] ob1(2) k show ?thesis by simp
  qed
  have "ms_outs s2 = ms_outs s @ (new @ new')" "streams e (new @ new') (ops @ ops')"
    "views hf m2 = fold effect (ops @ ops') (views hf m)"
    using n by (simp_all add: streams_trans)
  then show ?thesis unfolding job_ok_def using A(2) B(1,2) core by fastforce
qed

lemma process_requests_ok:
  assumes "env_ok e" "ready hf e m s"
  obtains rest m' s' where "process_requests hf e p m s = Inr (rest, m', s')" "length rest \<le> length p" "job_ok hf e m s m' s'"
proof -
  have "\<exists>rest m' s'. process_requests hf e p m s = Inr (rest, m', s') \<and> length rest \<le> length p \<and> job_ok hf e m s m' s'"
    using assms(2)
  proof (induction p arbitrary: m s rule: length_induct)
    case (1 p)
    have go: "\<exists>rest m' s'. process_requests hf e (drop n p) m1 s1 = Inr (rest, m', s') \<and> length rest \<le> length p \<and> job_ok hf e m s m' s'"
      if "n \<noteq> 0" "p \<noteq> []" "step_ok hf e ops m s m1 s1" for n m1 s1 ops
    proof -
      have "length (drop n p) < length p" using that(1,2) by (cases p) auto
      with 1(1) step_okD(1) [OF that(3)] obtain rest m' s' where
        "process_requests hf e (drop n p) m1 s1 = Inr (rest, m', s')" "length rest \<le> length (drop n p)" "job_ok hf e m1 s1 m' s'"
        by blast
      then show ?thesis using job_trans [OF step_job [OF that(3)]] by fastforce
    qed
    show ?case
    proof (cases "p = []")
      case True
      then show ?thesis using job_refl [OF 1(2)] by (simp add: process_requests.simps)
    next
      case p: False
      show ?thesis
      proof (cases "is_binary_request p")
        case True
        let ?r = "parse_binary (e_now e) p"
        obtain m1 s1 ops where r: "cmd_bin hf e ?r m s = Inr (m1, s1)" "step_ok hf e ops m s m1 s1"
          using cmd_bin_ok [OF assms(1) 1(2) parse_binary_key_ok] by (rule runs_okE)
        show ?thesis
          using go [OF _ p r(2), of "br_length ?r"] job_refl [OF 1(2)] p True r(1)
          by (cases "br_length ?r = 0") (simp_all add: process_requests.simps [of hf e p] Let_def)
      next
        case False
        let ?r = "parse_text (e_stale e) (e_now e) p (e_beyond e)"
        obtain m1 s1 ops where r: "cmd_text hf e ?r m s = Inr (m1, s1)" "step_ok hf e ops m s m1 s1"
          using cmd_text_ok [OF assms(1) 1(2) parse_text_key_ok] by (rule runs_okE)
        show ?thesis
          using go [OF _ p r(2), of "tr_length ?r"] job_refl [OF 1(2)] p False r(1)
          by (cases "tr_length ?r = 0") (simp_all add: process_requests.simps [of hf e p] Let_def)
      qed
    qed
  qed
  with that show thesis by blast
qed

text \<open>The calls that end the connection, and those among which no \<^verbatim>\<open>recv\<close> fails in an unforeseen way.\<close>

fun lost :: "(bool \<times> recv_answer list) list \<Rightarrow> bool" where
  "lost [] = False"
| "lost ((valid, as) # calls) =
     (case receive valid as of
        Inr (Recv_OK _) \<Rightarrow> lost calls
      | Inr Recv_AGAIN \<Rightarrow> False
      | Inr _ \<Rightarrow> True
      | Inl _ \<Rightarrow> False)"

definition no_recv_error :: "(bool \<times> recv_answer list) list \<Rightarrow> bool" where
  "no_recv_error calls \<longleftrightarrow> list_all (\<lambda>(valid, as). Recv_error \<notin> set as) calls"

lemma receive_total: "Recv_error \<notin> set as \<Longrightarrow> \<exists>r. receive valid as = Inr r"
  by (induction valid as rule: receive.induct) (auto split: recv_answer.splits)

lemma recvjob_loop_ok:
  assumes "env_ok e" "ready hf e m s" "length buf \<le> MAX_REQUEST_LENGTH" "no_recv_error calls"
  shows "\<exists>buf' m' s'. recvjob_loop hf e calls buf m s = Inr (buf', m', s') \<and> length buf' \<le> MAX_REQUEST_LENGTH \<and>
    job_ok hf e m s m' s' \<and> (lost calls \<longrightarrow> ms_locks s' = [] \<and> held hf m' (e_ctx e) = {})"
  using assms(2-4)
proof (induction calls arbitrary: buf m s)
  case Nil
  then show ?case using job_refl by simp
next
  case (Cons c calls)
  obtain valid as where c: "c = (valid, as)" by (cases c)
  obtain r where r: "receive valid as = Inr r"
    using Cons.prems(3) c receive_total by (auto simp: no_recv_error_def)
  have calls: "no_recv_error calls" using Cons.prems(3) by (simp add: no_recv_error_def)
  obtain mu where u: "unlock_all hf e m s = Inr (mu, s\<lparr>ms_locks := []\<rparr>)" "step_ok hf e [] m s mu (s\<lparr>ms_locks := []\<rparr>)"
    "held hf mu (e_ctx e) = {}" using unlock_all_step [OF assms(1) Cons.prems(1)] by blast
  show ?case
  proof (cases r)
    case (Recv_OK d)
    obtain rest m1 s1 where p: "process_requests hf e (buf @ d) m s = Inr (rest, m1, s1)" "job_ok hf e m s m1 s1"
      using process_requests_ok [OF assms(1) Cons.prems(1)] by blast
    show ?thesis
    proof (cases "length rest > MAX_REQUEST_LENGTH")
      case True
      obtain m2 where v: "unlock_all hf e m1 s1 = Inr (m2, s1\<lparr>ms_locks := []\<rparr>)" "step_ok hf e [] m1 s1 m2 (s1\<lparr>ms_locks := []\<rparr>)"
        "held hf m2 (e_ctx e) = {}" using unlock_all_step [OF assms(1) job_okD(1) [OF p(2)]] by blast
      have "step_ok hf e [] m1 s1 m2 (emit [Shut] (s1\<lparr>ms_locks := []\<rparr>))" by (rule step_ok_out [OF v(2)]) simp_all
      then have "job_ok hf e m s m2 (emit [Shut] (s1\<lparr>ms_locks := []\<rparr>))" using job_trans [OF p(2)] step_job by blast
      then show ?thesis using c r Recv_OK p(1) v(1,3) True by simp
    next
      case False
      then have "length rest \<le> MAX_REQUEST_LENGTH" by simp
      with Cons.IH [OF job_okD(1) [OF p(2)] _ calls] obtain buf' m' s' where
        "recvjob_loop hf e calls rest m1 s1 = Inr (buf', m', s')" "length buf' \<le> MAX_REQUEST_LENGTH" "job_ok hf e m1 s1 m' s'"
        "lost calls \<longrightarrow> ms_locks s' = [] \<and> held hf m' (e_ctx e) = {}" by blast
      then show ?thesis using c r Recv_OK p(1) False job_trans [OF p(2)] by simp
    qed
  next
    case Recv_AGAIN
    then show ?thesis using c r Cons.prems job_refl by simp
  next
    case Recv_RESET
    then show ?thesis using c r u step_job [OF u(2)] by simp
  next
    case Recv_NONE
    then show ?thesis using c r u step_job [OF u(2)] by simp
  qed
qed

section \<open>Sample states\<close>

definition sample_menv :: "int \<Rightarrow> menv" where
  "sample_menv fd = \<lparr>e_cfg = sample_cfg, e_now = 5, e_ctx = fd, e_slaves = [1], e_host = \<lparr>h_pid = 1, h_rusage = Some ((0, 0), (0, 0))\<rparr>,
     e_stale = False, e_beyond = []\<rparr>"

definition sample_state :: "string list \<Rightarrow> mstate" where
  "sample_state ks = \<lparr>ms_stats = statistics_reset, ms_locks = ks, ms_outs = [], ms_threshold = Sev_info\<rparr>"

text \<open>A map of one bucket that holds one object, locked by the context \<open>c\<close>.\<close>

definition sample_object :: "int \<Rightarrow> object" where
  "sample_object c = (object_new sample_cfg ''v'' 7 0)\<lparr>o_lock := c\<rparr>"

definition sample_map :: "int \<Rightarrow> object hash_map" where
  "sample_map c = \<lparr>m_size = 1, m_buckets = [[(''k'', sample_object c)]]\<rparr>"

lemma sample_menv_ok: "fd \<noteq> - 1 \<Longrightarrow> env_ok (sample_menv fd)"
  using sample_cfg_limit by (simp add: env_ok_def sample_menv_def)

lemma sample_object_ok: "object_ok sample_cfg (sample_object c)"
  by (simp add: sample_object_def object_new_ok)

lemma sample_object_view: "view (sample_object c) = (''v'', 7, 0)" "o_lock (sample_object c) = c"
  by (simp_all add: sample_object_def view_new)

lemma sample_lookup: "hm_lookup (\<lambda>_. 0) (sample_map c) = [''k'' \<mapsto> sample_object c]"
  by (auto simp: hm_lookup_def sample_map_def get_bucket_def bucket_index_def)

lemma sample_invar: "hm_invar (\<lambda>_. 0) (sample_map c)"
  by (simp add: hm_invar_def sample_map_def bucket_ok_def)

lemma sample_keyed: "keyed_ok (\<lambda>_. 0) sample_cfg (sample_map c)"
  by (simp add: keyed_ok_def sample_invar sample_lookup sample_object_ok good_repl_key_def MAX_KEY_LENGTH_def)

lemma sample_held: "c \<noteq> d \<Longrightarrow> held (\<lambda>_. 0) (sample_map c) d = {}" "held (\<lambda>_. 0) (sample_map c) c = {''k''}"
  by (auto simp: held_def sample_lookup sample_object_view)

lemma sample_ready:
  "c \<noteq> fd \<Longrightarrow> ready (\<lambda>_. 0) (sample_menv fd) (sample_map c) (sample_state [])"
  "ready (\<lambda>_. 0) (sample_menv c) (sample_map c) (sample_state [''k''])"
  by (simp_all add: ready_def sample_menv_def sample_state_def sample_keyed sample_held)

section \<open>Properties of the receiving job\<close>



text \<open>
  C7: whatever a connection sends, an object that another connection has locked keeps its lock, value,
  flags and CAS value.
\<close>

theorem recvjob_respects_locks:
  assumes "env_ok (e\<lparr>e_ctx := fd\<rparr>)" "ready hf (e\<lparr>e_ctx := fd\<rparr>) m s" "length pending \<le> MAX_REQUEST_LENGTH" "no_recv_error calls"
    "hm_lookup hf m k = Some ob" "o_lock ob \<noteq> - 1" "o_lock ob \<noteq> fd"
    "recvjob hf e fd True calls pending m s = Inr (pending', m', s')"
  shows "\<exists>ob'. hm_lookup hf m' k = Some ob' \<and> o_lock ob' = o_lock ob \<and> contents ob' = contents ob \<and>
    o_flags ob' = o_flags ob \<and> o_cas ob' = o_cas ob"
proof -
  have j: "job_ok hf (e\<lparr>e_ctx := fd\<rparr>) m s m' s'"
    using recvjob_loop_ok [OF assms(1-4)] assms(8) by (auto simp: recvjob_def)
  have "k \<in> held hf m (o_lock ob)" using assms(5) by (simp add: held_def)
  then have "k \<in> held hf m' (o_lock ob)" using job_okD(2) [OF j assms(6)] assms(7) by simp
  then obtain ob' where ob': "hm_lookup hf m' k = Some ob'" "o_lock ob' = o_lock ob" by (auto simp: held_def)
  moreover have "core ob' = core ob" using job_okD(3) [OF j assms(5,6)] assms(7) ob'(1) by simp
  ultimately show ?thesis by (simp add: core_def)
qed

theorem recvjob_respects_locks_witness:
  "\<exists>pending' m' s' ob'. recvjob (\<lambda>_. 0) (sample_menv 3) 7 True [(True, [Recv_data (''delete k'' @ [CR, LF])])] [] (sample_map 9) (sample_state []) =
      Inr (pending', m', s') \<and> hm_lookup (\<lambda>_. 0) m' ''k'' = Some ob' \<and> o_lock ob' = 9 \<and> contents ob' = ''v''"
proof -
  let ?calls = "[(True, [Recv_data (''delete k'' @ [CR, LF])])]"
  have e: "(sample_menv 3)\<lparr>e_ctx := 7\<rparr> = sample_menv 7" by (simp add: sample_menv_def)
  have h: "env_ok ((sample_menv 3)\<lparr>e_ctx := 7\<rparr>)" "ready (\<lambda>_. 0) ((sample_menv 3)\<lparr>e_ctx := 7\<rparr>) (sample_map 9) (sample_state [])"
    "length [] \<le> MAX_REQUEST_LENGTH" "no_recv_error ?calls"
    by (simp_all add: e sample_menv_ok sample_ready no_recv_error_def)
  obtain pending' m' s' where r: "recvjob_loop (\<lambda>_. 0) ((sample_menv 3)\<lparr>e_ctx := 7\<rparr>) ?calls [] (sample_map 9) (sample_state []) = Inr (pending', m', s')"
    using recvjob_loop_ok [OF h] by blast
  then have r: "recvjob (\<lambda>_. 0) (sample_menv 3) 7 True ?calls [] (sample_map 9) (sample_state []) = Inr (pending', m', s')"
    by (simp add: recvjob_def)
  have l: "hm_lookup (\<lambda>_. 0) (sample_map 9) ''k'' = Some (sample_object 9)" by (simp add: sample_lookup)
  show ?thesis
    using recvjob_respects_locks [OF h l _ _ r] r sample_object_view [of 9] by (auto simp: view_def)
qed

section \<open>Mirroring\<close>

lemma slave_bytes_streams: "streams e new ops \<Longrightarrow> i \<in> set (e_slaves e) \<Longrightarrow> slave_bytes new i = concat (map repl_bytes ops)"
  by (simp add: streams_def)

lemma step_mirrored:
  assumes "step_ok hf e ops m s m' s'" "i \<in> set (e_slaves e)" "all_replicable hf m'"
    "store_ok hf' g sm" "views hf' sm = views hf m"
  shows "\<exists>sm' st'. repl_recv hf' g now (slave_bytes (drop (length (ms_outs s)) (ms_outs s')) i) sm st =
      Inr (length (slave_bytes (drop (length (ms_outs s)) (ms_outs s')) i), sm', st') \<and> store_ok hf' g sm' \<and> views hf' sm' = views hf m'"
proof -
  obtain new where n: "ms_outs s' = ms_outs s @ new" "streams e new ops" using step_okD(4) [OF assms(1)] by blast
  have b: "slave_bytes (drop (length (ms_outs s)) (ms_outs s')) i = concat (map repl_bytes ops)"
    using n slave_bytes_streams [OF n(2) assms(2)] by simp
  show ?thesis
    unfolding b using repl_recv_ops [OF assms(4) step_okD(6) [OF assms(1,3)], of now st] step_okD(5) [OF assms(1)] assms(5) by simp
qed


lemma sample_replicable: "all_replicable (\<lambda>_. 0) (sample_map c)"
  by (auto simp: all_replicable_def views_def sample_lookup sample_object_view replicable_def MAX_REQUEST_LENGTH_def stable_exptime_def
      split: if_splits)

definition sample_delete :: text_request where
  "sample_delete = text_request_init\<lparr>tr_length := 10, tr_command := Txt_DELETE, tr_key := ''k'', tr_valid := True\<rparr>"

lemma sample_delete_parsed: "parse_text False 5 (''delete k'' @ [CR, LF]) [] = sample_delete"
  by (simp add: parse_text_def sample_delete_def CR_def LF_def SP_def Let_def text_command_names_def skip_sp_def word_at_def after_word_def
      parse_args_def parse_delete_def storage_cmds_def finish_def parse_noreply_def text_request_init_def)

lemma sample_delete_run:
  "\<exists>s'. cmd_text (\<lambda>_. 0) (sample_menv 7) sample_delete (sample_map (- 1)) (sample_state []) = Inr (\<lparr>m_size = 1, m_buckets = [[]]\<rparr>, s') \<and>
     ms_outs s' = [Send TEXT_DELETED True, Send_slave 1 (repl_delete_bytes ''k'') False]"
  by (simp add: cmd_text_def sample_delete_def text_request_init_def txt_dispatch_def txt_cmd_delete_def hash_map_remove_if_def
      sample_map_def get_bucket_def put_bucket_def bucket_index_def txt_delete_pred_def sample_menv_def sample_state_def
      locked_by_other_def object_locked_def sample_object_view locked_by_self_def answer_if_def answer_def emit_def text_const_def
      do_repl_delete_def repl_delete_def upd_stats_def)


section \<open>Lost sockets\<close>

text \<open>
  C38: the job of a socket that was invalidated before the job started works with the lock
  context the thread had before.  If the connection holds a lock, releasing it throws,
  and the exception leaves the job; the locks of the connection stay as they were.
\<close>

theorem recvjob_stale_context:
  assumes "hm_invar hf m" "ms_locks s = k # ks" "hm_lookup hf m k = Some ob" "o_lock ob \<noteq> e_ctx e"
  shows "recvjob hf e fd False ((False, as) # calls) pending m s = Inl (Logic_error ''object::unlock bug'')"
proof -
  have "receive False as = Inr Recv_RESET" by (cases as) simp_all
  moreover have "map_apply k (Some (unlock_handler e False)) None (hm_lookup hf m) s = Inl (Logic_error ''object::unlock bug'')"
    using assms(3,4) by (simp add: map_apply_def unlock_handler_def object_unlock_def locked_by_self_def)
  then have "hash_map_apply hf k (Some (unlock_handler e False)) None m s = Inl (Logic_error ''object::unlock bug'')"
    by (simp only: hm.apply_Inl_iff [OF assms(1)])
  ultimately show ?thesis by (simp add: recvjob_def unlock_all_def assms(2))
qed

theorem recvjob_stale_context_witness:
  "recvjob (\<lambda>_. 0) (sample_menv 3) 7 False [(False, [])] [] (sample_map 7) (sample_state [''k'']) =
     Inl (Logic_error ''object::unlock bug'')"
  using recvjob_stale_context [OF sample_invar, of "sample_state [''k'']" "''k''" "[]" 7 "sample_object 7" "sample_menv 3" 7 "[]" "[]" "[]"]
  by (simp add: sample_lookup sample_object_view sample_menv_def sample_state_def)

end
