(* ===== verification/Memcache_Gc.thy ===== *)
theory Memcache_Gc
  imports Memcache_Commands
begin

text \<open>
  Models \<^verbatim>\<open>gc_thread\<close> of \<^verbatim>\<open>src/memcache/gc.hpp\<close> and \<^verbatim>\<open>gc.cpp\<close>: the thread that removes objects that were
  flushed, evicted or have expired, counts the others, and sends them to new slaves.  Each
  bucket is collected under its mutex.  Reading the clocks, the sizes of the C++ structures and the pauses between
  buckets belong to the environment; the pauses have no effect on the data.
\<close>

section \<open>The thread\<close>

record gc_env =
  ge_cfg :: cfg
  ge_now :: time_t
  ge_wall :: time_t
  ge_sizeof_key :: nat
  ge_sizeof_object :: nat

record gc_thread =
  gt_slaves :: "nat list"
  gt_new_slaves :: "nat list"
  gt_objects :: u32
  gt_objects_under_1k :: u32
  gt_objects_under_4k :: u32
  gt_objects_under_16k :: u32
  gt_objects_under_64k :: u32
  gt_objects_under_256k :: u32
  gt_objects_under_1m :: u32
  gt_objects_under_4m :: u32
  gt_objects_huge :: u32
  gt_used_memory :: nat
  gt_conflicts :: u32
  gt_oldest_age :: u32
  gt_largest_object_size :: nat
  gt_last_expirations :: u32
  gt_last_evictions :: u32
  gt_objects_in_bucket :: nat
  gt_outs :: "event list"

definition gc_thread_ctor :: "nat list \<Rightarrow> nat list \<Rightarrow> gc_thread" where
  "gc_thread_ctor slaves new_slaves =
     \<lparr>gt_slaves = slaves @ filter (\<lambda>s. s \<notin> set slaves) new_slaves, gt_new_slaves = new_slaves, gt_objects = 0,
      gt_objects_under_1k = 0, gt_objects_under_4k = 0, gt_objects_under_16k = 0, gt_objects_under_64k = 0,
      gt_objects_under_256k = 0, gt_objects_under_1m = 0, gt_objects_under_4m = 0, gt_objects_huge = 0,
      gt_used_memory = 0, gt_conflicts = 0, gt_oldest_age = 0, gt_largest_object_size = 0, gt_last_expirations = 0,
      gt_last_evictions = 0, gt_objects_in_bucket = 0, gt_outs = []\<rparr>"

definition gc_flush :: "gc_env \<Rightarrow> statistics \<Rightarrow> bool" where
  "gc_flush e st \<longleftrightarrow> flush_time st \<noteq> 0 \<and> ge_wall e \<ge> flush_time st"

text \<open>The age from which objects are evicted, in collections survived; zero evicts nothing.\<close>

definition gc_evict_age :: "gc_env \<Rightarrow> statistics \<Rightarrow> u32" where
  "gc_evict_age e st =
     (if \<not> gc_flush e st \<and> used_memory st > memory_limit (ge_cfg e) then
        (let one_hour = 3600 div word_of_nat (gc_interval (ge_cfg e)) + 1
         in if oldest_age st < one_hour * 2 then max 1 (oldest_age st div 2)
            else oldest_age st - one_hour)
      else 0)"

definition gc_delete :: "string \<Rightarrow> gc_thread \<Rightarrow> gc_thread" where
  "gc_delete k t = (if gt_slaves t \<noteq> [] then t\<lparr>gt_outs := gt_outs t @ repl_delete (gt_slaves t) k\<rparr> else t)"

definition gc_count_size :: "nat \<Rightarrow> gc_thread \<Rightarrow> gc_thread" where
  "gc_count_size sz t =
     (if sz < 1024 then t\<lparr>gt_objects_under_1k := gt_objects_under_1k t + 1\<rparr>
      else if sz < 4096 then t\<lparr>gt_objects_under_4k := gt_objects_under_4k t + 1\<rparr>
      else if sz < 16 * 1024 then t\<lparr>gt_objects_under_16k := gt_objects_under_16k t + 1\<rparr>
      else if sz < 64 * 1024 then t\<lparr>gt_objects_under_64k := gt_objects_under_64k t + 1\<rparr>
      else if sz < 256 * 1024 then t\<lparr>gt_objects_under_256k := gt_objects_under_256k t + 1\<rparr>
      else if sz < 1024 * 1024 then t\<lparr>gt_objects_under_1m := gt_objects_under_1m t + 1\<rparr>
      else if sz < 4 * 1024 * 1024 then t\<lparr>gt_objects_under_4m := gt_objects_under_4m t + 1\<rparr>
      else t\<lparr>gt_objects_huge := gt_objects_huge t + 1\<rparr>)"

definition gc_count_object :: "gc_env \<Rightarrow> string \<Rightarrow> object \<Rightarrow> gc_thread \<Rightarrow> gc_thread" where
  "gc_count_object e k ob t0 =
     (let t1 = t0\<lparr>gt_objects_in_bucket := gt_objects_in_bucket t0 + 1\<rparr>;
          t2 = (if gt_objects_in_bucket t1 = 2 then t1\<lparr>gt_conflicts := gt_conflicts t1 + 1\<rparr> else t1);
          t3 = gc_count_size (object_size ob) (t2\<lparr>gt_objects := gt_objects t2 + 1\<rparr>);
          t4 = t3\<lparr>gt_used_memory := gt_used_memory t3 + ge_sizeof_key e + length k + ge_sizeof_object e\<rparr>;
          t5 = (if heap_data_limit (ge_cfg e) \<ge> object_size ob
                then t4\<lparr>gt_used_memory := gt_used_memory t4 + object_size ob\<rparr> else t4)
      in t5\<lparr>gt_oldest_age := max (gt_oldest_age t5) (o_gc_old ob),
            gt_largest_object_size := max (gt_largest_object_size t5) (object_size ob)\<rparr>)"

definition gc_pred :: "gc_env \<Rightarrow> bool \<Rightarrow> u32 \<Rightarrow> time_t \<Rightarrow> (object, gc_thread) handler" where
  "gc_pred e flush evict_age t k ob g =
     (if flush \<and> \<not> object_locked ob then Inr (True, ob, gc_delete k g)
      else if evict_age > 0 \<and> o_gc_old ob \<ge> evict_age \<and> \<not> object_locked ob then
        Inr (True, ob, gc_delete k (g\<lparr>gt_last_evictions := gt_last_evictions g + 1\<rparr>))
      else if object_expired t (ge_now e) ob then
        Inr (True, ob, gc_delete k (g\<lparr>gt_last_expirations := gt_last_expirations g + 1\<rparr>))
      else
        (let ob1 = object_survive ob; g1 = gc_count_object e k ob1 g
         in if gt_new_slaves g1 \<noteq> [] then
              (case repl_object (gt_new_slaves g1) k ob1 False of
                 (evs, ob2) \<Rightarrow> Inr (False, ob2, g1\<lparr>gt_outs := gt_outs g1 @ evs\<rparr>))
            else Inr (False, ob1, g1)))"

fun gc_buckets ::
  "(object, gc_thread) handler \<Rightarrow> object bucket list \<Rightarrow> gc_thread \<Rightarrow> exn + (object bucket list \<times> gc_thread)" where
  "gc_buckets pred [] g = Inr ([], g)"
| "gc_buckets pred (b # bs) g =
     bind_res (bucket_gc pred b (g\<lparr>gt_objects_in_bucket := 0\<rparr>)) (\<lambda>(b', g').
     bind_res (gc_buckets pred bs g') (\<lambda>(bs', g''). Inr (b' # bs', g'')))"

definition gc :: "gc_env \<Rightarrow> statistics \<Rightarrow> object hash_map \<Rightarrow> gc_thread \<Rightarrow> exn + (statistics \<times> object hash_map \<times> gc_thread)" where
  "gc e st m g =
     bind_res (gc_buckets (gc_pred e (gc_flush e st) (gc_evict_age e st) (flush_time st)) (m_buckets m) g) (\<lambda>(bs, g').
       Inr (if gc_flush e st then st\<lparr>flush_time := 0\<rparr> else st, m\<lparr>m_buckets := bs\<rparr>, g'))"

definition gc_store_stats :: "u64 \<Rightarrow> gc_thread \<Rightarrow> statistics \<Rightarrow> statistics" where
  "gc_store_stats us g st =
     st\<lparr>objects := gt_objects g, objects_under_1k := gt_objects_under_1k g, objects_under_4k := gt_objects_under_4k g,
        objects_under_16k := gt_objects_under_16k g, objects_under_64k := gt_objects_under_64k g,
        objects_under_256k := gt_objects_under_256k g, objects_under_1m := gt_objects_under_1m g,
        objects_under_4m := gt_objects_under_4m g, objects_huge := gt_objects_huge g, used_memory := gt_used_memory g,
        conflicts := gt_conflicts g, gc_count := gc_count st + 1, oldest_age := gt_oldest_age g,
        largest_object_size := gt_largest_object_size g, last_expirations := gt_last_expirations g,
        last_evictions := gt_last_evictions g, total_evictions := total_evictions st + ucast (gt_last_evictions g),
        last_gc_elapsed := us, total_gc_elapsed := total_gc_elapsed st + us\<rparr>"

text \<open>The thread; it ends the process at once when the virtual address was lost, which is \<open>None\<close>.\<close>

definition gc_run ::
  "bool \<Rightarrow> u64 \<Rightarrow> gc_env \<Rightarrow> nat list \<Rightarrow> nat list \<Rightarrow> statistics \<Rightarrow> object hash_map
   \<Rightarrow> (exn + (statistics \<times> object hash_map \<times> event list)) option" where
  "gc_run has_vip us e slaves new_slaves st m =
     (if \<not> has_vip then None
      else Some (bind_res (gc e st m (gc_thread_ctor slaves new_slaves)) (\<lambda>(st', m', g).
        Inr (gc_store_stats us g st', m', gt_outs g))))"

section \<open>A collection as a function of each object\<close>

text \<open>The objects to be removed, and what becomes of the others.\<close>

definition doomed :: "gc_env \<Rightarrow> statistics \<Rightarrow> object \<Rightarrow> bool" where
  "doomed e st ob \<longleftrightarrow>
     \<not> object_locked ob \<and>
     (gc_flush e st \<or> gc_evict_age e st > 0 \<and> o_gc_old ob \<ge> gc_evict_age e st \<or> object_expired (flush_time st) (ge_now e) ob)"

definition survivor :: "gc_thread \<Rightarrow> object \<Rightarrow> object" where
  "survivor g ob = (if gt_new_slaves g = [] then object_survive ob else (object_survive ob)\<lparr>o_gc_old := 0\<rparr>)"

definition gc_note :: "gc_env \<Rightarrow> statistics \<Rightarrow> string \<Rightarrow> object \<Rightarrow> gc_thread \<Rightarrow> gc_thread" where
  "gc_note e st k ob g =
     (case gc_pred e (gc_flush e st) (gc_evict_age e st) (flush_time st) k ob g of Inr (_, _, g') \<Rightarrow> g' | Inl _ \<Rightarrow> g)"

lemma gc_count_size_keeps [simp]:
  "gt_slaves (gc_count_size n g) = gt_slaves g" "gt_new_slaves (gc_count_size n g) = gt_new_slaves g"
  "gt_outs (gc_count_size n g) = gt_outs g" "gt_objects (gc_count_size n g) = gt_objects g"
  "gt_used_memory (gc_count_size n g) = gt_used_memory g" "gt_conflicts (gc_count_size n g) = gt_conflicts g"
  "gt_objects_in_bucket (gc_count_size n g) = gt_objects_in_bucket g"
  by (simp_all add: gc_count_size_def)

text \<open>What surviving objects cost.\<close>

definition object_cost :: "gc_env \<Rightarrow> string \<times> object \<Rightarrow> nat" where
  "object_cost e = (\<lambda>(k, ob). ge_sizeof_key e + length k + ge_sizeof_object e +
     (if object_size ob \<le> heap_data_limit (ge_cfg e) then object_size ob else 0))"

lemma gc_count_object_fields:
  "gt_slaves (gc_count_object e k ob g) = gt_slaves g \<and> gt_new_slaves (gc_count_object e k ob g) = gt_new_slaves g \<and>
   gt_outs (gc_count_object e k ob g) = gt_outs g \<and> gt_objects (gc_count_object e k ob g) = gt_objects g + 1 \<and>
   gt_used_memory (gc_count_object e k ob g) = gt_used_memory g + object_cost e (k, ob) \<and>
   gt_objects_in_bucket (gc_count_object e k ob g) = gt_objects_in_bucket g + 1 \<and>
   gt_conflicts (gc_count_object e k ob g) = gt_conflicts g + (if gt_objects_in_bucket g = 1 then 1 else 0)"
proof -
  define t1 where "t1 = g\<lparr>gt_objects_in_bucket := gt_objects_in_bucket g + 1\<rparr>"
  define t2 where "t2 = (if gt_objects_in_bucket t1 = 2 then t1\<lparr>gt_conflicts := gt_conflicts t1 + 1\<rparr> else t1)"
  define t3 where "t3 = gc_count_size (object_size ob) (t2\<lparr>gt_objects := gt_objects t2 + 1\<rparr>)"
  define t4 where "t4 = t3\<lparr>gt_used_memory := gt_used_memory t3 + ge_sizeof_key e + length k + ge_sizeof_object e\<rparr>"
  define t5 where "t5 = (if heap_data_limit (ge_cfg e) \<ge> object_size ob
    then t4\<lparr>gt_used_memory := gt_used_memory t4 + object_size ob\<rparr> else t4)"
  have eq: "gc_count_object e k ob g = t5\<lparr>gt_oldest_age := max (gt_oldest_age t5) (o_gc_old ob),
      gt_largest_object_size := max (gt_largest_object_size t5) (object_size ob)\<rparr>"
    by (simp only: gc_count_object_def Let_def t1_def t2_def t3_def t4_def t5_def)
  have 2: "gt_slaves t2 = gt_slaves g" "gt_new_slaves t2 = gt_new_slaves g" "gt_outs t2 = gt_outs g" "gt_objects t2 = gt_objects g"
    "gt_used_memory t2 = gt_used_memory g" "gt_objects_in_bucket t2 = gt_objects_in_bucket g + 1"
    "gt_conflicts t2 = gt_conflicts g + (if gt_objects_in_bucket g = 1 then 1 else 0)"
    by (simp_all add: t2_def t1_def)
  have 5: "gt_slaves t5 = gt_slaves t2" "gt_new_slaves t5 = gt_new_slaves t2" "gt_outs t5 = gt_outs t2" "gt_objects t5 = gt_objects t2 + 1"
    "gt_used_memory t5 = gt_used_memory t2 + object_cost e (k, ob)" "gt_objects_in_bucket t5 = gt_objects_in_bucket t2"
    "gt_conflicts t5 = gt_conflicts t2"
    by (simp_all add: t5_def t4_def t3_def object_cost_def)
  show ?thesis unfolding eq using 2 5 by simp
qed

lemma gc_count_keeps [simp]:
  "gt_slaves (gc_count_object e k ob g) = gt_slaves g" "gt_new_slaves (gc_count_object e k ob g) = gt_new_slaves g"
  "gt_outs (gc_count_object e k ob g) = gt_outs g"
  using gc_count_object_fields [of e k ob g] by blast+

lemma gc_delete_keeps [simp]:
  "gt_slaves (gc_delete k g) = gt_slaves g" "gt_new_slaves (gc_delete k g) = gt_new_slaves g"
  "gt_outs (gc_delete k g) = gt_outs g @ repl_delete (gt_slaves g) k"
  by (simp_all add: gc_delete_def repl_delete_def)

lemma gc_pred_eq:
  "gc_pred e (gc_flush e st) (gc_evict_age e st) (flush_time st) k ob g =
     Inr (doomed e st ob, if doomed e st ob then ob else survivor g ob, gc_note e st k ob g)"
  by (auto simp: gc_pred_def gc_note_def doomed_def survivor_def Let_def repl_object_def object_data_eq object_expired_def)

lemma gc_note_keeps [simp]:
  "gt_slaves (gc_note e st k ob g) = gt_slaves g" "gt_new_slaves (gc_note e st k ob g) = gt_new_slaves g"
  by (simp_all add: gc_note_def gc_pred_def Let_def repl_object_def)

lemma gc_note_outs:
  "gt_outs (gc_note e st k ob g) = gt_outs g @
     (if doomed e st ob then repl_delete (gt_slaves g) k else fst (repl_object (gt_new_slaves g) k (object_survive ob) False))"
  by (auto simp: gc_note_def gc_pred_def doomed_def Let_def repl_object_def object_expired_def)

text \<open>One bucket, then all of them.\<close>

definition gc_bucket :: "gc_env \<Rightarrow> statistics \<Rightarrow> gc_thread \<Rightarrow> object bucket \<Rightarrow> object bucket" where
  "gc_bucket e st g b = sweep_bucket (doomed e st) (survivor g) b"

lemma survivor_cong: "gt_new_slaves g = gt_new_slaves g' \<Longrightarrow> survivor g = survivor g'"
  by (simp add: survivor_def fun_eq_iff)

lemma gc_bucket_cong: "gt_new_slaves g = gt_new_slaves g' \<Longrightarrow> gc_bucket e st g b = gc_bucket e st g' b"
  by (simp add: gc_bucket_def sweep_bucket_def survivor_cong [of g g'])

abbreviation gc_notes :: "gc_env \<Rightarrow> statistics \<Rightarrow> object bucket \<Rightarrow> gc_thread \<Rightarrow> gc_thread" where
  "gc_notes e st b g \<equiv> fold (\<lambda>(k, ob). gc_note e st k ob) b g"

lemma gc_notes_keeps [simp]:
  "gt_slaves (gc_notes e st b g) = gt_slaves g" "gt_new_slaves (gc_notes e st b g) = gt_new_slaves g"
  by (induction b arbitrary: g) auto

lemma bucket_gc_eq:
  "bucket_gc (gc_pred e (gc_flush e st) (gc_evict_age e st) (flush_time st)) b g = Inr (gc_bucket e st g b, gc_notes e st b g)"
proof (induction b arbitrary: g)
  case (Cons x b)
  obtain k ob where x: "x = (k, ob)" by (cases x)
  have "gc_bucket e st (gc_note e st k ob g) b = gc_bucket e st g b" by (rule gc_bucket_cong) simp
  then show ?case using Cons [of "gc_note e st k ob g"] by (simp add: x gc_pred_eq) (simp add: gc_bucket_def sweep_bucket_def)
qed (simp add: gc_bucket_def sweep_bucket_def)

definition next_bucket :: "gc_thread \<Rightarrow> gc_thread" where
  "next_bucket g = g\<lparr>gt_objects_in_bucket := 0\<rparr>"

lemma next_bucket_keeps [simp]:
  "gt_slaves (next_bucket g) = gt_slaves g" "gt_new_slaves (next_bucket g) = gt_new_slaves g" "gt_outs (next_bucket g) = gt_outs g"
  by (simp_all add: next_bucket_def)

lemma gc_buckets_eq:
  "gc_buckets (gc_pred e (gc_flush e st) (gc_evict_age e st) (flush_time st)) bs g =
     Inr (map (gc_bucket e st g) bs, fold (\<lambda>b g. gc_notes e st b (next_bucket g)) bs g)"
proof (induction bs arbitrary: g)
  case (Cons b bs)
  have "gc_bucket e st (gc_notes e st b (next_bucket g)) = gc_bucket e st g" by (rule ext, rule gc_bucket_cong) simp
  moreover have "gc_bucket e st (next_bucket g) b = gc_bucket e st g b" by (rule gc_bucket_cong) simp
  ultimately show ?case
    using Cons [of "gc_notes e st b (next_bucket g)"] by (simp add: bucket_gc_eq flip: next_bucket_def)
qed simp

lemma gc_eq:
  "gc e st m g = Inr (if gc_flush e st then st\<lparr>flush_time := 0\<rparr> else st, m\<lparr>m_buckets := map (gc_bucket e st g) (m_buckets m)\<rparr>,
     fold (\<lambda>b g. gc_notes e st b (next_bucket g)) (m_buckets m) g)"
  by (simp add: gc_def gc_buckets_eq)

text \<open>The effect on the map.\<close>

definition gc_map :: "gc_env \<Rightarrow> statistics \<Rightarrow> gc_thread \<Rightarrow> object hash_map \<Rightarrow> object hash_map" where
  "gc_map e st g m = m\<lparr>m_buckets := map (gc_bucket e st g) (m_buckets m)\<rparr>"

lemma gc_map_sweep: "gc_map e st g m = sweep (doomed e st) (survivor g) m"
  by (simp add: gc_map_def sweep_def gc_bucket_def [abs_def])

lemma gc_map_lookup:
  "hm_invar hf m \<Longrightarrow> hm_lookup hf (gc_map e st g m) k =
    (case hm_lookup hf m k of None \<Rightarrow> None | Some ob \<Rightarrow> if doomed e st ob then None else Some (survivor g ob))"
  by (simp add: gc_map_sweep sweep_lookup)

lemma gc_map_invar: "hm_invar hf m \<Longrightarrow> hm_invar hf (gc_map e st g m)"
  by (simp add: gc_map_sweep sweep_invar)

section \<open>The counters\<close>

lemma gc_note_count:
  "gc_note e st k ob g =
     (if doomed e st ob then gc_note e st k ob g
      else (gc_count_object e k (object_survive ob) g)
        \<lparr>gt_outs := gt_outs g @ fst (repl_object (gt_new_slaves g) k (object_survive ob) False)\<rparr>)"
  by (auto simp: gc_note_def gc_pred_def doomed_def Let_def repl_object_def object_expired_def)

definition same_counts :: "gc_thread \<Rightarrow> gc_thread \<Rightarrow> bool" where
  "same_counts g g' \<longleftrightarrow>
     gt_objects g' = gt_objects g \<and> gt_used_memory g' = gt_used_memory g \<and> gt_conflicts g' = gt_conflicts g \<and>
     gt_objects_in_bucket g' = gt_objects_in_bucket g"

lemma gc_note_doomed: "doomed e st ob \<Longrightarrow> same_counts g (gc_note e st k ob g)"
  by (auto simp: same_counts_def gc_note_def gc_pred_def doomed_def gc_delete_def object_expired_def)

lemma gc_count_object_counts:
  "gt_objects (gc_count_object e k ob g) = gt_objects g + 1"
  "gt_used_memory (gc_count_object e k ob g) = gt_used_memory g + object_cost e (k, ob)"
  "gt_objects_in_bucket (gc_count_object e k ob g) = gt_objects_in_bucket g + 1"
  "gt_conflicts (gc_count_object e k ob g) = gt_conflicts g + (if gt_objects_in_bucket g = 1 then 1 else 0)"
  using gc_count_object_fields [of e k ob g] by blast+

lemma survivor_size [simp]: "object_size (survivor g ob) = object_size ob" "object_size (object_survive ob) = object_size ob"
  by (cases "o_file ob"; simp add: survivor_def object_survive_def object_size_def)+

lemma gc_note_counts:
  "gt_objects (gc_note e st k ob g) = gt_objects g + (if doomed e st ob then 0 else 1)"
  "gt_used_memory (gc_note e st k ob g) = gt_used_memory g + (if doomed e st ob then 0 else object_cost e (k, ob))"
  "gt_objects_in_bucket (gc_note e st k ob g) = gt_objects_in_bucket g + (if doomed e st ob then 0 else 1)"
  "gt_conflicts (gc_note e st k ob g) = gt_conflicts g + (if \<not> doomed e st ob \<and> gt_objects_in_bucket g = 1 then 1 else 0)"
proof -
  have "object_cost e (k, object_survive ob) = object_cost e (k, ob)" by (simp add: object_cost_def)
  then show "gt_objects (gc_note e st k ob g) = gt_objects g + (if doomed e st ob then 0 else 1)"
    "gt_used_memory (gc_note e st k ob g) = gt_used_memory g + (if doomed e st ob then 0 else object_cost e (k, ob))"
    "gt_objects_in_bucket (gc_note e st k ob g) = gt_objects_in_bucket g + (if doomed e st ob then 0 else 1)"
    "gt_conflicts (gc_note e st k ob g) = gt_conflicts g + (if \<not> doomed e st ob \<and> gt_objects_in_bucket g = 1 then 1 else 0)"
    using gc_note_doomed [of e st ob g k] gc_note_count [of e st k ob g]
    by (cases "doomed e st ob"; simp add: same_counts_def gc_count_object_counts)+
qed

lemma gc_bucket_Cons:
  "gc_bucket e st g ((k, ob) # b) = (if doomed e st ob then gc_bucket e st g b else (k, survivor g ob) # gc_bucket e st g b)"
  by (simp add: gc_bucket_def sweep_bucket_def)

lemma gc_bucket_note: "gc_bucket e st (gc_note e st k ob g) b = gc_bucket e st g b"
  by (rule gc_bucket_cong) simp

lemma gc_notes_objects: "gt_objects (gc_notes e st b g) = gt_objects g + of_nat (length (gc_bucket e st g b))"
  by (induction b arbitrary: g) (auto simp: gc_bucket_def [of _ _ _ "[]"] sweep_bucket_def [of _ _ "[]"] gc_bucket_Cons gc_bucket_note gc_note_counts)

lemma gc_notes_memory:
  "gt_used_memory (gc_notes e st b g) = gt_used_memory g + sum_list (map (object_cost e) (gc_bucket e st g b))"
proof (induction b arbitrary: g)
  case (Cons x b)
  obtain k ob where "x = (k, ob)" by (cases x)
  moreover have "object_cost e (k, survivor g ob) = object_cost e (k, ob)" by (simp add: object_cost_def)
  ultimately show ?case using Cons by (simp add: gc_bucket_Cons gc_bucket_note gc_note_counts)
qed (simp add: gc_bucket_def sweep_bucket_def)

lemma gc_notes_conflicts:
  "gt_conflicts (gc_notes e st b g) = gt_conflicts g +
     (if gt_objects_in_bucket g < 2 \<and> 2 \<le> gt_objects_in_bucket g + length (gc_bucket e st g b) then 1 else 0)"
proof (induction b arbitrary: g)
  case (Cons x b)
  obtain k ob where "x = (k, ob)" by (cases x)
  then show ?case using Cons [of "gc_note e st k ob g"] by (auto simp: gc_bucket_Cons gc_bucket_note gc_note_counts)
qed (simp add: gc_bucket_def sweep_bucket_def)

definition crowded :: "'a bucket \<Rightarrow> bool" where
  "crowded b \<longleftrightarrow> 2 \<le> length b"

abbreviation gc_all :: "gc_env \<Rightarrow> statistics \<Rightarrow> object bucket list \<Rightarrow> gc_thread \<Rightarrow> gc_thread" where
  "gc_all e st bs g \<equiv> fold (\<lambda>b g. gc_notes e st b (next_bucket g)) bs g"

lemma gc_bucket_all: "gc_bucket e st (gc_notes e st b (next_bucket g)) = gc_bucket e st g" "gc_bucket e st (next_bucket g) = gc_bucket e st g"
  by (rule ext, rule gc_bucket_cong, simp)+

lemma next_bucket_counts [simp]:
  "gt_objects (next_bucket g) = gt_objects g" "gt_used_memory (next_bucket g) = gt_used_memory g"
  "gt_conflicts (next_bucket g) = gt_conflicts g" "gt_objects_in_bucket (next_bucket g) = 0"
  by (simp_all add: next_bucket_def)

lemma gc_all_objects: "gt_objects (gc_all e st bs g) = gt_objects g + of_nat (length (concat (map (gc_bucket e st g) bs)))"
  by (induction bs arbitrary: g) (simp_all add: gc_notes_objects gc_bucket_all)

lemma gc_all_memory:
  "gt_used_memory (gc_all e st bs g) = gt_used_memory g + sum_list (map (object_cost e) (concat (map (gc_bucket e st g) bs)))"
  by (induction bs arbitrary: g) (simp_all add: gc_notes_memory gc_bucket_all)

lemma gc_all_conflicts:
  "gt_conflicts (gc_all e st bs g) = gt_conflicts g + of_nat (length (filter crowded (map (gc_bucket e st g) bs)))"
  by (induction bs arbitrary: g) (simp_all add: gc_notes_conflicts gc_bucket_all crowded_def)

section \<open>The streams to the slaves\<close>

definition gc_op :: "gc_env \<Rightarrow> statistics \<Rightarrow> string \<times> object \<Rightarrow> repl_op" where
  "gc_op e st = (\<lambda>(k, ob). if doomed e st ob then R_delete k else R_set k (object_survive ob))"

text \<open>A new slave gets a change for every object, an old one those for the removed objects.\<close>

definition gc_ops :: "bool \<Rightarrow> gc_env \<Rightarrow> statistics \<Rightarrow> (string \<times> object) list \<Rightarrow> repl_op list" where
  "gc_ops new e st xs = map (gc_op e st) (filter (\<lambda>(k, ob). new \<or> doomed e st ob) xs)"

lemma gc_note_slave:
  assumes "distinct (gt_slaves g)" "distinct (gt_new_slaves g)" "set (gt_new_slaves g) \<subseteq> set (gt_slaves g)" "i \<in> set (gt_slaves g)"
  shows "slave_bytes (gt_outs (gc_note e st k ob g)) i =
    slave_bytes (gt_outs g) i @ concat (map repl_bytes (gc_ops (i \<in> set (gt_new_slaves g)) e st [(k, ob)]))"
  using assms by (auto simp: gc_note_outs gc_ops_def gc_op_def repl_delete_def repl_object_def slave_bytes_map)

lemma gc_notes_slave:
  assumes "distinct (gt_slaves g)" "distinct (gt_new_slaves g)" "set (gt_new_slaves g) \<subseteq> set (gt_slaves g)" "i \<in> set (gt_slaves g)"
  shows "slave_bytes (gt_outs (gc_notes e st b g)) i =
    slave_bytes (gt_outs g) i @ concat (map repl_bytes (gc_ops (i \<in> set (gt_new_slaves g)) e st b))"
  using assms
proof (induction b arbitrary: g)
  case (Cons x b)
  obtain k ob where x: "x = (k, ob)" by (cases x)
  have "gc_ops n e st (x # b) = gc_ops n e st [(k, ob)] @ gc_ops n e st b" for n by (simp add: gc_ops_def x)
  then show ?case
    using Cons.IH [of "gc_note e st k ob g"] Cons.prems gc_note_slave [OF Cons.prems, of e st k ob] by (simp add: x)
qed (simp add: gc_ops_def)

lemma gc_all_slave:
  assumes "distinct (gt_slaves g)" "distinct (gt_new_slaves g)" "set (gt_new_slaves g) \<subseteq> set (gt_slaves g)" "i \<in> set (gt_slaves g)"
  shows "slave_bytes (gt_outs (gc_all e st bs g)) i =
    slave_bytes (gt_outs g) i @ concat (map repl_bytes (gc_ops (i \<in> set (gt_new_slaves g)) e st (concat bs)))"
  using assms
proof (induction bs arbitrary: g)
  case (Cons b bs)
  have "gc_ops n e st (concat (b # bs)) = gc_ops n e st b @ gc_ops n e st (concat bs)" for n by (simp add: gc_ops_def)
  then show ?case
    using Cons.IH [of "gc_notes e st b (next_bucket g)"] Cons.prems gc_notes_slave [of "next_bucket g" i e st b] by simp
qed (simp add: gc_ops_def)

text \<open>Changes for distinct keys do not interfere.\<close>

lemma fold_gc_ops:
  assumes "distinct (map fst xs)"
  shows "fold effect (gc_ops new e st xs) V k =
    (case map_of xs k of
       None \<Rightarrow> V k
     | Some ob \<Rightarrow> if doomed e st ob then None else if new then Some (view ob) else V k)"
  using assms
proof (induction xs arbitrary: V)
  case (Cons x xs)
  obtain k' ob where x: "x = (k', ob)" by (cases x)
  have k': "map_of xs k' = None" using Cons.prems x by (simp add: map_of_eq_None_iff)
  have "view (object_survive ob) = view ob" by (simp add: object_survive_def)
  with Cons k' show ?case by (auto simp: x gc_ops_def gc_op_def split: option.splits)
qed (simp add: gc_ops_def)

lemma view_survivor [simp]: "view (survivor g ob) = view ob" "view (object_survive ob) = view ob"
  "o_lock (survivor g ob) = o_lock ob" "core (survivor g ob) = core ob"
  by (simp_all add: survivor_def object_survive_def)

lemma object_ok_survivor: "object_ok c ob \<Longrightarrow> object_ok c (survivor g ob)" "object_ok c ob \<Longrightarrow> object_ok c (object_survive ob)"
  by (simp_all add: survivor_def object_survive_def)

lemma gc_map_keyed: "keyed_ok hf c m \<Longrightarrow> keyed_ok hf c (gc_map e st g m)"
  by (auto simp: keyed_ok_def gc_map_invar gc_map_lookup object_ok_survivor split: option.splits if_splits)

lemma gc_map_held: "hm_invar hf m \<Longrightarrow> c \<noteq> - 1 \<Longrightarrow> held hf (gc_map e st g m) c = held hf m c"
  by (auto simp: held_def gc_map_lookup doomed_def object_locked_def split: option.splits if_splits)

lemma gc_ops_views:
  assumes "hm_invar hf m" "new \<Longrightarrow> dom V \<subseteq> dom (hm_lookup hf m)" "\<not> new \<Longrightarrow> V = views hf m"
  shows "fold effect (gc_ops new e st (hm_items m)) V = views hf (gc_map e st g m)"
proof (rule ext)
  fix k
  show "fold effect (gc_ops new e st (hm_items m)) V k = views hf (gc_map e st g m) k"
  proof -
    have "V k = None" if "hm_lookup hf m k = None" using assms(2,3) that by (cases new) (auto simp: views_def)
    then show ?thesis
      using assms(3) unfolding fold_gc_ops [OF hm_items_distinct [OF assms(1)]] hm_items_lookup_iff [OF assms(1), symmetric]
      by (auto simp: views_def gc_map_lookup [OF assms(1)] split: option.splits)
  qed
qed

lemma gc_ops_ok:
  assumes "keyed_ok hf c m" "all_replicable hf (gc_map e st g m)"
  shows "list_all (repl_op_ok c) (gc_ops new e st (hm_items m))"
proof -
  have inv: "hm_invar hf m" using assms(1) by (simp add: keyed_ok_def)
  have "repl_op_ok c (gc_op e st (k, ob))" if x: "(k, ob) \<in> set (hm_items m)" for k ob
  proof -
    have l: "hm_lookup hf m k = Some ob" using hm_items_lookup [OF inv x] .
    then have "object_ok c ob" "good_repl_key k" using assms(1) by (auto simp: keyed_ok_def)
    moreover have "replicable (view ob)" if "\<not> doomed e st ob"
    proof -
      have "views hf (gc_map e st g m) k = Some (view ob)" using l that by (simp add: views_def gc_map_lookup [OF inv])
      then show ?thesis using assms(2) unfolding all_replicable_def by blast
    qed
    ultimately show ?thesis
      by (auto simp: gc_op_def object_ok_survivor replicable_def view_def object_survive_def)
  qed
  then show ?thesis by (auto simp: gc_ops_def list_all_iff)
qed

lemma gc_run_eq:
  "gc_run True us e slaves new_slaves st m =
     (let g = gc_thread_ctor slaves new_slaves; g' = gc_all e st (m_buckets m) g
      in Some (Inr (gc_store_stats us g' (if gc_flush e st then st\<lparr>flush_time := 0\<rparr> else st), gc_map e st g m, gt_outs g')))"
  by (simp add: gc_run_def gc_eq gc_map_def Let_def)

section \<open>Properties of a collection\<close>



text \<open>
  C17: the counters a collection publishes describe the map it leaves: the number of objects and of buckets with
  conflicts, and the memory in use, which counts keys, headers and the values kept on the heap.
\<close>

theorem gc_publishes_counts:
  assumes "gc_run True us e slaves new_slaves st m = Some (Inr (st', m', evs))"
  shows "objects st' = of_nat (length (hm_items m')) \<and> conflicts st' = of_nat (length (filter crowded (m_buckets m'))) \<and>
    used_memory st' = sum_list (map (object_cost e) (hm_items m'))"
proof -
  let ?g = "gc_thread_ctor slaves new_slaves"
  have z: "gt_objects ?g = 0" "gt_used_memory ?g = 0" "gt_conflicts ?g = 0" by (simp_all add: gc_thread_ctor_def)
  have m': "m' = gc_map e st ?g m" and st': "objects st' = gt_objects (gc_all e st (m_buckets m) ?g)"
    "conflicts st' = gt_conflicts (gc_all e st (m_buckets m) ?g)" "used_memory st' = gt_used_memory (gc_all e st (m_buckets m) ?g)"
    using assms by (auto simp: gc_run_eq Let_def gc_store_stats_def)
  show ?thesis by (simp add: m' st' z gc_all_objects gc_all_memory gc_all_conflicts gc_map_def hm_items_def)
qed

theorem gc_publishes_counts_witness:
  "\<exists>st' m' evs. gc_run True 0 \<lparr>ge_cfg = sample_cfg, ge_now = 5, ge_wall = 5, ge_sizeof_key = 48, ge_sizeof_object = 96\<rparr> [] []
      statistics_reset (hash_map_ctor 1) = Some (Inr (st', m', evs)) \<and>
    objects st' = of_nat (length (hm_items m')) \<and> conflicts st' = of_nat (length (filter crowded (m_buckets m')))"
proof -
  let ?e = "\<lparr>ge_cfg = sample_cfg, ge_now = 5, ge_wall = 5, ge_sizeof_key = 48, ge_sizeof_object = 96\<rparr>"
  obtain st' m' evs where "gc_run True 0 ?e [] [] statistics_reset (hash_map_ctor 1) = Some (Inr (st', m', evs))"
    by (simp add: gc_run_eq Let_def)
  with gc_publishes_counts [OF this] show ?thesis by blast
qed



end
