(* ===== verification/Counter_Protocol.thy ===== *)
theory Counter_Protocol
  imports Config
begin

text \<open>
  Models the counter protocol of \<^verbatim>\<open>src/counter/counter.hpp\<close> and \<^verbatim>\<open>counter.cpp\<close>, the statistics of
  \<^verbatim>\<open>src/counter/stats.hpp\<close>, and the client of \<^verbatim>\<open>test/counter_client.hpp\<close>, which speaks the other side.

  \<^verbatim>\<open>counter::command\<close> is an enumeration over \<^verbatim>\<open>std::uint8_t\<close> into which the parser casts an
  arbitrary byte, so a command is a byte here and its enumerators are constants.  The fields of a
  request that the parser left alone have the values of their initializers.
\<close>

section \<open>Commands, statuses and statistics\<close>

definition Cmd_Noop :: u8 where "Cmd_Noop = 0x00"
definition Cmd_Get :: u8 where "Cmd_Get = 0x01"
definition Cmd_Acquire :: u8 where "Cmd_Acquire = 0x02"
definition Cmd_Release :: u8 where "Cmd_Release = 0x03"
definition Cmd_Stats :: u8 where "Cmd_Stats = 0x10"
definition Cmd_Dump :: u8 where "Cmd_Dump = 0x11"
definition Cmd_Unknown :: u8 where "Cmd_Unknown = 0x12"
definition Cmd_END_OF_COMMAND :: nat where "Cmd_END_OF_COMMAND = 0x13"

lemmas counter_commands = Cmd_Noop_def Cmd_Get_def Cmd_Acquire_def Cmd_Release_def Cmd_Stats_def Cmd_Dump_def Cmd_Unknown_def

datatype counter_status =
    CS_OK | CS_NotFound | CS_Invalid | CS_ResourceNotAvailable | CS_NotAcquired | CS_UnknownCommand | CS_OutOfMemory

primrec counter_status_byte :: "counter_status \<Rightarrow> u8" where
  "counter_status_byte CS_OK = 0x00"
| "counter_status_byte CS_NotFound = 0x01"
| "counter_status_byte CS_Invalid = 0x04"
| "counter_status_byte CS_ResourceNotAvailable = 0x21"
| "counter_status_byte CS_NotAcquired = 0x22"
| "counter_status_byte CS_UnknownCommand = 0x81"
| "counter_status_byte CS_OutOfMemory = 0x82"

record counter_statistics =
  cst_objects :: u32
  cst_used_memory :: u64
  cst_conflicts :: u32
  cst_gc_count :: u32
  cst_last_gc_elapsed :: u64
  cst_total_gc_elapsed :: u64
  cst_total_objects :: u64
  cst_curr_connections :: u64
  cst_total_connections :: u64
  cst_ops :: "u64 list"

definition counter_statistics_reset :: counter_statistics where
  "counter_statistics_reset =
     \<lparr>cst_objects = 0, cst_used_memory = 0, cst_conflicts = 0, cst_gc_count = 0, cst_last_gc_elapsed = 0,
      cst_total_gc_elapsed = 0, cst_total_objects = 0, cst_curr_connections = 0, cst_total_connections = 0,
      cst_ops = replicate Cmd_END_OF_COMMAND 0\<rparr>"

section \<open>Requests\<close>

record counter_request =
  cr_length :: nat
  cr_command :: u8
  cr_flags :: u8
  cr_body_length :: u32
  cr_opaque :: string
  cr_resources :: u32
  cr_maximum :: u32
  cr_name :: string
  cr_status :: counter_status

definition counter_request_init :: counter_request where
  "counter_request_init =
     \<lparr>cr_length = 0, cr_command = Cmd_Unknown, cr_flags = 0, cr_body_length = 0, cr_opaque = [], cr_resources = 0,
      cr_maximum = 0, cr_name = [], cr_status = CS_Invalid\<rparr>"

definition COUNTER_HEADER_SIZE :: nat where "COUNTER_HEADER_SIZE = 12"

text \<open>A name: its length is the number at \<open>off\<close>, its bytes follow; a name that does not fit is invalid.\<close>

definition counter_parse_name :: "nat \<Rightarrow> string \<Rightarrow> counter_request \<Rightarrow> counter_request" where
  "counter_parse_name off body r =
     (let name_len = (ntoh (drop off body) :: u16)
      in if name_len = 0 \<or> off + 2 + unat name_len > unat (cr_body_length r) then r
         else r\<lparr>cr_name := take (unat name_len) (drop (off + 2) body), cr_status := CS_OK\<rparr>)"

text \<open>The switch on the command; leaving early keeps the status \<open>Invalid\<close>.\<close>

definition counter_parse_body :: "string \<Rightarrow> counter_request \<Rightarrow> counter_request" where
  "counter_parse_body body r =
     (let c = cr_command r; n = unat (cr_body_length r)
      in if c = Cmd_Noop \<or> c = Cmd_Stats \<or> c = Cmd_Dump then r\<lparr>cr_status := CS_OK\<rparr>
         else if c = Cmd_Get then
           (if n < 2 then r else counter_parse_name 0 body r)
         else if c = Cmd_Acquire then
           (if n < 10 then r
            else
              (let r1 = r\<lparr>cr_resources := ntoh body\<rparr>
               in if cr_resources r1 = 0 then r1
                  else
                    (let r2 = r1\<lparr>cr_maximum := ntoh (drop 4 body)\<rparr>
                     in if cr_maximum r2 < cr_resources r2 then r2
                        else counter_parse_name 8 body r2)))
         else if c = Cmd_Release then
           (if n < 6 then r else counter_parse_name 4 body (r\<lparr>cr_resources := ntoh body\<rparr>))
         else r\<lparr>cr_command := Cmd_Unknown, cr_status := CS_UnknownCommand\<rparr>)"

definition counter_parse :: "string \<Rightarrow> counter_request" where
  "counter_parse p =
     (let r = counter_request_init; body_length = (ntoh (drop 4 p) :: u32)
      in if length p < COUNTER_HEADER_SIZE \<or> length p < COUNTER_HEADER_SIZE + unat body_length then r
         else
           (let r1 = r\<lparr>cr_command := of_char (p ! 1), cr_flags := of_char (p ! 2), cr_body_length := body_length,
                       cr_opaque := take 4 (drop 8 p), cr_length := COUNTER_HEADER_SIZE + unat body_length\<rparr>
            in if p ! 0 \<noteq> CHR 0x90 then r1
               else counter_parse_body (drop COUNTER_HEADER_SIZE p) r1))"

definition counter_request_ctor :: "string \<Rightarrow> exn + counter_request" where
  "counter_request_ctor p =
     (if p = [] then Inl (Logic_error ''<counter::request> `len` must not be zero'') else Inr (counter_parse p))"

section \<open>Responses\<close>

text \<open>What a connection is told to send, and whether it is flushed at once, or that it is closed.\<close>

datatype counter_event = C_send string bool | C_close

definition counter_header :: "counter_request \<Rightarrow> counter_status \<Rightarrow> u32 \<Rightarrow> string" where
  "counter_header r st body_length =
     [CHR 0x91, char_of (unat (cr_command r)), char_of (unat (counter_status_byte st)), CHR 0x00] @
     hton body_length @ cr_opaque r"

definition counter_success :: "counter_request \<Rightarrow> counter_event list" where
  "counter_success r = [C_send (counter_header r CS_OK 0) True]"

definition counter_send_error :: "counter_request \<Rightarrow> counter_status \<Rightarrow> string \<Rightarrow> counter_event list" where
  "counter_send_error r st msg = [C_send (counter_header r st (word_of_nat (length msg)) @ msg) True]"

fun counter_status_message :: "counter_status \<Rightarrow> string option" where
  "counter_status_message CS_NotFound = Some ''Not found''"
| "counter_status_message CS_Invalid = Some ''Invalid arguments''"
| "counter_status_message CS_ResourceNotAvailable = Some ''Resource not available''"
| "counter_status_message CS_NotAcquired = Some ''Not acquired''"
| "counter_status_message CS_UnknownCommand = Some ''Unknown command''"
| "counter_status_message CS_OutOfMemory = Some ''OutOfMemory''"
| "counter_status_message CS_OK = None"

definition counter_error :: "counter_request \<Rightarrow> counter_status \<Rightarrow> exn + counter_event list" where
  "counter_error r st =
     (case counter_status_message st of
        None \<Rightarrow> Inl (Logic_error (''<counter::response::error> invalid status: '' @ to_decimal (unat (counter_status_byte st))))
      | Some msg \<Rightarrow> Inr (counter_send_error r st msg))"

definition counter_get :: "counter_request \<Rightarrow> u32 \<Rightarrow> counter_event list" where
  "counter_get r consumption = [C_send (counter_header r CS_OK 4 @ hton consumption) True]"

definition counter_acquire :: "counter_request \<Rightarrow> u32 \<Rightarrow> counter_event list" where
  "counter_acquire r resources = counter_get r resources"

definition counter_dump :: "counter_request \<Rightarrow> string \<Rightarrow> u16 \<Rightarrow> u32 \<Rightarrow> u32 \<Rightarrow> counter_event list" where
  "counter_dump r name name_len consumption max_consumption =
     [C_send (counter_header r CS_OK (10 + ucast name_len) @ hton consumption @ hton max_consumption @ hton name_len @
        take (unat name_len) name) False]"

definition add_stat :: "string \<Rightarrow> string \<Rightarrow> string \<Rightarrow> string" where
  "add_stat body name val =
     body @ hton (word_of_nat (length name) :: u16) @ hton (word_of_nat (length val) :: u16) @ name @ val"

definition add_stat_op :: "counter_statistics \<Rightarrow> string \<Rightarrow> string \<Rightarrow> u8 \<Rightarrow> string" where
  "add_stat_op s body name c = add_stat body name (to_decimal (unat (cst_ops s ! unat c)))"

definition counter_stats_body :: "counter_statistics \<Rightarrow> string" where
  "counter_stats_body s =
     (let num = (\<lambda>name v b. add_stat b name (to_decimal v)); op = (\<lambda>name c b. add_stat_op s b name c);
          b1 = num ''objects'' (unat (cst_objects s)) [];
          b2 = num ''total_objects'' (unat (cst_total_objects s)) b1;
          b3 = num ''used_memory'' (unat (cst_used_memory s)) b2;
          b4 = num ''conflicts'' (unat (cst_conflicts s)) b3;
          b5 = num ''gc_count'' (unat (cst_gc_count s)) b4;
          b6 = num ''last_gc_elapsed'' (unat (cst_last_gc_elapsed s)) b5;
          b7 = num ''total_gc_elapsed'' (unat (cst_total_gc_elapsed s)) b6;
          b8 = num ''curr_connections'' (unat (cst_curr_connections s)) b7;
          b9 = num ''total_connections'' (unat (cst_total_connections s)) b8;
          b10 = op ''command:noop'' Cmd_Noop b9;
          b11 = op ''command:get'' Cmd_Get b10;
          b12 = op ''command:acquire'' Cmd_Acquire b11;
          b13 = op ''command:release'' Cmd_Release b12;
          b14 = op ''command:stats'' Cmd_Stats b13
      in op ''command:dump'' Cmd_Dump b14)"

definition counter_stats :: "counter_request \<Rightarrow> counter_statistics \<Rightarrow> counter_event list" where
  "counter_stats r s =
     (let body = counter_stats_body s
      in [C_send (counter_header r CS_OK (word_of_nat (length body)) @ body) True])"

end
