(* ===== verification/Counter_Object.thy ===== *)
theory Counter_Object
  imports Counter_Protocol "HOL-Library.Signed_Division"
begin

text \<open>
  Models \<^verbatim>\<open>src/counter/object.hpp\<close>: one counter, the resources in use and their maximum in the current interval of
  the statistics.  The current time \<open>t\<close> and the length of the interval are arguments; the division of
  \<^verbatim>\<open>nearest_boundary\<close> is the one of C.
\<close>

section \<open>The operations\<close>

record counter_object =
  co_consumption :: u32
  co_max_consumption :: u32
  co_last_updated :: time_t

definition counter_object_ctor :: "time_t \<Rightarrow> u32 \<Rightarrow> counter_object" where
  "counter_object_ctor t consumption = \<lparr>co_consumption = consumption, co_max_consumption = consumption, co_last_updated = t\<rparr>"

definition nearest_boundary :: "nat \<Rightarrow> time_t \<Rightarrow> time_t" where
  "nearest_boundary interval t = (t sdiv int interval) * int interval"

definition co_acquire :: "nat \<Rightarrow> time_t \<Rightarrow> u32 \<Rightarrow> u32 \<Rightarrow> counter_object \<Rightarrow> bool \<times> counter_object" where
  "co_acquire interval t resources maximum ob =
     (if co_consumption ob + resources > maximum then (False, ob)
      else
        (True, ob\<lparr>co_max_consumption :=
                    (if co_last_updated ob < nearest_boundary interval t then co_consumption ob + resources
                     else max (co_max_consumption ob) (co_consumption ob + resources)),
                  co_last_updated := t, co_consumption := co_consumption ob + resources\<rparr>))"

definition co_release :: "nat \<Rightarrow> time_t \<Rightarrow> u32 \<Rightarrow> counter_object \<Rightarrow> bool \<times> counter_object" where
  "co_release interval t resources ob =
     (if resources > co_consumption ob then (False, ob)
      else
        (True, ob\<lparr>co_max_consumption :=
                    (if co_last_updated ob < nearest_boundary interval t then co_consumption ob else co_max_consumption ob),
                  co_last_updated := t, co_consumption := co_consumption ob - resources\<rparr>))"

definition co_reported_max :: "nat \<Rightarrow> time_t \<Rightarrow> counter_object \<Rightarrow> u32" where
  "co_reported_max interval t ob =
     (if co_last_updated ob < nearest_boundary interval t then co_consumption ob else co_max_consumption ob)"

definition co_deletable :: "nat \<Rightarrow> time_t \<Rightarrow> counter_object \<Rightarrow> bool" where
  "co_deletable interval t ob \<longleftrightarrow> co_consumption ob = 0 \<and> co_last_updated ob < nearest_boundary interval t"

section \<open>Intervals\<close>

lemma sdiv_nonneg: "0 \<le> t \<Longrightarrow> t sdiv int n = t div int n"
  by (simp add: signed_divide_int_def sgn_if)

lemma nearest_boundary_le: "0 < n \<Longrightarrow> 0 \<le> t \<Longrightarrow> nearest_boundary n t \<le> t"
  by (simp add: nearest_boundary_def sdiv_nonneg) (simp add: div_mult_mod_eq [symmetric] flip: minus_mod_eq_div_mult)

lemma nearest_boundary_same:
  assumes "0 \<le> s" "s \<le> t" "nearest_boundary n t \<le> s" "0 < n"
  shows "nearest_boundary n s = nearest_boundary n t"
proof -
  have "t div int n * int n \<le> s" using assms by (simp add: nearest_boundary_def sdiv_nonneg)
  then have "t div int n \<le> s div int n" using assms(4) by (simp add: zdiv_mono1 [of "t div int n * int n" s "int n", simplified])
  moreover have "s div int n \<le> t div int n" using assms by (simp add: zdiv_mono1)
  ultimately show ?thesis using assms by (simp add: nearest_boundary_def sdiv_nonneg)
qed

section \<open>The maximum is the peak of the interval\<close>

text \<open>
  The history of a counter lists, latest first, the times of its changes and the consumption after each.
  A level counts for the interval that starts at \<open>b\<close> if it was in force at \<open>b\<close> or later.
\<close>

fun peak :: "time_t \<Rightarrow> (time_t \<times> u32) list \<Rightarrow> u32" where
  "peak b [] = 0"
| "peak b ((t, l) # h) = (if t < b then l else max l (peak b h))"

datatype counter_op = Acq u32 u32 | Rel u32

text \<open>A counter in use: the operations with their times, and the history they leave.\<close>

fun counter_uses :: "nat \<Rightarrow> (time_t \<times> counter_op) list \<Rightarrow> counter_object \<Rightarrow> (time_t \<times> u32) list \<Rightarrow> counter_object \<times> (time_t \<times> u32) list" where
  "counter_uses n [] ob h = (ob, h)"
| "counter_uses n ((t, op) # ops) ob h =
     (case (case op of Acq r m \<Rightarrow> co_acquire n t r m ob | Rel r \<Rightarrow> co_release n t r ob) of
        (ok, ob') \<Rightarrow> counter_uses n ops ob' (if ok then (t, co_consumption ob') # h else h))"

text \<open>Limits below $2^{31}$, as requests accept them: not above what is asked for.\<close>

fun op_modest :: "counter_op \<Rightarrow> bool" where
  "op_modest (Acq r m) \<longleftrightarrow> r \<le> m \<and> m < 2 ^ 31"
| "op_modest (Rel r) \<longleftrightarrow> True"

definition peak_inv :: "nat \<Rightarrow> counter_object \<Rightarrow> (time_t \<times> u32) list \<Rightarrow> bool" where
  "peak_inv n ob h \<longleftrightarrow>
     co_consumption ob < 2 ^ 31 \<and> 0 \<le> co_last_updated ob \<and>
     (\<exists>h'. h = (co_last_updated ob, co_consumption ob) # h') \<and>
     co_max_consumption ob = peak (nearest_boundary n (co_last_updated ob)) h"

lemma modest_plus: "(c :: u32) < 2 ^ 31 \<Longrightarrow> r < 2 ^ 31 \<Longrightarrow> unat (c + r) = unat c + unat r"
  by (rule unat_plus_no_wrap) (simp add: word_less_nat_alt)

lemma peak_current: "peak_inv n ob h \<Longrightarrow> co_last_updated ob < b \<Longrightarrow> peak b h = co_consumption ob"
  by (auto simp: peak_inv_def)

lemma peak_interval:
  assumes "0 < n" "peak_inv n ob h" "co_last_updated ob \<le> t"
  shows "peak (nearest_boundary n t) h = co_reported_max n t ob"
proof (cases "co_last_updated ob < nearest_boundary n t")
  case True
  then show ?thesis using peak_current [OF assms(2)] by (simp add: co_reported_max_def)
next
  case False
  then have "nearest_boundary n (co_last_updated ob) = nearest_boundary n t"
    using assms by (intro nearest_boundary_same) (simp_all add: peak_inv_def)
  with False assms(2) show ?thesis by (simp add: co_reported_max_def peak_inv_def)
qed

text \<open>A change to a new level keeps the maximum equal to the peak.\<close>

lemma peak_change:
  assumes "0 < n" "peak_inv n ob h" "co_last_updated ob \<le> t" "l < 2 ^ 31"
    "ob' = ob\<lparr>co_max_consumption := max l (co_reported_max n t ob), co_last_updated := t, co_consumption := l\<rparr>"
  shows "peak_inv n ob' ((t, l) # h)"
proof -
  have "0 \<le> t" using assms(2,3) by (simp add: peak_inv_def)
  then have "\<not> t < nearest_boundary n t" using nearest_boundary_le [OF assms(1)] by fastforce
  then show ?thesis using peak_interval [OF assms(1-3)] \<open>0 \<le> t\<close> assms(4) by (simp add: peak_inv_def assms(5))
qed

lemma peak_acquire:
  assumes "0 < n" "peak_inv n ob h" "co_last_updated ob \<le> t" "r \<le> m" "m < 2 ^ 31" "co_acquire n t r m ob = (ok, ob')"
  shows "peak_inv n ob' (if ok then (t, co_consumption ob') # h else h)"
proof (cases "co_consumption ob + r > m")
  case True
  then show ?thesis using assms(2,6) by (simp add: co_acquire_def)
next
  case False
  let ?c = "co_consumption ob"
  have "?c < 2 ^ 31" using assms(2) by (simp add: peak_inv_def)
  moreover have "r < 2 ^ 31" using assms(4,5) by (rule order.strict_trans1)
  ultimately have "?c \<le> ?c + r" using modest_plus [of ?c r] by (simp add: word_le_nat_alt)
  then have "max (?c + r) ?c = ?c + r" by (simp add: max_def)
  then have u: "ob' = ob\<lparr>co_max_consumption := max (?c + r) (co_reported_max n t ob), co_last_updated := t, co_consumption := ?c + r\<rparr>"
    "ok" using False assms(6) by (auto simp: co_acquire_def co_reported_max_def max.commute)
  then show ?thesis using peak_change [OF assms(1-3) _ u(1)] False assms(5) by (simp add: not_less)
qed

lemma peak_release:
  assumes "0 < n" "peak_inv n ob h" "co_last_updated ob \<le> t" "co_release n t r ob = (ok, ob')"
  shows "peak_inv n ob' (if ok then (t, co_consumption ob') # h else h)"
proof (cases "r > co_consumption ob")
  case True
  then show ?thesis using assms(2,4) by (simp add: co_release_def)
next
  case False
  let ?c = "co_consumption ob"
  have c: "?c < 2 ^ 31" "?c - r \<le> ?c"
    using assms(2) False unat_minus_le [of r ?c] by (simp_all add: peak_inv_def word_le_nat_alt not_less)
  have "?c \<le> co_max_consumption ob" if "\<not> co_last_updated ob < nearest_boundary n t"
  proof -
    have "peak b ((s, l) # h') \<ge> l" for b s l h' by simp
    then show ?thesis using assms(2) unfolding peak_inv_def by metis
  qed
  then have "max (?c - r) (co_reported_max n t ob) = co_reported_max n t ob"
    using c(2) by (auto simp: co_reported_max_def max_def)
  then have u: "ob' = ob\<lparr>co_max_consumption := max (?c - r) (co_reported_max n t ob), co_last_updated := t, co_consumption := ?c - r\<rparr>"
    "ok" using False assms(4) by (auto simp: co_release_def co_reported_max_def)
  then show ?thesis using peak_change [OF assms(1-3) _ u(1)] order.strict_trans1 [OF c(2,1)] by simp
qed

lemma counter_uses_peak:
  assumes "0 < n" "peak_inv n ob h" "sorted (co_last_updated ob # map fst ops)" "list_all (op_modest \<circ> snd) ops"
    "counter_uses n ops ob h = (ob', h')"
  shows "peak_inv n ob' h' \<and> co_last_updated ob' \<le> last (co_last_updated ob # map fst ops)"
  using assms(2-)
proof (induction ops arbitrary: ob h)
  case (Cons x ops)
  obtain t op where x: "x = (t, op)" by (cases x)
  let ?r = "case op of Acq r m \<Rightarrow> co_acquire n t r m ob | Rel r \<Rightarrow> co_release n t r ob"
  obtain ok ob1 where r: "?r = (ok, ob1)" by (cases ?r)
  have t: "co_last_updated ob \<le> t" using Cons.prems(2) x by simp
  have "peak_inv n ob1 (if ok then (t, co_consumption ob1) # h else h)"
  proof (cases op)
    case (Acq k m)
    then show ?thesis using peak_acquire [OF assms(1) Cons.prems(1) t, of k m] r Cons.prems(3) x by simp
  next
    case (Rel k)
    then show ?thesis using peak_release [OF assms(1) Cons.prems(1) t, of k] r by simp
  qed
  moreover have l: "co_last_updated ob1 \<le> t"
    using r t by (cases op) (auto simp: co_acquire_def co_release_def split: if_splits)
  moreover have "sorted (co_last_updated ob1 # map fst ops)" using Cons.prems(2) x l by auto
  ultimately have "peak_inv n ob' h' \<and> co_last_updated ob' \<le> last (co_last_updated ob1 # map fst ops)"
    using Cons.IH [of ob1] Cons.prems(3,4) x r by simp
  with l x show ?case by (cases "map fst ops") auto
qed simp



end
