(* ===== verification/Counter_Socket.thy ===== *)
theory Counter_Socket
  imports Counter_Object Hash_Map_Facts Tcp_Socket
begin

text \<open>
  Models \<^verbatim>\<open>src/counter/sockets.cpp\<close>: the connections of the counter protocol.

  \<^verbatim>\<open>m_acquired_resources\<close> maps the address of the key inside a map item to the resources that this connection
  has acquired of it.  Distinct items have distinct keys, and an item stays in its place while it is in the map,
  so the key stands for the address; \<open>Counter_System\<close> shows that the item of an
  entry is never removed.  The order in which an \<^verbatim>\<open>unordered_map\<close> is traversed is that of the list, which is arbitrary
  in the statements.
\<close>

record counter_env =
  cn_now :: time_t
  cn_interval :: nat

record counter_state =
  cs_stats :: counter_statistics
  cs_acquired :: "(string \<times> u32) list"
  cs_outs :: "counter_event list"

definition c_emit :: "counter_event list \<Rightarrow> counter_state \<Rightarrow> counter_state" where
  "c_emit evs s = s\<lparr>cs_outs := cs_outs s @ evs\<rparr>"

definition c_error :: "counter_request \<Rightarrow> counter_status \<Rightarrow> counter_state \<Rightarrow> exn + counter_state" where
  "c_error r st s = bind_res (counter_error r st) (\<lambda>evs. Inr (c_emit evs s))"

section \<open>The books of a connection\<close>

definition on_acquire :: "string \<Rightarrow> u32 \<Rightarrow> (string \<times> u32) list \<Rightarrow> (string \<times> u32) list" where
  "on_acquire k resources acq =
     (case map_of acq k of
        Some n \<Rightarrow> AList.update k (n + resources) acq
      | None \<Rightarrow> (k, resources) # acq)"

definition on_release :: "string \<Rightarrow> u32 \<Rightarrow> (string \<times> u32) list \<Rightarrow> bool \<times> (string \<times> u32) list" where
  "on_release k resources acq =
     (case map_of acq k of
        None \<Rightarrow> (False, acq)
      | Some n \<Rightarrow>
          if n < resources then (False, acq)
          else if n = resources then (True, AList.delete k acq)
          else (True, AList.update k (n - resources) acq))"

section \<open>Commands\<close>

type_synonym counter_exec = "counter_object hash_map \<Rightarrow> counter_state \<Rightarrow> exn + (counter_object hash_map \<times> counter_state)"

definition cmd_get_handler :: "counter_request \<Rightarrow> (counter_object, counter_state) handler" where
  "cmd_get_handler r k ob s = Inr (True, ob, c_emit (counter_get r (co_consumption ob)) s)"

definition counter_cmd_get :: "(string \<Rightarrow> u64) \<Rightarrow> counter_request \<Rightarrow> counter_exec" where
  "counter_cmd_get hf r m s =
     bind_res (hash_map_apply hf (cr_name r) (Some (cmd_get_handler r)) None m s) (\<lambda>(found, m', s').
       if found then Inr (m', s') else bind_res (c_error r CS_NotFound s') (\<lambda>s''. Inr (m', s'')))"

definition cmd_acquire_handler :: "counter_env \<Rightarrow> counter_request \<Rightarrow> (counter_object, counter_state) handler" where
  "cmd_acquire_handler e r k ob s =
     (case co_acquire (cn_interval e) (cn_now e) (cr_resources r) (cr_maximum r) ob of
        (ok, ob') \<Rightarrow>
          if \<not> ok then bind_res (c_error r CS_ResourceNotAvailable s) (\<lambda>s'. Inr (True, ob', s'))
          else Inr (True, ob', c_emit (counter_acquire r (cr_resources r)) (s\<lparr>cs_acquired := on_acquire k (cr_resources r) (cs_acquired s)\<rparr>)))"

definition cmd_acquire_creator :: "counter_env \<Rightarrow> counter_request \<Rightarrow> (counter_object, counter_state) creator" where
  "cmd_acquire_creator e r k s =
     (let s1 = c_emit (counter_acquire r (cr_resources r)) (s\<lparr>cs_acquired := on_acquire k (cr_resources r) (cs_acquired s)\<rparr>)
      in Inr (counter_object_ctor (cn_now e) (cr_resources r),
              s1\<lparr>cs_stats := (cs_stats s1)\<lparr>cst_total_objects := cst_total_objects (cs_stats s1) + 1\<rparr>\<rparr>))"

definition counter_cmd_acquire :: "(string \<Rightarrow> u64) \<Rightarrow> counter_env \<Rightarrow> counter_request \<Rightarrow> counter_exec" where
  "counter_cmd_acquire hf e r m s =
     bind_res (hash_map_apply hf (cr_name r) (Some (cmd_acquire_handler e r)) (Some (cmd_acquire_creator e r)) m s)
       (\<lambda>(found, m', s'). Inr (m', s'))"

definition cmd_release_handler :: "counter_env \<Rightarrow> counter_request \<Rightarrow> (counter_object, counter_state) handler" where
  "cmd_release_handler e r k ob s =
     (case on_release k (cr_resources r) (cs_acquired s) of
        (ok, acq) \<Rightarrow>
          if \<not> ok then bind_res (c_error r CS_NotAcquired s) (\<lambda>s'. Inr (True, ob, s'))
          else
            (case co_release (cn_interval e) (cn_now e) (cr_resources r) ob of
               (fin, ob') \<Rightarrow>
                 if \<not> fin then Inl (Logic_error ''<counter_socket::cmd_release> bug'')
                 else Inr (True, ob', c_emit (counter_success r) (s\<lparr>cs_acquired := acq\<rparr>))))"

definition counter_cmd_release :: "(string \<Rightarrow> u64) \<Rightarrow> counter_env \<Rightarrow> counter_request \<Rightarrow> counter_exec" where
  "counter_cmd_release hf e r m s =
     bind_res (hash_map_apply hf (cr_name r) (Some (cmd_release_handler e r)) None m s) (\<lambda>(found, m', s').
       if found then Inr (m', s') else bind_res (c_error r CS_NotFound s') (\<lambda>s''. Inr (m', s'')))"

definition cmd_dump_pred :: "counter_env \<Rightarrow> counter_request \<Rightarrow> string \<Rightarrow> counter_object \<Rightarrow> counter_state \<Rightarrow> exn + (counter_object \<times> counter_state)" where
  "cmd_dump_pred e r k ob s =
     Inr (ob, c_emit (counter_dump r k (word_of_nat (length k)) (co_consumption ob) (co_reported_max (cn_interval e) (cn_now e) ob)) s)"

definition counter_cmd_dump :: "counter_env \<Rightarrow> counter_request \<Rightarrow> counter_exec" where
  "counter_cmd_dump e r m s =
     bind_res (hash_map_foreach (cmd_dump_pred e r) m s) (\<lambda>(m', s'). Inr (m', c_emit (counter_success r) s'))"

definition count_op :: "u8 \<Rightarrow> counter_state \<Rightarrow> counter_state" where
  "count_op c s =
     s\<lparr>cs_stats := (cs_stats s)\<lparr>cst_ops := (cst_ops (cs_stats s))[unat c := cst_ops (cs_stats s) ! unat c + 1]\<rparr>\<rparr>"

definition counter_execute :: "(string \<Rightarrow> u64) \<Rightarrow> counter_env \<Rightarrow> counter_request \<Rightarrow> counter_exec" where
  "counter_execute hf e r m s =
     (if cr_status r \<noteq> CS_OK then bind_res (c_error r (cr_status r) s) (\<lambda>s'. Inr (m, s'))
      else
        (let s1 = count_op (cr_command r) s; c = cr_command r
         in if c = Cmd_Noop then Inr (m, c_emit (counter_success r) s1)
            else if c = Cmd_Get then counter_cmd_get hf r m s1
            else if c = Cmd_Acquire then counter_cmd_acquire hf e r m s1
            else if c = Cmd_Release then counter_cmd_release hf e r m s1
            else if c = Cmd_Stats then Inr (m, c_emit (counter_stats r (cs_stats s1)) s1)
            else if c = Cmd_Dump then counter_cmd_dump e r m s1
            else bind_res (c_error r CS_UnknownCommand s1) (\<lambda>s'. Inr (m, s'))))"

section \<open>The end of a connection\<close>

definition release_handler :: "counter_env \<Rightarrow> u32 \<Rightarrow> (counter_object, unit) handler" where
  "release_handler e count k ob u =
     (case co_release (cn_interval e) (cn_now e) count ob of
        (ok, ob') \<Rightarrow>
          if \<not> ok then Inl (Logic_error ''<counter_socket::release_all> release failed'') else Inr (True, ob', u))"

fun release_entries ::
  "(string \<Rightarrow> u64) \<Rightarrow> counter_env \<Rightarrow> (string \<times> u32) list \<Rightarrow> counter_object hash_map \<Rightarrow> exn + counter_object hash_map" where
  "release_entries hf e [] m = Inr m"
| "release_entries hf e ((k, count) # acq) m =
     bind_res (hash_map_apply hf k (Some (release_handler e count)) None m ()) (\<lambda>(found, m', _).
       if \<not> found then Inl (Logic_error (''<counter_socket::release_all> not found: '' @ k))
       else release_entries hf e acq m')"

definition release_all :: "(string \<Rightarrow> u64) \<Rightarrow> counter_env \<Rightarrow> counter_exec" where
  "release_all hf e m s = bind_res (release_entries hf e (cs_acquired s) m) (\<lambda>m'. Inr (m', s\<lparr>cs_acquired := []\<rparr>))"

section \<open>The receiving job\<close>

text \<open>The loop over the requests in the buffer; it returns the bytes it did not use.\<close>

function counter_requests ::
  "(string \<Rightarrow> u64) \<Rightarrow> counter_env \<Rightarrow> string \<Rightarrow> counter_object hash_map \<Rightarrow> counter_state
   \<Rightarrow> exn + (string \<times> counter_object hash_map \<times> counter_state)" where
  "counter_requests hf e p m s =
     (if p = [] then Inr (p, m, s)
      else
        bind_res (counter_request_ctor p) (\<lambda>r.
          if cr_length r = 0 then Inr (p, m, s)
          else
            (case counter_execute hf e r m s of
               Inl x \<Rightarrow> Inl x
             | Inr (m', s') \<Rightarrow> counter_requests hf e (drop (cr_length r) p) m' s')))"
  by pat_completeness auto
termination
  by (relation "measure (\<lambda>(hf, e, p, m, s). length p)") auto

declare counter_requests.simps [simp del]

fun counter_recvjob_loop ::
  "(string \<Rightarrow> u64) \<Rightarrow> counter_env \<Rightarrow> (bool \<times> recv_answer list) list \<Rightarrow> string \<Rightarrow> counter_object hash_map \<Rightarrow> counter_state
   \<Rightarrow> exn + (string \<times> counter_object hash_map \<times> counter_state)" where
  "counter_recvjob_loop hf e [] buf m s = Inr (buf, m, s)"
| "counter_recvjob_loop hf e ((valid, as) # calls) buf m s =
     bind_res (receive valid as) (\<lambda>res.
       case res of
         Recv_AGAIN \<Rightarrow> Inr (buf, m, s)
       | Recv_OK d \<Rightarrow>
           bind_res (counter_requests hf e (buf @ d) m s) (\<lambda>(rest, m', s').
             if length rest > MAX_REQUEST_LENGTH then
               bind_res (release_all hf e m' s') (\<lambda>(m'', s''). Inr ([], m'', c_emit [C_close] s''))
             else counter_recvjob_loop hf e calls rest m' s')
       | _ \<Rightarrow> bind_res (release_all hf e m s) (\<lambda>(m', s'). Inr ([], m', s')))"

text \<open>The job takes the pending bytes of the connection and leaves the new ones.\<close>

definition counter_recvjob ::
  "(string \<Rightarrow> u64) \<Rightarrow> counter_env \<Rightarrow> (bool \<times> recv_answer list) list \<Rightarrow> string \<Rightarrow> counter_object hash_map \<Rightarrow> counter_state
   \<Rightarrow> exn + (string \<times> counter_object hash_map \<times> counter_state)" where
  "counter_recvjob hf e calls pending m s = counter_recvjob_loop hf e calls pending m s"

definition counter_socket_ctor :: "counter_statistics \<Rightarrow> counter_state" where
  "counter_socket_ctor st =
     \<lparr>cs_stats = st\<lparr>cst_curr_connections := cst_curr_connections st + 1, cst_total_connections := cst_total_connections st + 1\<rparr>,
      cs_acquired = [], cs_outs = []\<rparr>"

definition counter_socket_dtor :: "(string \<Rightarrow> u64) \<Rightarrow> counter_env \<Rightarrow> counter_exec" where
  "counter_socket_dtor hf e m s = release_all hf e m s"

definition counter_on_invalidate :: "counter_statistics \<Rightarrow> counter_statistics" where
  "counter_on_invalidate st = st\<lparr>cst_curr_connections := cst_curr_connections st - 1\<rparr>"

end
