(* ===== verification/Counter_Balance.thy ===== *)
theory Counter_Balance
  imports Counter_Socket
begin

text \<open>
  What the code of one connection keeps: for every counter, the consumption is what this connection has in its books
  plus what all the others have.  The resources of the others are a function \<open>others\<close>, so the facts hold for
  every interleaving with other connections.
\<close>

section \<open>The invariant\<close>

definition booked :: "(string \<times> u32) list \<Rightarrow> string \<Rightarrow> nat" where
  "booked acq k = (case map_of acq k of None \<Rightarrow> 0 | Some n \<Rightarrow> unat n)"

definition consumed :: "(string \<Rightarrow> u64) \<Rightarrow> counter_object hash_map \<Rightarrow> string \<Rightarrow> nat" where
  "consumed hf m k = (case hm_lookup hf m k of None \<Rightarrow> 0 | Some ob \<Rightarrow> unat (co_consumption ob))"

definition books_ok :: "(string \<times> u32) list \<Rightarrow> bool" where
  "books_ok acq \<longleftrightarrow> distinct (map fst acq) \<and> (\<forall>k n. map_of acq k = Some n \<longrightarrow> n \<noteq> 0)"

definition balanced :: "(string \<Rightarrow> u64) \<Rightarrow> (string \<Rightarrow> nat) \<Rightarrow> counter_object hash_map \<Rightarrow> (string \<times> u32) list \<Rightarrow> bool" where
  "balanced hf others m acq \<longleftrightarrow>
     hm_invar hf m \<and> books_ok acq \<and> (\<forall>k. consumed hf m k = others k + booked acq k) \<and> (\<forall>k. consumed hf m k < 2 ^ 31)"

lemma balancedD:
  assumes "balanced hf others m acq"
  shows "hm_invar hf m" "books_ok acq" "consumed hf m k = others k + booked acq k" "consumed hf m k < 2 ^ 31"
  using assms unfolding balanced_def by blast+

text \<open>The requests that are safe: limits below $2^{31}$, and resources as the parser accepts them.\<close>

definition modest :: "counter_request \<Rightarrow> bool" where
  "modest r \<longleftrightarrow> (cr_status r = CS_OK \<and> cr_command r = Cmd_Acquire \<longrightarrow> cr_maximum r < 2 ^ 31)"

definition asks_well :: "counter_request \<Rightarrow> bool" where
  "asks_well r \<longleftrightarrow> (cr_status r = CS_OK \<and> cr_command r = Cmd_Acquire \<longrightarrow> 0 < cr_resources r \<and> cr_resources r \<le> cr_maximum r)"

lemma counter_parse_name_keeps [simp]:
  "cr_command (counter_parse_name off body r) = cr_command r" "cr_resources (counter_parse_name off body r) = cr_resources r"
  "cr_maximum (counter_parse_name off body r) = cr_maximum r" "cr_length (counter_parse_name off body r) = cr_length r"
  "cr_opaque (counter_parse_name off body r) = cr_opaque r"
  by (simp_all add: counter_parse_name_def Let_def)

lemma counter_parse_asks_well: "asks_well (counter_parse p)"
proof -
  have "asks_well (counter_parse_body b r)" if "cr_status r = CS_Invalid" for b r
    using that unfolding counter_parse_body_def Let_def asks_well_def counter_commands
    by (auto simp: not_less word_gt_0)
  then show ?thesis by (simp add: counter_parse_def counter_request_init_def Let_def asks_well_def counter_commands)
qed

section \<open>Books\<close>

lemma booked_simps [simp]:
  "booked [] = (\<lambda>_. 0)"
  "booked ((k, n) # acq) = (booked acq)(k := unat n)"
  "booked (AList.update k n acq) = (booked acq)(k := unat n)"
  "booked (AList.delete k acq) = (booked acq)(k := 0)"
  by (simp_all add: booked_def fun_eq_iff update_conv' delete_conv')

lemma books_ok_Nil [simp]: "books_ok []"
  by (simp add: books_ok_def)

lemma books_ok_Cons: "books_ok ((k, n) # acq) \<longleftrightarrow> n \<noteq> 0 \<and> map_of acq k = None \<and> books_ok acq"
  by (auto simp: books_ok_def map_of_eq_None_iff split: if_splits) (metis map_of_eq_None_iff option.distinct(1) image_eqI fst_conv)+

lemma books_ok_update: "books_ok acq \<Longrightarrow> n \<noteq> 0 \<Longrightarrow> books_ok (AList.update k n acq)"
  by (auto simp: books_ok_def update_conv' distinct_update split: if_splits)

lemma books_ok_delete: "books_ok acq \<Longrightarrow> books_ok (AList.delete k acq)"
  by (auto simp: books_ok_def delete_conv' distinct_delete split: if_splits)

lemma on_acquire_books:
  assumes "books_ok acq" "0 < n" "booked acq k + unat n < 2 ^ 32"
  shows "books_ok (on_acquire k n acq)" "booked (on_acquire k n acq) = (booked acq)(k := booked acq k + unat n)"
proof -
  have u: "unat (v + n) = unat v + unat n" if "map_of acq k = Some v" for v
    using that assms(3) by (intro unat_plus_no_wrap) (simp add: booked_def)
  have "v + n \<noteq> 0" if "map_of acq k = Some v" for v using u [OF that] assms(2) by (auto simp: word_gt_0 unat_eq_zero)
  then show "books_ok (on_acquire k n acq)"
    using assms(1,2) by (auto simp: on_acquire_def books_ok_Cons books_ok_update split: option.splits)
  show "booked (on_acquire k n acq) = (booked acq)(k := booked acq k + unat n)"
    using u by (auto simp: on_acquire_def booked_def [of acq k] split: option.splits)
qed

lemma on_release_books:
  assumes "books_ok acq" "on_release k n acq = (True, acq')"
  shows "unat n \<le> booked acq k" "books_ok acq'" "booked acq' = (booked acq)(k := booked acq k - unat n)"
proof -
  obtain v where v: "map_of acq k = Some v" "\<not> v < n" "acq' = (if v = n then AList.delete k acq else AList.update k (v - n) acq)"
    using assms(2) by (auto simp: on_release_def split: option.splits if_splits)
  have u: "unat (v - n) = unat v - unat n" using v(2) by (simp add: unat_minus_le not_less)
  show "unat n \<le> booked acq k" using v by (simp add: booked_def word_le_nat_alt not_less)
  show "books_ok acq'" using assms(1) v by (auto simp: books_ok_delete intro: books_ok_update)
  show "booked acq' = (booked acq)(k := booked acq k - unat n)" using v u by (auto simp: booked_def [of acq k])
qed

section \<open>Commands\<close>

lemma balanced_update:
  assumes "balanced hf others m acq" "hm_invar hf m'" "hm_lookup hf m' = (hm_lookup hf m)(k \<mapsto> ob)" "books_ok acq'"
    "booked acq' = (booked acq)(k := x)" "unat (co_consumption ob) = others k + x" "co_consumption ob < 2 ^ 31"
  shows "balanced hf others m' acq'"
proof -
  have "consumed hf m' = (consumed hf m)(k := unat (co_consumption ob))" by (auto simp: consumed_def assms(3))
  moreover have "unat (co_consumption ob) < 2 ^ 31" using assms(7) by (simp add: word_less_nat_alt)
  ultimately show ?thesis
    using balancedD [OF assms(1)] assms(2,4-6) unfolding balanced_def by simp
qed

text \<open>A handler that keeps the balance of the counter it is called for.\<close>

definition keeps_balance :: "(string \<Rightarrow> nat) \<Rightarrow> string \<Rightarrow> counter_object \<Rightarrow> counter_state \<Rightarrow> exn + (bool \<times> counter_object \<times> counter_state) \<Rightarrow> bool" where
  "keeps_balance others k ob s res \<longleftrightarrow>
     (\<exists>ob' s' x. res = Inr (True, ob', s') \<and> books_ok (cs_acquired s') \<and> booked (cs_acquired s') = (booked (cs_acquired s))(k := x) \<and>
        unat (co_consumption ob') = others k + x \<and> co_consumption ob' < 2 ^ 31)"

lemma keeps_balanceI:
  "res = Inr (True, ob', s') \<Longrightarrow> books_ok (cs_acquired s') \<Longrightarrow> booked (cs_acquired s') = (booked (cs_acquired s))(k := x) \<Longrightarrow>
   unat (co_consumption ob') = others k + x \<Longrightarrow> co_consumption ob' < 2 ^ 31 \<Longrightarrow> keeps_balance others k ob s res"
  by (auto simp: keeps_balance_def)

lemma apply_balanced:
  assumes "balanced hf others m (cs_acquired s)"
    "\<And>ob. hm_lookup hf m k = Some ob \<Longrightarrow> keeps_balance others k ob s (h k ob s)"
    "\<And>f. c = Some f \<Longrightarrow> hm_lookup hf m k = None \<Longrightarrow> \<exists>ob s'. f k s = Inr (ob, s') \<and> keeps_balance others k ob s (Inr (True, ob, s'))"
  shows "\<exists>r m' s'. hash_map_apply hf k (Some h) c m s = Inr (r, m', s') \<and> balanced hf others m' (cs_acquired s') \<and>
    (\<not> r \<longrightarrow> s' = s)"
proof -
  note inv = balancedD(1) [OF assms(1)]
  show ?thesis
  proof (cases "hm_lookup hf m k")
    case (Some ob)
    then obtain ob' s' x where h: "h k ob s = Inr (True, ob', s')" "books_ok (cs_acquired s')"
      "booked (cs_acquired s') = (booked (cs_acquired s))(k := x)" "unat (co_consumption ob') = others k + x" "co_consumption ob' < 2 ^ 31"
      using assms(2) [OF Some] unfolding keeps_balance_def by blast
    then have "map_apply k (Some h) c (hm_lookup hf m) s = Inr (True, (hm_lookup hf m)(k \<mapsto> ob'), s')"
      by (simp add: map_apply_def Some)
    from hm.apply_InrI [OF inv this] h(2-) show ?thesis using balanced_update [OF assms(1)] by blast
  next
    case None
    show ?thesis
    proof (cases c)
      case (Some f)
      then obtain ob s' x where f: "f k s = Inr (ob, s')" "books_ok (cs_acquired s')"
        "booked (cs_acquired s') = (booked (cs_acquired s))(k := x)" "unat (co_consumption ob) = others k + x" "co_consumption ob < 2 ^ 31"
        using assms(3) [OF Some None] unfolding keeps_balance_def by auto
      then have "map_apply k (Some h) c (hm_lookup hf m) s = Inr (True, (hm_lookup hf m)(k \<mapsto> ob), s')"
        by (simp add: map_apply_def Some None)
      from hm.apply_InrI [OF inv this] f(2-) show ?thesis using balanced_update [OF assms(1)] by blast
    next
      case c: None
      have "map_apply k (Some h) c (hm_lookup hf m) s = Inr (False, hm_lookup hf m, s)" by (simp add: map_apply_def None c)
      from hm.apply_InrI [OF inv this] obtain m' where m': "hash_map_apply hf k (Some h) c m s = Inr (False, m', s)"
        "hm_lookup hf m' = hm_lookup hf m" "hm_invar hf m'" by blast
      then have "consumed hf m' = consumed hf m" by (simp add: consumed_def fun_eq_iff)
      with m' assms(1) show ?thesis by (auto simp: balanced_def)
    qed
  qed
qed

text \<open>An error answer never throws unless the status is fine.\<close>

lemma c_error_ok: "st \<noteq> CS_OK \<Longrightarrow> \<exists>s'. c_error r st s = Inr s' \<and> cs_acquired s' = cs_acquired s"
  by (cases st) (simp_all add: c_error_def counter_error_def c_emit_def)

lemma c_emit_acquired [simp]: "cs_acquired (c_emit evs s) = cs_acquired s"
  by (simp add: c_emit_def)

lemma keeps_balance_same:
  assumes "balanced hf others m (cs_acquired s)" "hm_lookup hf m k = Some ob" "cs_acquired s' = cs_acquired s"
  shows "keeps_balance others k ob s (Inr (True, ob, s'))"
proof (rule keeps_balanceI [OF refl, where x = "booked (cs_acquired s) k"])
  show "unat (co_consumption ob) = others k + booked (cs_acquired s) k" "co_consumption ob < 2 ^ 31"
    using balancedD(3,4) [OF assms(1), of k] assms(2) by (simp_all add: consumed_def word_less_nat_alt)
qed (use balancedD(2) [OF assms(1)] assms(3) in simp_all)

lemma cmd_get_balance:
  "balanced hf others m (cs_acquired s) \<Longrightarrow> hm_lookup hf m k = Some ob \<Longrightarrow> keeps_balance others k ob s (cmd_get_handler r k ob s)"
  by (simp add: cmd_get_handler_def keeps_balance_same)

lemma cmd_acquire_balance:
  assumes "balanced hf others m (cs_acquired s)" "hm_lookup hf m k = Some ob" "0 < cr_resources r" "cr_resources r \<le> cr_maximum r" "cr_maximum r < 2 ^ 31"
  shows "keeps_balance others k ob s (cmd_acquire_handler e r k ob s)"
proof (cases "co_consumption ob + cr_resources r > cr_maximum r")
  case True
  obtain s' where "c_error r CS_ResourceNotAvailable s = Inr s'" "cs_acquired s' = cs_acquired s"
    using c_error_ok [of CS_ResourceNotAvailable r s] by auto
  with True show ?thesis
    using keeps_balance_same [OF assms(1,2)] by (simp add: cmd_acquire_handler_def co_acquire_def)
next
  case False
  let ?n = "cr_resources r" and ?b = "booked (cs_acquired s) k"
  have n: "?n < 2 ^ 31" using assms(4,5) by (rule order.strict_trans1)
  have c: "unat (co_consumption ob) = others k + ?b" "co_consumption ob < 2 ^ 31"
    using balancedD(3,4) [OF assms(1), of k] assms(2) by (simp_all add: consumed_def word_less_nat_alt)
  have "?b + unat ?n < 2 ^ 32" using c n by (simp add: word_less_nat_alt)
  note bk = on_acquire_books [OF balancedD(2) [OF assms(1)] assms(3) this]
  obtain ob' s' where h: "cmd_acquire_handler e r k ob s = Inr (True, ob', s')" "co_consumption ob' = co_consumption ob + ?n"
    "cs_acquired s' = on_acquire k ?n (cs_acquired s)"
    using False by (simp add: cmd_acquire_handler_def co_acquire_def)
  show ?thesis
  proof (rule keeps_balanceI [OF h(1), where x = "?b + unat ?n"])
    show "unat (co_consumption ob') = others k + (?b + unat ?n)" using modest_plus [OF c(2) n] c(1) h(2) by simp
    show "co_consumption ob' < 2 ^ 31" using False assms(5) h(2) by (simp add: not_less)
  qed (simp_all add: h(3) bk)
qed

lemma cmd_acquire_new_balance:
  assumes "balanced hf others m (cs_acquired s)" "hm_lookup hf m k = None" "0 < cr_resources r" "cr_resources r \<le> cr_maximum r" "cr_maximum r < 2 ^ 31"
  shows "\<exists>ob s'. cmd_acquire_creator e r k s = Inr (ob, s') \<and> keeps_balance others k ob s (Inr (True, ob, s'))"
proof -
  let ?n = "cr_resources r"
  have z: "others k = 0" "booked (cs_acquired s) k = 0" using balancedD(3) [OF assms(1), of k] assms(2) by (simp_all add: consumed_def)
  have n: "?n < 2 ^ 31" using assms(4,5) by (rule order.strict_trans1)
  have "booked (cs_acquired s) k + unat ?n < 2 ^ 32" using z n by (simp add: word_less_nat_alt)
  note bk = on_acquire_books [OF balancedD(2) [OF assms(1)] assms(3) this]
  obtain ob s' where "cmd_acquire_creator e r k s = Inr (ob, s')" "co_consumption ob = ?n" "cs_acquired s' = on_acquire k ?n (cs_acquired s)"
    by (simp add: cmd_acquire_creator_def counter_object_ctor_def Let_def)
  then show ?thesis using bk z n by (auto intro!: keeps_balanceI [OF refl, where x = "unat ?n"])
qed

lemma cmd_release_balance:
  assumes "balanced hf others m (cs_acquired s)" "hm_lookup hf m k = Some ob"
  shows "keeps_balance others k ob s (cmd_release_handler e r k ob s)"
proof (cases "on_release k (cr_resources r) (cs_acquired s)")
  case (Pair ok acq)
  show ?thesis
  proof (cases ok)
    case False
    obtain s' where "c_error r CS_NotAcquired s = Inr s'" "cs_acquired s' = cs_acquired s"
      using c_error_ok [of CS_NotAcquired r s] by auto
    with Pair False show ?thesis using keeps_balance_same [OF assms] by (simp add: cmd_release_handler_def)
  next
    case True
    let ?n = "cr_resources r" and ?b = "booked (cs_acquired s) k"
    note bk = on_release_books [OF balancedD(2) [OF assms(1)] Pair [unfolded True eqTrueI [OF True]]]
    have c: "unat (co_consumption ob) = others k + ?b" "co_consumption ob < 2 ^ 31"
      using balancedD(3,4) [OF assms(1), of k] assms(2) by (simp_all add: consumed_def word_less_nat_alt)
    then have le: "?n \<le> co_consumption ob" using bk(1) by (simp add: word_le_nat_alt)
    then obtain ob' s' where h: "cmd_release_handler e r k ob s = Inr (True, ob', s')" "co_consumption ob' = co_consumption ob - ?n"
      "cs_acquired s' = acq"
      using Pair True by (simp add: cmd_release_handler_def co_release_def not_less)
    have u: "unat (co_consumption ob - ?n) = unat (co_consumption ob) - unat ?n" using le by (rule unat_minus_le)
    show ?thesis
    proof (rule keeps_balanceI [OF h(1), where x = "?b - unat ?n"])
      show "unat (co_consumption ob') = others k + (?b - unat ?n)" using u c(1) bk(1) h(2) by simp
      show "co_consumption ob' < 2 ^ 31" using u c(2) h(2) by (simp add: word_less_nat_alt)
    qed (simp_all add: h(3) bk)
  qed
qed

section \<open>Requests\<close>

text \<open>A run of some code of a connection that returns and keeps the balance.\<close>

definition balances :: "(string \<Rightarrow> u64) \<Rightarrow> (string \<Rightarrow> nat) \<Rightarrow> exn + (counter_object hash_map \<times> counter_state) \<Rightarrow> bool" where
  "balances hf others res \<longleftrightarrow> (\<exists>m' s'. res = Inr (m', s') \<and> balanced hf others m' (cs_acquired s'))"

lemma balances_Inr [simp]: "balances hf others (Inr (m, s)) \<longleftrightarrow> balanced hf others m (cs_acquired s)"
  by (simp add: balances_def)

lemma balances_error:
  "balanced hf others m (cs_acquired s) \<Longrightarrow> st \<noteq> CS_OK \<Longrightarrow> balances hf others (bind_res (c_error r st s) (\<lambda>s'. Inr (m, s')))"
  using c_error_ok [of st r s] by auto

lemma count_op_acquired [simp]: "cs_acquired (count_op c s) = cs_acquired s"
  by (simp add: count_op_def)

lemma found_or_error:
  assumes "\<exists>r m' s'. res = Inr (r, m', s') \<and> balanced hf others m' (cs_acquired s') \<and> (\<not> r \<longrightarrow> s' = s)"
  shows "balances hf others (bind_res res (\<lambda>(found, m', s').
    if found then Inr (m', s') else bind_res (c_error q CS_NotFound s') (\<lambda>s''. Inr (m', s''))))"
  using assms balances_error [of hf others _ _ CS_NotFound q] by auto

lemma cmd_dump_foreach: "\<exists>s'. hash_map_foreach (cmd_dump_pred e r) m s = Inr (m, s') \<and> cs_acquired s' = cs_acquired s"
proof -
  define f where "f k ob = c_emit (counter_dump r k (word_of_nat (length k)) (co_consumption ob) (co_reported_max (cn_interval e) (cn_now e) ob))"
    for k ob
  have "cs_acquired (fold (\<lambda>(k, v). f k v) xs t) = cs_acquired t" for xs t
    by (induction xs arbitrary: t) (auto simp: f_def)
  moreover have "hash_map_foreach (cmd_dump_pred e r) m s = Inr (m, fold (\<lambda>(k, v). f k v) (hm_items m) s)"
    by (rule hash_map_foreach_pure) (simp add: cmd_dump_pred_def f_def)
  ultimately show ?thesis by simp
qed

lemma cmd_dump_balances: "balanced hf others m (cs_acquired s) \<Longrightarrow> balances hf others (counter_cmd_dump e r m s)"
  using cmd_dump_foreach [of e r m s] by (auto simp: counter_cmd_dump_def)

lemma counter_execute_balances:
  assumes "balanced hf others m (cs_acquired s)" "modest r" "asks_well r"
  shows "balances hf others (counter_execute hf e r m s)"
proof -
  have a: "balanced hf others m (cs_acquired (count_op c s))" for c using assms(1) by simp
  have "balances hf others (counter_cmd_get hf r m (count_op c s))" for c
    unfolding counter_cmd_get_def by (rule found_or_error [OF apply_balanced [OF a]]) (simp_all add: cmd_get_balance [OF a])
  moreover have "balances hf others (counter_cmd_release hf e r m (count_op c s))" for c
    unfolding counter_cmd_release_def by (rule found_or_error [OF apply_balanced [OF a]]) (simp_all add: cmd_release_balance [OF a])
  moreover have "balances hf others (counter_cmd_acquire hf e r m (count_op c s))" if "cr_status r = CS_OK" "cr_command r = Cmd_Acquire" for c
  proof -
    have n: "0 < cr_resources r" "cr_resources r \<le> cr_maximum r" "cr_maximum r < 2 ^ 31"
      using that assms(2,3) by (simp_all add: modest_def asks_well_def)
    have "\<exists>q m' s'. hash_map_apply hf (cr_name r) (Some (cmd_acquire_handler e r)) (Some (cmd_acquire_creator e r)) m (count_op c s) = Inr (q, m', s') \<and>
        balanced hf others m' (cs_acquired s') \<and> (\<not> q \<longrightarrow> s' = count_op c s)"
      by (rule apply_balanced [OF a])
        (use cmd_acquire_balance [OF a _ n] cmd_acquire_new_balance [OF a _ n] in auto)
    then show ?thesis by (auto simp: counter_cmd_acquire_def)
  qed
  ultimately show ?thesis
    using assms(1) cmd_dump_balances [OF a] balances_error [OF a, of CS_UnknownCommand] balances_error [OF assms(1)]
    unfolding counter_execute_def Let_def by simp
qed

section \<open>The end of a connection\<close>

lemma release_entries_balances:
  assumes "balanced hf others m acq"
  shows "\<exists>m'. release_entries hf e acq m = Inr m' \<and> balanced hf others m' []"
  using assms
proof (induction acq arbitrary: m)
  case (Cons x acq)
  obtain k n where x: "x = (k, n)" by (cases x)
  note b = Cons.prems [unfolded x]
  have bk: "n \<noteq> 0" "booked acq k = 0" "books_ok acq" using balancedD(2) [OF b] by (simp_all add: books_ok_Cons booked_def)
  have "consumed hf m k = others k + unat n" using balancedD(3) [OF b, of k] by simp
  moreover have "0 < unat n" using bk(1) by (simp add: unat_gt_0)
  ultimately obtain ob where ob: "hm_lookup hf m k = Some ob" "unat (co_consumption ob) = others k + unat n"
    by (auto simp: consumed_def split: option.splits)
  then have le: "n \<le> co_consumption ob" by (simp add: word_le_nat_alt)
  then obtain ob' where r: "co_release (cn_interval e) (cn_now e) n ob = (True, ob')" "co_consumption ob' = co_consumption ob - n"
    by (simp add: co_release_def not_less)
  have "map_apply k (Some (release_handler e n)) None (hm_lookup hf m) () = Inr (True, (hm_lookup hf m)(k \<mapsto> ob'), ())"
    using r ob by (simp add: map_apply_def release_handler_def)
  from hm.apply_InrI [OF balancedD(1) [OF b] this] obtain m' where
    m': "hash_map_apply hf k (Some (release_handler e n)) None m () = Inr (True, m', ())" "hm_lookup hf m' = (hm_lookup hf m)(k \<mapsto> ob')" "hm_invar hf m'"
    by blast
  have u: "unat (co_consumption ob') = others k" "co_consumption ob' < 2 ^ 31"
    using unat_minus_le [OF le] ob r(2) balancedD(4) [OF b, of k] by (simp_all add: consumed_def word_less_nat_alt)
  have "balanced hf others m' acq"
    by (rule balanced_update [OF b m'(3,2) bk(3), where x = 0]) (use bk u in \<open>auto simp: fun_eq_iff\<close>)
  with Cons.IH show ?case using m'(1) by (simp add: x)
qed auto

lemma release_all_balances:
  assumes "balanced hf others m (cs_acquired s)"
  shows "\<exists>m'. release_all hf e m s = Inr (m', s\<lparr>cs_acquired := []\<rparr>) \<and> balanced hf others m' []"
  using release_entries_balances [OF assms, of e] by (auto simp: release_all_def)

section \<open>The receiving job\<close>

text \<open>The requests that a buffer holds, and those of a whole job: each call that brings data adds to what is left.\<close>

function requests_in :: "string \<Rightarrow> counter_request list \<times> string" where
  "requests_in p =
     (let r = counter_parse p
      in if p = [] \<or> cr_length r = 0 then ([], p)
         else (case requests_in (drop (cr_length r) p) of (rs, rest) \<Rightarrow> (r # rs, rest)))"
  by pat_completeness auto
termination
  by (relation "measure length") (auto simp: Let_def)

declare requests_in.simps [simp del]

fun requests_of :: "(bool \<times> recv_answer list) list \<Rightarrow> string \<Rightarrow> counter_request list" where
  "requests_of [] buf = []"
| "requests_of ((valid, as) # calls) buf =
     (case receive valid as of
        Inr (Recv_OK d) \<Rightarrow> (case requests_in (buf @ d) of (rs, rest) \<Rightarrow> rs @ requests_of calls rest)
      | _ \<Rightarrow> [])"

definition recv_fails :: "(bool \<times> recv_answer list) list \<Rightarrow> bool" where
  "recv_fails calls \<longleftrightarrow> (\<exists>(valid, as) \<in> set calls. \<exists>x. receive valid as = Inl x)"

definition job_balances :: "(string \<Rightarrow> u64) \<Rightarrow> (string \<Rightarrow> nat) \<Rightarrow> exn + (string \<times> counter_object hash_map \<times> counter_state) \<Rightarrow> bool" where
  "job_balances hf others res \<longleftrightarrow>
     (\<exists>p m' s'. res = Inr (p, m', s') \<and> length p \<le> MAX_REQUEST_LENGTH \<and> balanced hf others m' (cs_acquired s'))"

lemma counter_requests_balances:
  assumes "balanced hf others m (cs_acquired s)" "list_all modest (fst (requests_in p))"
  shows "\<exists>m' s'. counter_requests hf e p m s = Inr (snd (requests_in p), m', s') \<and> balanced hf others m' (cs_acquired s')"
  using assms
proof (induction p arbitrary: m s rule: requests_in.induct)
  case (1 p)
  let ?r = "counter_parse p"
  show ?case
  proof (cases "p = [] \<or> cr_length ?r = 0")
    case True
    then show ?thesis
      using "1.prems"(1) by (auto simp: requests_in.simps [of p] counter_requests.simps [of hf e p] counter_request_ctor_def)
  next
    case False
    let ?q = "drop (cr_length ?r) p"
    have q: "requests_in p = (?r # fst (requests_in ?q), snd (requests_in ?q))"
      using False by (subst requests_in.simps) (simp add: Let_def split_beta)
    then have "modest ?r" "list_all modest (fst (requests_in ?q))" using "1.prems"(2) by simp_all
    moreover obtain m1 s1 where x: "counter_execute hf e ?r m s = Inr (m1, s1)" "balanced hf others m1 (cs_acquired s1)"
      using counter_execute_balances [OF "1.prems"(1) \<open>modest ?r\<close> counter_parse_asks_well, of e] by (auto simp: balances_def)
    ultimately obtain m' s' where "counter_requests hf e ?q m1 s1 = Inr (snd (requests_in ?q), m', s')" "balanced hf others m' (cs_acquired s')"
      using "1.IH" [OF refl False] by blast
    then show ?thesis using False x(1) q by (subst counter_requests.simps) (simp add: counter_request_ctor_def)
  qed
qed

lemma counter_recvjob_balances:
  assumes "balanced hf others m (cs_acquired s)" "list_all modest (requests_of calls buf)" "\<not> recv_fails calls" "length buf \<le> MAX_REQUEST_LENGTH"
  shows "job_balances hf others (counter_recvjob_loop hf e calls buf m s)"
  using assms
proof (induction calls arbitrary: buf m s)
  case Nil
  then show ?case by (simp add: job_balances_def)
next
  case (Cons c calls)
  obtain valid as where c: "c = (valid, as)" by (cases c)
  from Cons.prems(3) c obtain res where res: "receive valid as = Inr res" and nf: "\<not> recv_fails calls"
    by (cases "receive valid as") (auto simp: recv_fails_def)
  note rel = release_all_balances [of hf others _ _ e]
  show ?case
  proof (cases res)
    case (Recv_OK d)
    let ?rs = "requests_in (buf @ d)"
    have md: "list_all modest (fst ?rs)" "list_all modest (requests_of calls (snd ?rs))"
      using Cons.prems(2) by (simp_all add: c res Recv_OK split_beta)
    obtain m1 s1 where x: "counter_requests hf e (buf @ d) m s = Inr (snd ?rs, m1, s1)" "balanced hf others m1 (cs_acquired s1)"
      using counter_requests_balances [OF Cons.prems(1) md(1)] by blast
    show ?thesis
    proof (cases "length (snd ?rs) > MAX_REQUEST_LENGTH")
      case True
      then show ?thesis using rel [OF x(2)] x(1) by (auto simp: c res Recv_OK job_balances_def)
    next
      case False
      then show ?thesis using Cons.IH [OF x(2) md(2) nf] x(1) by (simp add: c res Recv_OK)
    qed
  qed (use Cons.prems(1,4) rel [OF Cons.prems(1)] in \<open>auto simp: c res job_balances_def\<close>)
qed

end
