(* ===== verification/Counter_Gc.thy ===== *)
theory Counter_Gc
  imports Counter_Balance
begin

text \<open>
  Models \<^verbatim>\<open>src/counter/gc.cpp\<close>, the collection of counters out of use, and the parts of \<^verbatim>\<open>src/counter/handler.cpp\<close>
  that decide when it runs and whether a connection is accepted.  The sizes of a key and of an object in memory are
  parameters.
\<close>

section \<open>The collection\<close>

record counter_gc_thread =
  cg_objects :: u32
  cg_conflicts :: u32
  cg_used_memory :: u64
  cg_objects_in_bucket :: nat

definition counter_gc_thread_ctor :: counter_gc_thread where
  "counter_gc_thread_ctor = \<lparr>cg_objects = 0, cg_conflicts = 0, cg_used_memory = 0, cg_objects_in_bucket = 0\<rparr>"

definition counter_gc_pred :: "nat \<Rightarrow> nat \<Rightarrow> counter_env \<Rightarrow> (counter_object, counter_gc_thread) handler" where
  "counter_gc_pred sizeof_key sizeof_object e k ob g =
     (if co_deletable (cn_interval e) (cn_now e) ob then Inr (True, ob, g)
      else
        (let g1 = g\<lparr>cg_objects := cg_objects g + 1, cg_objects_in_bucket := cg_objects_in_bucket g + 1\<rparr>;
             g2 = (if cg_objects_in_bucket g1 = 2 then g1\<lparr>cg_conflicts := cg_conflicts g1 + 1\<rparr> else g1)
         in Inr (False, ob, g2\<lparr>cg_used_memory := cg_used_memory g2 + word_of_nat (sizeof_key + length k + sizeof_object)\<rparr>)))"

fun counter_gc_buckets ::
  "(counter_object, counter_gc_thread) handler \<Rightarrow> counter_object bucket list \<Rightarrow> counter_gc_thread
   \<Rightarrow> exn + (counter_object bucket list \<times> counter_gc_thread)" where
  "counter_gc_buckets pred [] g = Inr ([], g)"
| "counter_gc_buckets pred (b # bs) g =
     bind_res (bucket_gc pred b (g\<lparr>cg_objects_in_bucket := 0\<rparr>)) (\<lambda>(b', g').
     bind_res (counter_gc_buckets pred bs g') (\<lambda>(bs', g''). Inr (b' # bs', g'')))"

definition counter_gc ::
  "nat \<Rightarrow> nat \<Rightarrow> counter_env \<Rightarrow> counter_object hash_map \<Rightarrow> counter_gc_thread \<Rightarrow> exn + (counter_object hash_map \<times> counter_gc_thread)" where
  "counter_gc sizeof_key sizeof_object e m g =
     bind_res (counter_gc_buckets (counter_gc_pred sizeof_key sizeof_object e) (m_buckets m) g) (\<lambda>(bs, g').
       Inr (m\<lparr>m_buckets := bs\<rparr>, g'))"

definition counter_gc_run ::
  "nat \<Rightarrow> nat \<Rightarrow> u64 \<Rightarrow> counter_env \<Rightarrow> counter_object hash_map \<Rightarrow> counter_statistics \<Rightarrow> exn + (counter_object hash_map \<times> counter_statistics)" where
  "counter_gc_run sizeof_key sizeof_object us e m st =
     bind_res (counter_gc sizeof_key sizeof_object e m counter_gc_thread_ctor) (\<lambda>(m', g).
       Inr (m', st\<lparr>cst_objects := cg_objects g, cst_used_memory := cg_used_memory g, cst_conflicts := cg_conflicts g,
                   cst_gc_count := cst_gc_count st + 1, cst_last_gc_elapsed := us, cst_total_gc_elapsed := cst_total_gc_elapsed st + us\<rparr>))"

section \<open>The handler\<close>

text \<open>The collecting thread, if there is one, with the value of its \<^verbatim>\<open>done()\<close>.\<close>

record counter_handler =
  ch_hash :: "counter_object hash_map"
  ch_last_gc :: time_t
  ch_gc_thread :: "bool option"

definition counter_handler_ctor :: "counter_config \<Rightarrow> counter_handler" where
  "counter_handler_ctor c = \<lparr>ch_hash = hash_map_ctor (word_of_nat (cc_buckets c)), ch_last_gc = 0, ch_gc_thread = None\<rparr>"

definition counter_gc_ready :: "counter_config \<Rightarrow> time_t \<Rightarrow> counter_handler \<Rightarrow> bool \<times> counter_handler" where
  "counter_gc_ready c now h =
     (if ch_gc_thread h = Some False then (False, h)
      else
        (let h' = (if ch_gc_thread h \<noteq> None then h\<lparr>ch_last_gc := now, ch_gc_thread := None\<rparr> else h);
             boundary = (now sdiv int (cc_stat_interval c)) * int (cc_stat_interval c)
         in (ch_last_gc h' < boundary, h')))"

definition counter_on_master_interval :: "counter_config \<Rightarrow> time_t \<Rightarrow> counter_handler \<Rightarrow> counter_handler" where
  "counter_on_master_interval c now h =
     (case counter_gc_ready c now h of (ready, h') \<Rightarrow> if ready then h'\<lparr>ch_gc_thread := Some False\<rparr> else h')"

definition counter_on_master_end :: "counter_handler \<Rightarrow> counter_handler" where
  "counter_on_master_end h = h\<lparr>ch_gc_thread := None\<rparr>"

definition make_counter_socket :: "counter_config \<Rightarrow> counter_statistics \<Rightarrow> counter_state option" where
  "make_counter_socket c st =
     (let mc = cc_max_connections c
      in if mc \<noteq> 0 \<and> unat (cst_curr_connections st) \<ge> mc then None else Some (counter_socket_ctor st))"

definition counter_clear :: "counter_handler \<Rightarrow> counter_statistics \<Rightarrow> counter_handler \<times> counter_statistics" where
  "counter_clear h st = (h\<lparr>ch_hash := hash_map_clear (ch_hash h)\<rparr>, st\<lparr>cst_total_objects := 0\<rparr>)"

definition counter_on_slave_start :: "counter_handler \<Rightarrow> counter_statistics \<Rightarrow> bool \<times> counter_handler \<times> counter_statistics" where
  "counter_on_slave_start h st = (True, counter_clear h st)"

section \<open>A collection as a sweep\<close>

definition counter_note :: "nat \<Rightarrow> counter_env \<Rightarrow> string \<times> counter_object \<Rightarrow> counter_gc_thread \<Rightarrow> counter_gc_thread" where
  "counter_note sz e = (\<lambda>(k, ob) g. if co_deletable (cn_interval e) (cn_now e) ob then g
     else g\<lparr>cg_objects := cg_objects g + 1, cg_objects_in_bucket := cg_objects_in_bucket g + 1,
            cg_conflicts := (if cg_objects_in_bucket g = 1 then cg_conflicts g + 1 else cg_conflicts g),
            cg_used_memory := cg_used_memory g + word_of_nat (sz + length k)\<rparr>)"

abbreviation idle :: "counter_env \<Rightarrow> counter_object \<Rightarrow> bool" where
  "idle e \<equiv> co_deletable (cn_interval e) (cn_now e)"

lemma counter_gc_pred_eq:
  "counter_gc_pred sk so e k ob g = Inr (idle e ob, ob, counter_note (sk + so) e (k, ob) g)"
  by (simp add: counter_gc_pred_def counter_note_def Let_def algebra_simps)

lemma counter_bucket_gc_eq:
  "bucket_gc (counter_gc_pred sk so e) b g = Inr (sweep_bucket (idle e) id b, fold (counter_note (sk + so) e) b g)"
  by (induction b arbitrary: g) (auto simp: counter_gc_pred_eq sweep_bucket_def)

lemma counter_gc_buckets_eq:
  "counter_gc_buckets (counter_gc_pred sk so e) bs g =
     Inr (map (sweep_bucket (idle e) id) bs, fold (\<lambda>b g. fold (counter_note (sk + so) e) b (g\<lparr>cg_objects_in_bucket := 0\<rparr>)) bs g)"
  by (induction bs arbitrary: g) (simp_all add: counter_bucket_gc_eq)

lemma counter_gc_eq: "\<exists>g'. counter_gc sk so e m g = Inr (sweep (idle e) id m, g')"
  by (simp add: counter_gc_def sweep_def counter_gc_buckets_eq)

text \<open>Sweeping counters that are out of use changes no consumption.\<close>

lemma sweep_consumed: "hm_invar hf m \<Longrightarrow> consumed hf (sweep (idle e) id m) = consumed hf m"
  by (auto simp: consumed_def sweep_lookup co_deletable_def fun_eq_iff split: option.splits)

lemma sweep_at_consumed: "hm_invar hf m \<Longrightarrow> consumed hf (sweep_at i (idle e) id m) = consumed hf m"
  by (auto simp: consumed_def sweep_at_lookup co_deletable_def fun_eq_iff split: option.splits)

end
