(* ===== verification/Counter_Client.thy ===== *)
theory Counter_Client
  imports Counter_Protocol
begin

text \<open>
  The client of \<^verbatim>\<open>test/counter_client.hpp\<close>: the requests it writes and the responses it reads, and the
  round trips through the parser and the responses of the server.  An assertion of the client that fails is
  the value \<open>None\<close>.
\<close>

section \<open>Requests\<close>

definition client_header :: "u8 \<Rightarrow> u32 \<Rightarrow> u32 \<Rightarrow> string" where
  "client_header opcode body_length opaque =
     [CHR 0x90, char_of (unat opcode), CHR 0x00, CHR 0x00] @ hton body_length @ hton opaque"

definition client_noop :: "u32 \<Rightarrow> string" where
  "client_noop serial = client_header 0x00 0 serial"

definition client_get :: "string \<Rightarrow> u32 \<Rightarrow> string" where
  "client_get name serial =
     client_header 0x01 (2 + word_of_nat (length name)) serial @ hton (word_of_nat (length name) :: u16) @ name"

definition client_acquire :: "string \<Rightarrow> u32 \<Rightarrow> u32 \<Rightarrow> u32 \<Rightarrow> string" where
  "client_acquire name resources initial serial =
     client_header 0x02 (10 + word_of_nat (length name)) serial @
     hton resources @ hton initial @ hton (word_of_nat (length name) :: u16) @ name"

definition client_release :: "string \<Rightarrow> u32 \<Rightarrow> u32 \<Rightarrow> string" where
  "client_release name resources serial =
     client_header 0x03 (6 + word_of_nat (length name)) serial @ hton resources @ hton (word_of_nat (length name) :: u16) @ name"

definition client_stats :: "u32 \<Rightarrow> string" where
  "client_stats serial = client_header 0x10 0 serial"

definition client_dump :: "u32 \<Rightarrow> string" where
  "client_dump serial = client_header 0x11 0 serial"

section \<open>Responses\<close>

record client_response =
  cl_header :: string
  cl_body :: string

definition cl_magic :: "client_response \<Rightarrow> u8" where
  "cl_magic r = of_char (cl_header r ! 0)"

definition cl_command :: "client_response \<Rightarrow> u8" where
  "cl_command r = of_char (cl_header r ! 1)"

definition cl_status :: "client_response \<Rightarrow> u8" where
  "cl_status r = of_char (cl_header r ! 2)"

definition cl_body_length :: "client_response \<Rightarrow> u32" where
  "cl_body_length r = ntoh (drop 4 (cl_header r))"

definition cl_opaque :: "client_response \<Rightarrow> u32" where
  "cl_opaque r = ntoh (drop 8 (cl_header r))"

definition client_parse :: "string \<Rightarrow> client_response \<Rightarrow> nat \<times> client_response" where
  "client_parse buf r =
     (if length buf < 12 then (0, r)
      else
        (let r1 = r\<lparr>cl_header := take 12 buf\<rparr>
         in if length buf < 12 + unat (cl_body_length r1) then (0, r1)
            else
              (let r2 = r1\<lparr>cl_body := take (unat (cl_body_length r1)) (drop 12 buf)\<rparr>
               in (12 + length (cl_body r2), r2))))"

definition cl_name :: "client_response \<Rightarrow> string option" where
  "cl_name r =
     (if cl_command r = Cmd_Dump then Some (take (unat (ntoh (drop 8 (cl_body r)) :: u16)) (drop 10 (cl_body r)))
      else None)"

definition cl_resources :: "client_response \<Rightarrow> u32 option" where
  "cl_resources r = (if length (cl_body r) \<ge> 4 then Some (ntoh (cl_body r)) else None)"

definition cl_consumption :: "client_response \<Rightarrow> u32 option" where
  "cl_consumption r = cl_resources r"

definition cl_max_consumption :: "client_response \<Rightarrow> u32 option" where
  "cl_max_consumption r = (if length (cl_body r) \<ge> 8 then Some (ntoh (drop 4 (cl_body r))) else None)"

definition cl_message :: "client_response \<Rightarrow> string" where
  "cl_message r = cl_body r"

function cl_stats_loop :: "string \<Rightarrow> (string \<times> string) list option" where
  "cl_stats_loop p =
     (if p = [] then Some []
      else if length p < 4 then None
      else
        (let n = unat (ntoh p :: u16); v = unat (ntoh (drop 2 p) :: u16)
         in if length p < 4 + n + v then None
            else map_option (\<lambda>s. (take n (drop 4 p), take v (drop (4 + n) p)) # s) (cl_stats_loop (drop (4 + n + v) p))))"
  by pat_completeness auto
termination
  by (relation "measure length") auto

declare cl_stats_loop.simps [simp del]

definition cl_stats :: "client_response \<Rightarrow> (string \<times> string) list option" where
  "cl_stats r = cl_stats_loop (cl_body r)"

section \<open>Round trips\<close>

text \<open>What the client can ask for, as one type.\<close>

datatype client_op =
    Op_noop | Op_get string | Op_acquire string u32 u32 | Op_release string u32 | Op_stats | Op_dump

primrec client_bytes :: "client_op \<Rightarrow> u32 \<Rightarrow> string" where
  "client_bytes Op_noop = client_noop"
| "client_bytes (Op_get name) = client_get name"
| "client_bytes (Op_acquire name n m) = client_acquire name n m"
| "client_bytes (Op_release name n) = client_release name n"
| "client_bytes Op_stats = client_stats"
| "client_bytes Op_dump = client_dump"

definition good_name :: "string \<Rightarrow> bool" where
  "good_name name \<longleftrightarrow> 0 < length name \<and> length name < 2 ^ 16"

primrec client_op_ok :: "client_op \<Rightarrow> bool" where
  "client_op_ok Op_noop = True"
| "client_op_ok (Op_get name) = good_name name"
| "client_op_ok (Op_acquire name n m) = (good_name name \<and> 0 < n \<and> n \<le> m)"
| "client_op_ok (Op_release name n) = good_name name"
| "client_op_ok Op_stats = True"
| "client_op_ok Op_dump = True"

text \<open>The request the server is to see.\<close>

primrec client_request :: "client_op \<Rightarrow> counter_request \<Rightarrow> counter_request" where
  "client_request Op_noop r = r\<lparr>cr_command := Cmd_Noop\<rparr>"
| "client_request (Op_get name) r = r\<lparr>cr_command := Cmd_Get, cr_body_length := 2 + word_of_nat (length name), cr_name := name\<rparr>"
| "client_request (Op_acquire name n m) r =
     r\<lparr>cr_command := Cmd_Acquire, cr_body_length := 10 + word_of_nat (length name), cr_resources := n, cr_maximum := m, cr_name := name\<rparr>"
| "client_request (Op_release name n) r =
     r\<lparr>cr_command := Cmd_Release, cr_body_length := 6 + word_of_nat (length name), cr_resources := n, cr_name := name\<rparr>"
| "client_request Op_stats r = r\<lparr>cr_command := Cmd_Stats\<rparr>"
| "client_request Op_dump r = r\<lparr>cr_command := Cmd_Dump\<rparr>"

lemma of_char_byte [simp]: "of_char (char_of (unat (w :: u8))) = w"
proof -
  have "unat w < 256" using unsigned_less [of w, where 'a = nat] by simp
  then have "(of_nat (of_char (char_of (unat w)) :: nat) :: u8) = w" by simp
  then show ?thesis by (metis of_nat_of_char)
qed

lemma ntoh_hton_u32 [simp]: "ntoh (hton (v :: u32)) = v"
  using ntoh_hton_simps(2) [of v "[]"] by simp

lemma length_counter_header [simp]: "length (counter_header r st n) = 8 + length (cr_opaque r)"
  by (simp add: counter_header_def)

lemma length_client_header [simp]: "length (client_header c n s) = 12"
  by (simp add: client_header_def)

text \<open>A request with a header of the client: the body goes to the switch on the command.\<close>

lemma counter_parse_client:
  assumes "length body = unat n"
  shows "counter_parse (client_header c n s @ body @ rest) =
    counter_parse_body (body @ rest)
      (counter_request_init\<lparr>cr_command := c, cr_body_length := n, cr_opaque := hton s, cr_length := 12 + unat n\<rparr>)"
  using assms
  by (simp add: counter_parse_def client_header_def COUNTER_HEADER_SIZE_def Let_def nth_append counter_request_init_def)

lemma unat_name_length:
  assumes "good_name name" "k \<le> 10"
  shows "unat (word_of_nat k + word_of_nat (length name) :: u32) = k + length name"
    "unat (word_of_nat (length name) :: u16) = length name"
proof -
  have "length name < 65536" using assms(1) by (simp add: good_name_def)
  with assms(2) show "unat (word_of_nat k + word_of_nat (length name) :: u32) = k + length name"
    by (simp add: unat_of_nat flip: of_nat_add)
  show "unat (word_of_nat (length name) :: u16) = length name"
    using \<open>length name < 65536\<close> by (simp add: unat_of_nat)
qed

lemma counter_parse_name_client:
  assumes "good_name name" "length pre = off" "off + 2 + length name = unat (cr_body_length r)"
  shows "counter_parse_name off (pre @ hton (word_of_nat (length name) :: u16) @ name @ rest) r = r\<lparr>cr_name := name, cr_status := CS_OK\<rparr>"
proof -
  let ?l = "word_of_nat (length name) :: u16"
  have l: "unat ?l = length name" using unat_name_length(2) [OF assms(1), of 0] by simp
  moreover have "?l \<noteq> 0" using l assms(1) by (auto simp: good_name_def)
  ultimately show ?thesis
    using assms(2,3) by (simp add: counter_parse_name_def Let_def)
qed

text \<open>Each operation of the client, as the parser of the server sees it.\<close>

lemma counter_parse_op:
  assumes "client_op_ok op"
  shows "counter_parse (client_bytes op serial @ rest) =
    client_request op (counter_request_init\<lparr>cr_length := length (client_bytes op serial), cr_opaque := hton serial, cr_status := CS_OK\<rparr>)"
proof (cases op)
  case Op_noop
  then show ?thesis
    using counter_parse_client [of "[]" 0 0 serial rest] by (simp add: client_noop_def counter_request_init_def counter_parse_body_def counter_commands)
next
  case (Op_get name)
  then have n: "good_name name" using assms by simp
  show ?thesis
    using counter_parse_client [of "hton (word_of_nat (length name) :: u16) @ name" "2 + word_of_nat (length name)" 1 serial rest]
      unat_name_length(1) [OF n, of 2] counter_parse_name_client [OF n, of "[]" 0]
    by (simp add: Op_get client_get_def counter_parse_body_def counter_commands)
next
  case (Op_acquire name k m)
  then have n: "good_name name" and k: "0 < k" "k \<le> m" using assms by simp_all
  show ?thesis
    using counter_parse_client [of "hton k @ hton m @ hton (word_of_nat (length name) :: u16) @ name" "10 + word_of_nat (length name)" 2 serial rest]
      unat_name_length(1) [OF n, of 10] counter_parse_name_client [OF n, of "hton k @ hton m" 8] k
    by (auto simp: Op_acquire client_acquire_def counter_parse_body_def counter_commands Let_def)
next
  case (Op_release name k)
  then have n: "good_name name" using assms by simp
  show ?thesis
    using counter_parse_client [of "hton k @ hton (word_of_nat (length name) :: u16) @ name" "6 + word_of_nat (length name)" 3 serial rest]
      unat_name_length(1) [OF n, of 6] counter_parse_name_client [OF n, of "hton k" 4]
    by (simp add: Op_release client_release_def counter_parse_body_def counter_commands)
next
  case Op_stats
  then show ?thesis
    using counter_parse_client [of "[]" 0 "0x10" serial rest] by (simp add: client_stats_def counter_request_init_def counter_parse_body_def counter_commands)
next
  case Op_dump
  then show ?thesis
    using counter_parse_client [of "[]" 0 "0x11" serial rest] by (simp add: client_dump_def counter_request_init_def counter_parse_body_def counter_commands)
qed

text \<open>
  C15: every well-formed request of the client is parsed by the server into the command, name, numbers
  and serial number it was written from, with its exact length, whatever follows it in the buffer.
\<close>

theorem counter_request_roundtrip:
  assumes "client_op_ok op"
  shows "counter_parse (client_bytes op serial @ rest) =
    client_request op (counter_request_init\<lparr>cr_length := length (client_bytes op serial), cr_opaque := hton serial, cr_status := CS_OK\<rparr>)"
  using assms by (rule counter_parse_op)

theorem counter_request_roundtrip_witness:
  "counter_parse (client_acquire ''lock'' 1 5 7 @ ''x'') =
     \<lparr>cr_length = 26, cr_command = Cmd_Acquire, cr_flags = 0, cr_body_length = 14, cr_opaque = hton (7 :: u32),
      cr_resources = 1, cr_maximum = 5, cr_name = ''lock'', cr_status = CS_OK\<rparr>"
  using counter_request_roundtrip [of "Op_acquire ''lock'' 1 5" 7 "''x''"]
  by (simp add: good_name_def client_acquire_def counter_request_init_def)

text \<open>The frame of a response as the client sees it.\<close>

lemma client_parse_frame:
  assumes "length (cr_opaque r) = 4" "length body = unat n"
  shows "client_parse (counter_header r st n @ body @ rest) c =
    (12 + length body, c\<lparr>cl_header := counter_header r st n, cl_body := body\<rparr>)"
proof -
  have "cl_body_length (c\<lparr>cl_header := counter_header r st n\<rparr>) = n"
    by (simp add: cl_body_length_def counter_header_def)
  then show ?thesis using assms by (simp add: client_parse_def Let_def)
qed

lemma counter_header_fields:
  assumes "length (cr_opaque r) = 4"
  shows "cl_magic \<lparr>cl_header = counter_header r st n, cl_body = b\<rparr> = 0x91"
    "cl_command \<lparr>cl_header = counter_header r st n, cl_body = b\<rparr> = cr_command r"
    "cl_status \<lparr>cl_header = counter_header r st n, cl_body = b\<rparr> = counter_status_byte st"
    "hton (cl_opaque \<lparr>cl_header = counter_header r st n, cl_body = b\<rparr>) = cr_opaque r"
  using assms by (simp_all add: counter_header_def cl_magic_def cl_command_def cl_status_def cl_opaque_def)

section \<open>The statistics table\<close>

lemma add_stat_append: "add_stat body n v = body @ add_stat [] n v"
  by (simp add: add_stat_def)

lemma cl_stats_loop_Nil [simp]: "cl_stats_loop [] = Some []"
  by (simp add: cl_stats_loop.simps)

lemma cl_stats_loop_add_stat:
  assumes "length n < 2 ^ 16" "length v < 2 ^ 16"
  shows "cl_stats_loop (add_stat [] n v @ rest) = map_option ((#) (n, v)) (cl_stats_loop rest)"
proof -
  have "unat (word_of_nat (length n) :: u16) = length n" "unat (word_of_nat (length v) :: u16) = length v"
    using assms by (simp_all add: unat_of_nat)
  moreover have "hton (x :: u16) \<noteq> []" for x by (simp flip: length_0_conv)
  ultimately show ?thesis
    by (subst cl_stats_loop.simps) (simp add: add_stat_def Let_def)
qed

text \<open>The numbers of the table are short.\<close>

lemma length_decimal_u64: "length (to_decimal (unat (w :: u64))) \<le> 20"
proof -
  have "unat w < 2 ^ 64" using unsigned_less [of w, where 'a = nat] by simp
  then have "unat w < 10 ^ 20" by simp
  then show ?thesis by (rule length_to_decimal) simp
qed

lemma length_decimal_u32: "length (to_decimal (unat (w :: u32))) \<le> 20"
proof -
  have "unat w < 2 ^ 32" using unsigned_less [of w, where 'a = nat] by simp
  then have "unat w < 10 ^ 20" by simp
  then show ?thesis by (rule length_to_decimal) simp
qed

definition counter_table :: "counter_statistics \<Rightarrow> (string \<times> string) list" where
  "counter_table s =
     [(''objects'', to_decimal (unat (cst_objects s))), (''total_objects'', to_decimal (unat (cst_total_objects s))),
      (''used_memory'', to_decimal (unat (cst_used_memory s))), (''conflicts'', to_decimal (unat (cst_conflicts s))),
      (''gc_count'', to_decimal (unat (cst_gc_count s))), (''last_gc_elapsed'', to_decimal (unat (cst_last_gc_elapsed s))),
      (''total_gc_elapsed'', to_decimal (unat (cst_total_gc_elapsed s))),
      (''curr_connections'', to_decimal (unat (cst_curr_connections s))),
      (''total_connections'', to_decimal (unat (cst_total_connections s))),
      (''command:noop'', to_decimal (unat (cst_ops s ! 0))), (''command:get'', to_decimal (unat (cst_ops s ! 1))),
      (''command:acquire'', to_decimal (unat (cst_ops s ! 2))), (''command:release'', to_decimal (unat (cst_ops s ! 3))),
      (''command:stats'', to_decimal (unat (cst_ops s ! 16))), (''command:dump'', to_decimal (unat (cst_ops s ! 17)))]"

lemma counter_stats_body_table:
  "counter_stats_body s = concat (map (\<lambda>(n, v). add_stat [] n v) (counter_table s))"
  unfolding counter_stats_body_def counter_table_def add_stat_op_def Let_def add_stat_def counter_commands
  by simp

definition short_entry :: "string \<times> string \<Rightarrow> bool" where
  "short_entry = (\<lambda>(n, v). length n \<le> 20 \<and> length v \<le> 20)"

lemma counter_table_short: "list_all short_entry (counter_table s)" "length (counter_table s) = 15"
  by (simp_all add: counter_table_def short_entry_def length_decimal_u64 length_decimal_u32)

lemma cl_stats_loop_table: "list_all short_entry t \<Longrightarrow> cl_stats_loop (concat (map (\<lambda>(n, v). add_stat [] n v) t)) = Some t"
  by (induction t) (auto simp: short_entry_def cl_stats_loop_add_stat)

lemma length_table: "list_all short_entry t \<Longrightarrow> length (concat (map (\<lambda>(n, v). add_stat [] n v) t)) \<le> 44 * length t"
  by (induction t) (auto simp: short_entry_def add_stat_def)

lemma length_counter_stats_body: "length (counter_stats_body s) \<le> 660"
  using length_table [OF counter_table_short(1)] by (simp add: counter_stats_body_table counter_table_short)

section \<open>Responses that reach the client\<close>

text \<open>The response a client reads from the bytes of one send, and what is left in its buffer.\<close>

definition client_reads :: "counter_event list \<Rightarrow> string \<Rightarrow> client_response option" where
  "client_reads evs rest =
     (case evs of
        [C_send bytes flush] \<Rightarrow>
          (case client_parse (bytes @ rest) \<lparr>cl_header = replicate 12 (CHR 0x00), cl_body = []\<rparr> of
             (n, r) \<Rightarrow> if n = length bytes then Some r else None)
      | _ \<Rightarrow> None)"

lemma client_reads_frame:
  assumes "length (cr_opaque r) = 4" "length body = unat n"
  shows "client_reads [C_send (counter_header r st n @ body) flush] rest = Some \<lparr>cl_header = counter_header r st n, cl_body = body\<rparr>"
  using client_parse_frame [OF assms] assms by (simp add: client_reads_def)

text \<open>The answers of the server, the bytes it sends for each, and what the client is to find in them.\<close>

datatype counter_reply =
    Rp_success | Rp_error counter_status | Rp_get u32 | Rp_acquire u32 | Rp_dump string u32 u32 | Rp_stats counter_statistics

primrec reply_events :: "counter_request \<Rightarrow> counter_reply \<Rightarrow> exn + counter_event list" where
  "reply_events r Rp_success = Inr (counter_success r)"
| "reply_events r (Rp_error st) = counter_error r st"
| "reply_events r (Rp_get v) = Inr (counter_get r v)"
| "reply_events r (Rp_acquire v) = Inr (counter_acquire r v)"
| "reply_events r (Rp_dump name v m) = Inr (counter_dump r name (word_of_nat (length name)) v m)"
| "reply_events r (Rp_stats s) = Inr (counter_stats r s)"

primrec reply_ok :: "counter_request \<Rightarrow> counter_reply \<Rightarrow> bool" where
  "reply_ok r Rp_success = True"
| "reply_ok r (Rp_error st) = (st \<noteq> CS_OK)"
| "reply_ok r (Rp_get v) = True"
| "reply_ok r (Rp_acquire v) = True"
| "reply_ok r (Rp_dump name v m) = (cr_command r = Cmd_Dump \<and> length name < 2 ^ 16)"
| "reply_ok r (Rp_stats s) = True"

primrec reply_seen :: "client_response \<Rightarrow> counter_reply \<Rightarrow> bool" where
  "reply_seen c Rp_success = (cl_status c = 0 \<and> cl_body c = [])"
| "reply_seen c (Rp_error st) = (cl_status c = counter_status_byte st \<and> Some (cl_message c) = counter_status_message st)"
| "reply_seen c (Rp_get v) = (cl_status c = 0 \<and> cl_consumption c = Some v)"
| "reply_seen c (Rp_acquire v) = (cl_status c = 0 \<and> cl_resources c = Some v)"
| "reply_seen c (Rp_dump name v m) =
     (cl_status c = 0 \<and> cl_name c = Some name \<and> cl_consumption c = Some v \<and> cl_max_consumption c = Some m)"
| "reply_seen c (Rp_stats s) = (cl_status c = 0 \<and> cl_stats c = Some (counter_table s))"

lemma reply_events_frame:
  assumes "reply_ok r rp"
  shows "\<exists>st n body flush. reply_events r rp = Inr [C_send (counter_header r st n @ body) flush] \<and> length body = unat n \<and>
    (length (cr_opaque r) = 4 \<longrightarrow> reply_seen \<lparr>cl_header = counter_header r st n, cl_body = body\<rparr> rp)"
proof (cases rp)
  case (Rp_error st)
  then obtain msg where "counter_status_message st = Some msg" "length msg < 100"
    using assms by (cases st) simp_all
  then show ?thesis using Rp_error
    by (intro exI [of _ st] exI [of _ "word_of_nat (length msg)"] exI [of _ msg] exI [of _ True])
      (simp add: counter_error_def counter_send_error_def unat_of_nat counter_header_fields cl_message_def)
next
  case (Rp_dump name v m)
  then have l: "length name < 2 ^ 16" "cr_command r = Cmd_Dump" using assms by simp_all
  then have u: "unat (word_of_nat (length name) :: u16) = length name" by (simp add: unat_of_nat)
  moreover have "unat (10 + ucast (word_of_nat (length name) :: u16) :: u32) = 10 + length name"
    using l u by (simp add: unat_plus_no_wrap unsigned_ucast_eq take_bit_nat_eq_self)
  ultimately show ?thesis using l
    by (intro exI [of _ CS_OK] exI [of _ "10 + ucast (word_of_nat (length name) :: u16)"]
        exI [of _ "hton v @ hton m @ hton (word_of_nat (length name) :: u16) @ name"] exI [of _ False])
      (simp add: Rp_dump counter_dump_def counter_header_fields cl_name_def cl_consumption_def cl_resources_def cl_max_consumption_def)
next
  case (Rp_stats s)
  have "unat (word_of_nat (length (counter_stats_body s)) :: u32) = length (counter_stats_body s)"
    using length_counter_stats_body [of s] by (simp add: unat_of_nat)
  moreover have "cl_stats_loop (counter_stats_body s) = Some (counter_table s)"
    using cl_stats_loop_table [OF counter_table_short(1)] by (simp add: counter_stats_body_table)
  ultimately show ?thesis
    by (intro exI [of _ CS_OK] exI [of _ "word_of_nat (length (counter_stats_body s))"] exI [of _ "counter_stats_body s"] exI [of _ True])
      (simp add: Rp_stats counter_stats_def Let_def counter_header_fields cl_stats_def)
next
  case Rp_success
  then show ?thesis
    by (intro exI [of _ CS_OK] exI [of _ 0] exI [of _ "[]"] exI [of _ True]) (simp add: counter_success_def counter_header_fields)
next
  case (Rp_get v)
  then show ?thesis
    by (intro exI [of _ CS_OK] exI [of _ 4] exI [of _ "hton v"] exI [of _ True])
      (simp add: counter_get_def counter_header_fields cl_consumption_def cl_resources_def)
next
  case (Rp_acquire v)
  then show ?thesis
    by (intro exI [of _ CS_OK] exI [of _ 4] exI [of _ "hton v"] exI [of _ True])
      (simp add: counter_acquire_def counter_get_def counter_header_fields cl_consumption_def cl_resources_def)
qed

text \<open>
  C16: the client reads every response of the server to its end and finds in it the command and the serial number of
  its request, the status, and the numbers, the name, the message or the table that the server put into it.
\<close>

theorem counter_response_roundtrip:
  assumes "length (cr_opaque r) = 4" "reply_ok r rp"
  shows "\<exists>evs c. reply_events r rp = Inr evs \<and> client_reads evs rest = Some c \<and> cl_magic c = 0x91 \<and>
    cl_command c = cr_command r \<and> hton (cl_opaque c) = cr_opaque r \<and> reply_seen c rp"
proof -
  obtain st n body flush where e: "reply_events r rp = Inr [C_send (counter_header r st n @ body) flush]" "length body = unat n"
    "reply_seen \<lparr>cl_header = counter_header r st n, cl_body = body\<rparr> rp"
    using reply_events_frame [OF assms(2)] assms(1) by blast
  then show ?thesis using client_reads_frame [OF assms(1) e(2)] counter_header_fields [OF assms(1)] by simp
qed

theorem counter_response_roundtrip_witness:
  "\<exists>evs c. reply_events (counter_parse (client_dump 9)) (Rp_dump ''lock'' 3 5) = Inr evs \<and> client_reads evs [] = Some c \<and>
    cl_name c = Some ''lock'' \<and> cl_consumption c = Some 3 \<and> cl_max_consumption c = Some 5"
proof -
  have "counter_parse (client_dump 9) = counter_request_init\<lparr>cr_length := 12, cr_opaque := hton (9 :: u32), cr_command := Cmd_Dump, cr_status := CS_OK\<rparr>"
    using counter_parse_client [of "[]" 0 "0x11" 9 "[]"]
    by (simp add: client_dump_def counter_parse_body_def counter_commands counter_request_init_def)
  then show ?thesis
    using counter_response_roundtrip [of "counter_parse (client_dump 9)" "Rp_dump ''lock'' 3 5" "[]"] by auto
qed

end
