(* ===== verification/Counter_System.thy ===== *)
theory Counter_System
  imports Counter_Gc Counter_Client
begin

text \<open>
  The counter service as a whole: any number of connections, the collector and the clock on one map.

  A step is one operation that the code performs under the lock of one bucket: a request, the collection of a bucket; the
  release of all resources of a connection is one step as well, since it is a sequence of such
  operations on counters of the connection whose books nobody else reads.  Connections are numbered.
\<close>

section \<open>The system\<close>

record counter_system =
  cy_hash :: "counter_object hash_map"
  cy_conns :: "nat \<rightharpoonup> (string \<times> u32) list"
  cy_stats :: counter_statistics
  cy_now :: time_t
  cy_outs :: "(nat \<times> counter_event) list"

datatype counter_happening =
    Connect nat
  | Request nat string
  | Lost nat
  | Invalidated nat
  | Destroyed nat
  | Collect nat
  | Clock time_t

definition counter_start :: "counter_config \<Rightarrow> counter_system" where
  "counter_start c =
     \<lparr>cy_hash = ch_hash (counter_handler_ctor c), cy_conns = Map.empty, cy_stats = counter_statistics_reset, cy_now = 0, cy_outs = []\<rparr>"

definition cy_env :: "counter_config \<Rightarrow> counter_system \<Rightarrow> counter_env" where
  "cy_env c s = \<lparr>cn_now = cy_now s, cn_interval = cc_stat_interval c\<rparr>"

text \<open>Code of connection \<open>i\<close> runs with its books and the shared statistics; what it sends is appended to the record.\<close>

definition on_connection ::
  "nat \<Rightarrow> (counter_object hash_map \<Rightarrow> counter_state \<Rightarrow> exn + (counter_object hash_map \<times> counter_state)) \<Rightarrow> counter_system \<Rightarrow> exn + counter_system" where
  "on_connection i code s =
     (case cy_conns s i of
        None \<Rightarrow> Inr s
      | Some acq \<Rightarrow>
          bind_res (code (cy_hash s) \<lparr>cs_stats = cy_stats s, cs_acquired = acq, cs_outs = []\<rparr>) (\<lambda>(m, t).
            Inr (s\<lparr>cy_hash := m, cy_conns := (cy_conns s)(i \<mapsto> cs_acquired t), cy_stats := cs_stats t,
                   cy_outs := cy_outs s @ map (Pair i) (cs_outs t)\<rparr>)))"

fun counter_step :: "(string \<Rightarrow> u64) \<Rightarrow> counter_config \<Rightarrow> counter_happening \<Rightarrow> counter_system \<Rightarrow> exn + counter_system" where
  "counter_step hf c (Connect i) s =
     (if cy_conns s i \<noteq> None then Inr s
      else
        (case make_counter_socket c (cy_stats s) of
           None \<Rightarrow> Inr s
         | Some t \<Rightarrow> Inr (s\<lparr>cy_conns := (cy_conns s)(i \<mapsto> cs_acquired t), cy_stats := cs_stats t\<rparr>)))"
| "counter_step hf c (Request i p) s =
     (let r = counter_parse p
      in if cr_length r = 0 then Inr s else on_connection i (counter_execute hf (cy_env c s) r) s)"
| "counter_step hf c (Lost i) s = on_connection i (release_all hf (cy_env c s)) s"
| "counter_step hf c (Invalidated i) s =
     (if cy_conns s i = None then Inr s else Inr (s\<lparr>cy_stats := counter_on_invalidate (cy_stats s)\<rparr>))"
| "counter_step hf c (Destroyed i) s =
     bind_res (on_connection i (counter_socket_dtor hf (cy_env c s)) s) (\<lambda>s'. Inr (s'\<lparr>cy_conns := (cy_conns s')(i := None)\<rparr>))"
| "counter_step hf c (Collect j) s =
     (if j < length (m_buckets (cy_hash s)) then
        bind_res (bucket_gc (counter_gc_pred 0 0 (cy_env c s)) (m_buckets (cy_hash s) ! j) counter_gc_thread_ctor) (\<lambda>(b, g).
          Inr (s\<lparr>cy_hash := (cy_hash s)\<lparr>m_buckets := (m_buckets (cy_hash s))[j := b]\<rparr>\<rparr>))
      else Inr s)"
| "counter_step hf c (Clock t) s = Inr (s\<lparr>cy_now := t\<rparr>)"

fun counter_run :: "(string \<Rightarrow> u64) \<Rightarrow> counter_config \<Rightarrow> counter_happening list \<Rightarrow> counter_system \<Rightarrow> exn + counter_system" where
  "counter_run hf c [] s = Inr s"
| "counter_run hf c (ev # evs) s = bind_res (counter_step hf c ev s) (counter_run hf c evs)"

section \<open>The invariant of the system\<close>

definition acquired_total :: "(nat \<rightharpoonup> (string \<times> u32) list) \<Rightarrow> string \<Rightarrow> nat" where
  "acquired_total conns k = (\<Sum>i \<in> dom conns. booked (the (conns i)) k)"

definition system_ok :: "(string \<Rightarrow> u64) \<Rightarrow> counter_system \<Rightarrow> bool" where
  "system_ok hf s \<longleftrightarrow>
     hm_invar hf (cy_hash s) \<and> finite (dom (cy_conns s)) \<and> (\<forall>i acq. cy_conns s i = Some acq \<longrightarrow> books_ok acq) \<and>
     (\<forall>k. consumed hf (cy_hash s) k = acquired_total (cy_conns s) k) \<and> (\<forall>k. acquired_total (cy_conns s) k < 2 ^ 31)"

lemma acquired_total_update:
  assumes "finite (dom conns)"
  shows "acquired_total (conns(i \<mapsto> acq)) k = acquired_total (conns(i := None)) k + booked acq k"
proof -
  have "acquired_total (conns(i \<mapsto> acq)) k = booked acq k + (\<Sum>j \<in> dom conns - {i}. booked (the ((conns(i \<mapsto> acq)) j)) k)"
    unfolding acquired_total_def using assms by (subst sum.remove [where x = i]) auto
  also have "(\<Sum>j \<in> dom conns - {i}. booked (the ((conns(i \<mapsto> acq)) j)) k) = acquired_total (conns(i := None)) k"
    unfolding acquired_total_def by (rule sum.cong) auto
  finally show ?thesis by (simp only: add.commute)
qed

text \<open>Seen from one connection, the system is balanced with what all the others have.\<close>

lemma system_balanced:
  assumes "system_ok hf s" "cy_conns s i = Some acq"
  shows "balanced hf (acquired_total ((cy_conns s)(i := None))) (cy_hash s) acq"
proof -
  have "(cy_conns s)(i \<mapsto> acq) = cy_conns s" using assms(2) by auto
  then show ?thesis
    using assms acquired_total_update [of "cy_conns s" i acq] by (auto simp: system_ok_def balanced_def)
qed

lemma balanced_system:
  assumes "system_ok hf s" "balanced hf (acquired_total ((cy_conns s)(i := None))) m acq"
    "cy_hash s' = m" "cy_conns s' = (cy_conns s)(i \<mapsto> acq)"
  shows "system_ok hf s'"
  using assms acquired_total_update [of "cy_conns s" i acq]
  by (auto simp: system_ok_def balanced_def split: if_splits)

lemma on_connection_ok:
  assumes "system_ok hf s"
    "\<And>acq others t. balanced hf others (cy_hash s) acq \<Longrightarrow> cs_acquired t = acq \<Longrightarrow> balances hf others (code (cy_hash s) t)"
  shows "\<exists>s'. on_connection i code s = Inr s' \<and> system_ok hf s'"
proof (cases "cy_conns s i")
  case None
  then show ?thesis using assms(1) by (simp add: on_connection_def)
next
  case (Some acq)
  let ?t = "\<lparr>cs_stats = cy_stats s, cs_acquired = acq, cs_outs = []\<rparr>"
  obtain m t where r: "code (cy_hash s) ?t = Inr (m, t)" "balanced hf (acquired_total ((cy_conns s)(i := None))) m (cs_acquired t)"
    using assms(2) [OF system_balanced [OF assms(1) Some], of ?t] by (auto simp: balances_def)
  then show ?thesis using balanced_system [OF assms(1) r(2)] by (simp add: on_connection_def Some)
qed

lemma release_all_balances': "balanced hf others m (cs_acquired t) \<Longrightarrow> balances hf others (release_all hf e m t)"
  using release_all_balances [of hf others m t e] by (auto simp: balances_def)

fun ev_modest :: "counter_happening \<Rightarrow> bool" where
  "ev_modest (Request i p) = modest (counter_parse p)"
| "ev_modest _ = True"

lemma counter_start_ok: "system_ok hf (counter_start c)"
  by (simp add: system_ok_def counter_start_def counter_handler_ctor_def hm_invar_ctor acquired_total_def consumed_def hm_lookup_ctor)

lemma system_ok_cong:
  "system_ok hf s \<Longrightarrow> cy_hash s' = cy_hash s \<Longrightarrow> cy_conns s' = cy_conns s \<Longrightarrow> system_ok hf s'"
  by (simp add: system_ok_def)

lemma connect_ok:
  assumes "system_ok hf s" "cy_conns s i = None" "cy_conns s' = (cy_conns s)(i \<mapsto> [])" "cy_hash s' = cy_hash s"
  shows "system_ok hf s'"
proof -
  have "(cy_conns s)(i := None) = cy_conns s" using assms(2) by auto
  then show ?thesis
    using assms acquired_total_update [of "cy_conns s" i "[]"] by (auto simp: system_ok_def split: if_splits)
qed

lemma destroyed_ok:
  assumes "system_ok hf s"
  shows "\<exists>s'. counter_step hf c (Destroyed i) s = Inr s' \<and> system_ok hf s'"
proof (cases "cy_conns s i")
  case None
  then have "(cy_conns s)(i := None) = cy_conns s" by auto
  then show ?thesis using assms None by (simp add: on_connection_def system_ok_def)
next
  case (Some acq)
  let ?t = "\<lparr>cs_stats = cy_stats s, cs_acquired = acq, cs_outs = []\<rparr>" and ?o = "acquired_total ((cy_conns s)(i := None))"
  have "balanced hf ?o (cy_hash s) (cs_acquired ?t)" using system_balanced [OF assms Some] by simp
  from release_all_balances [OF this] obtain m where
    m: "release_all hf (cy_env c s) (cy_hash s) ?t = Inr (m, ?t\<lparr>cs_acquired := []\<rparr>)" "balanced hf ?o m []"
    by blast
  then show ?thesis using assms Some by (auto simp: on_connection_def counter_socket_dtor_def system_ok_def balanced_def split: if_splits)
qed

lemma collect_ok:
  assumes "system_ok hf s"
  shows "\<exists>s'. counter_step hf c (Collect j) s = Inr s' \<and> system_ok hf s'"
proof -
  have inv: "hm_invar hf (cy_hash s)" using assms by (simp add: system_ok_def)
  then show ?thesis
    using assms sweep_at_invar [OF inv, of j "idle (cy_env c s)" id] sweep_at_consumed [OF inv, of j "cy_env c s"]
    by (simp add: counter_bucket_gc_eq sweep_at_def system_ok_def)
qed

lemma counter_step_ok:
  assumes "system_ok hf s" "ev_modest ev"
  shows "\<exists>s'. counter_step hf c ev s = Inr s' \<and> system_ok hf s'"
proof (cases ev)
  case (Connect i)
  then show ?thesis
    using assms(1) connect_ok [OF assms(1)] by (auto simp: make_counter_socket_def counter_socket_ctor_def Let_def split: option.splits)
next
  case (Request i p)
  have "\<exists>s'. on_connection i (counter_execute hf (cy_env c s) (counter_parse p)) s = Inr s' \<and> system_ok hf s'"
    by (rule on_connection_ok [OF assms(1)]) (use assms(2) Request counter_execute_balances counter_parse_asks_well in auto)
  then show ?thesis using assms(1) Request by (simp add: Let_def)
next
  case (Lost i)
  then show ?thesis using on_connection_ok [OF assms(1)] release_all_balances' by simp
next
  case (Invalidated i)
  then show ?thesis using assms(1) system_ok_cong [OF assms(1)] by simp
next
  case (Clock t)
  then show ?thesis using system_ok_cong [OF assms(1)] by simp
qed (use destroyed_ok [OF assms(1)] collect_ok [OF assms(1)] in auto)

lemma counter_run_ok:
  assumes "system_ok hf s" "list_all ev_modest evs"
  shows "\<exists>s'. counter_run hf c evs s = Inr s' \<and> system_ok hf s'"
  using assms
proof (induction evs arbitrary: s)
  case (Cons ev evs)
  then obtain s1 where "counter_step hf c ev s = Inr s1" "system_ok hf s1" using counter_step_ok [of hf s ev c] by auto
  with Cons show ?case by simp
qed simp

text \<open>
  C11: whatever the clients send and in whatever order requests, losses of connections, collections and the clock interleave, nothing
  throws, and for every counter the consumption is the sum of what the open connections have acquired of it; in particular
  no counter with resources in somebody's books is ever removed.  Limits in requests are below $2^{31}$.
\<close>

theorem counter_conserves:
  assumes "list_all ev_modest evs"
  shows "\<exists>s. counter_run hf c evs (counter_start c) = Inr s \<and> hm_invar hf (cy_hash s) \<and>
    (\<forall>k. (case hm_lookup hf (cy_hash s) k of None \<Rightarrow> 0 | Some ob \<Rightarrow> unat (co_consumption ob)) =
         (\<Sum>i \<in> dom (cy_conns s). case map_of (the (cy_conns s i)) k of None \<Rightarrow> 0 | Some n \<Rightarrow> unat n))"
  using counter_run_ok [OF counter_start_ok [of hf c] assms, of c]
  by (auto simp: system_ok_def acquired_total_def consumed_def booked_def)

lemma client_acquire_parse:
  assumes "good_name k" "0 < n" "n \<le> mx"
  shows "counter_parse (client_acquire k n mx i) =
    counter_request_init\<lparr>cr_length := length (client_acquire k n mx i), cr_opaque := hton i, cr_status := CS_OK, cr_command := Cmd_Acquire,
      cr_body_length := 10 + word_of_nat (length k), cr_resources := n, cr_maximum := mx, cr_name := k\<rparr>"
  using counter_parse_op [of "Op_acquire k n mx" i "[]"] assms by simp

theorem counter_conserves_witness:
  "\<exists>s. counter_run (\<lambda>_. 0) counter_config_default [Connect 1, Request 1 (client_acquire ''a'' 2 5 7), Lost 1] (counter_start counter_config_default) = Inr s \<and>
    hm_invar (\<lambda>_. 0) (cy_hash s)"
proof -
  have "ev_modest (Request 1 (client_acquire ''a'' 2 5 7))"
    using client_acquire_parse [of "''a''" 2 5 7] by (simp add: good_name_def modest_def)
  then have "list_all ev_modest [Connect 1, Request 1 (client_acquire ''a'' 2 5 7), Lost 1]" by simp
  from counter_conserves [OF this] show ?thesis by blast
qed

section \<open>The limit of a counter\<close>

text \<open>The consumption of a counter after a request: unchanged or less, or within the limit of the request.\<close>

definition within :: "(string \<Rightarrow> u64) \<Rightarrow> counter_request \<Rightarrow> counter_object hash_map \<Rightarrow> counter_object hash_map \<Rightarrow> bool" where
  "within hf r m m' \<longleftrightarrow>
     (\<forall>k. consumed hf m' k \<le> consumed hf m k \<or>
        cr_status r = CS_OK \<and> cr_command r = Cmd_Acquire \<and> cr_name r = k \<and> consumed hf m' k \<le> unat (cr_maximum r))"

lemma within_refl [simp]: "within hf r m m"
  by (simp add: within_def)

lemma apply_consumed:
  assumes "hm_invar hf m" "hash_map_apply hf k (Some h) c m s = Inr (q, m', s')"
    "\<And>ob b ob' t. h k ob s = Inr (b, ob', t) \<Longrightarrow> co_consumption ob' \<le> co_consumption ob \<or> ok ob'"
    "\<And>f ob t. c = Some f \<Longrightarrow> f k s = Inr (ob, t) \<Longrightarrow> ok ob"
  shows "(\<forall>j. j \<noteq> k \<longrightarrow> consumed hf m' j = consumed hf m j) \<and>
    (consumed hf m' k \<le> consumed hf m k \<or> (\<exists>ob. hm_lookup hf m' k = Some ob \<and> ok ob))"
proof -
  note ap = hm.apply_InrD [OF assms(1,2)]
  have "consumed hf m' j = consumed hf m j" if "j \<noteq> k" for j
    using hm.apply_other [OF assms(1,2) that] by (simp add: consumed_def)
  moreover have "consumed hf m' k \<le> consumed hf m k \<or> (\<exists>ob. hm_lookup hf m' k = Some ob \<and> ok ob)"
  proof (cases "hm_lookup hf m k")
    case (Some ob)
    then obtain b ob' where h: "h k ob s = Inr (b, ob', s')" "hm_lookup hf m' k = Some ob'"
      using ap by (auto simp: map_apply_def dest!: fun_cong [of _ _ k])
    from assms(3) [OF h(1)] show ?thesis using Some h(2) by (auto simp: consumed_def word_le_nat_alt)
  next
    case None
    show ?thesis
    proof (cases c)
      case None
      then show ?thesis using ap \<open>hm_lookup hf m k = None\<close> by (auto simp: map_apply_def consumed_def dest!: fun_cong [of _ _ k])
    next
      case (Some f)
      then obtain ob where "f k s = Inr (ob, s')" "hm_lookup hf m' k = Some ob"
        using ap None by (auto simp: map_apply_def dest!: fun_cong [of _ _ k])
      then show ?thesis using assms(4) [OF Some] by auto
    qed
  qed
  ultimately show ?thesis by blast
qed

lemma minus_le: "(n :: u32) \<le> c \<Longrightarrow> c - n \<le> c"
  using unat_minus_le [of n c] by (simp add: word_le_nat_alt)

lemma release_only_lowers:
  "co_release n t r ob = (b, ob') \<Longrightarrow> co_consumption ob' \<le> co_consumption ob"
  by (auto simp: co_release_def not_less minus_le split: if_splits)

lemma execute_within:
  assumes inv: "hm_invar hf m" and "asks_well r" and run: "counter_execute hf e r m s = Inr (m', s')"
  shows "within hf r m m'"
proof -
  have lowers_within: "within hf r m m1" if "hash_map_apply hf (cr_name r) (Some h) None m t = Inr (q, m1, t2)"
    "\<And>ob b ob' t'. h (cr_name r) ob t = Inr (b, ob', t') \<Longrightarrow> co_consumption ob' \<le> co_consumption ob" for h q m1 t t2
  proof -
    have "consumed hf m1 j \<le> consumed hf m j" for j
      using apply_consumed [OF inv that(1), where ok = "\<lambda>_. False"] that(2) by (cases "j = cr_name r") auto
    then show ?thesis by (simp add: within_def)
  qed
  have get: "within hf r m m1" if g: "counter_cmd_get hf r m t = Inr (m1, t1)" for m1 t t1
  proof -
    obtain q t2 where a: "hash_map_apply hf (cr_name r) (Some (cmd_get_handler r)) None m t = Inr (q, m1, t2)"
      using g by (auto simp: counter_cmd_get_def split: if_splits)
    then show ?thesis by (rule lowers_within) (auto simp: cmd_get_handler_def)
  qed
  have rel: "within hf r m m1" if g: "counter_cmd_release hf e r m t = Inr (m1, t1)" for m1 t t1
  proof -
    obtain q t2 where a: "hash_map_apply hf (cr_name r) (Some (cmd_release_handler e r)) None m t = Inr (q, m1, t2)"
      using g by (auto simp: counter_cmd_release_def split: if_splits)
    have "co_consumption ob' \<le> co_consumption ob" if "cmd_release_handler e r (cr_name r) ob t = Inr (b, ob', t')" for b ob ob' t'
      using that by (auto simp: cmd_release_handler_def split: prod.splits if_splits dest: release_only_lowers)
    with a show ?thesis by (rule lowers_within)
  qed
  have acq: "within hf r m m1"
    if g: "counter_cmd_acquire hf e r m t = Inr (m1, t1)" "cr_status r = CS_OK" "cr_command r = Cmd_Acquire" for m1 t t1
  proof -
    obtain q where a: "hash_map_apply hf (cr_name r) (Some (cmd_acquire_handler e r)) (Some (cmd_acquire_creator e r)) m t = Inr (q, m1, t1)"
      using g(1) by (auto simp: counter_cmd_acquire_def)
    have "co_consumption ob' \<le> co_consumption ob \<or> co_consumption ob' \<le> cr_maximum r"
      if "cmd_acquire_handler e r (cr_name r) ob t = Inr (b, ob', t')" for b ob ob' t'
      using that by (auto simp: cmd_acquire_handler_def co_acquire_def not_less split: if_splits)
    moreover have "co_consumption ob \<le> cr_maximum r" if "cmd_acquire_creator e r (cr_name r) t = Inr (ob, t')" for ob t'
      using that assms(2) \<open>cr_status r = CS_OK\<close> \<open>cr_command r = Cmd_Acquire\<close>
      by (auto simp: cmd_acquire_creator_def counter_object_ctor_def asks_well_def Let_def)
    ultimately have c: "(\<forall>j. j \<noteq> cr_name r \<longrightarrow> consumed hf m1 j = consumed hf m j) \<and>
        (consumed hf m1 (cr_name r) \<le> consumed hf m (cr_name r) \<or>
         (\<exists>ob. hm_lookup hf m1 (cr_name r) = Some ob \<and> co_consumption ob \<le> cr_maximum r))"
      by (intro apply_consumed [OF inv a]) auto
    have "consumed hf m1 k \<le> consumed hf m k \<or> cr_name r = k \<and> consumed hf m1 k \<le> unat (cr_maximum r)" for k
      using c by (cases "k = cr_name r") (auto simp: consumed_def [of hf m1] word_le_nat_alt)
    then show ?thesis using g(2,3) by (simp add: within_def)
  qed
  have dump: "m1 = m" if "counter_cmd_dump e r m t = Inr (m1, t1)" for m1 t t1
    using that cmd_dump_foreach [of e r m t] by (auto simp: counter_cmd_dump_def)
  show ?thesis
    using run unfolding counter_execute_def Let_def by (auto split: if_splits dest: get rel acq dump)
qed

lemma release_entries_lowers:
  "hm_invar hf m \<Longrightarrow> release_entries hf e acq m = Inr m' \<Longrightarrow> consumed hf m' k \<le> consumed hf m k"
proof (induction acq arbitrary: m)
  case (Cons x acq)
  obtain j n where x: "x = (j, n)" by (cases x)
  obtain m1 where a: "hash_map_apply hf j (Some (release_handler e n)) None m () = Inr (True, m1, ())" "release_entries hf e acq m1 = Inr m'"
    using Cons.prems(2) by (auto simp: x split: if_splits)
  have "co_consumption ob' \<le> co_consumption ob" if "release_handler e n j ob () = Inr (b, ob', ())" for b ob ob'
    using that by (auto simp: release_handler_def split: prod.splits if_splits dest: release_only_lowers)
  then have "consumed hf m1 k \<le> consumed hf m k"
    using apply_consumed [OF Cons.prems(1) a(1), where ok = "\<lambda>_. False"] by (cases "k = j") auto
  moreover have "hm_invar hf m1" using hm.apply_InrD [OF Cons.prems(1) a(1)] by blast
  ultimately show ?case using Cons.IH [OF _ a(2)] by (meson order_trans)
qed simp

text \<open>Every acquisition of counter \<open>k\<close> names a limit of at most \<open>M\<close>.\<close>

fun limited :: "string \<Rightarrow> nat \<Rightarrow> counter_happening \<Rightarrow> bool" where
  "limited k M (Request i p) =
     (let r = counter_parse p in cr_status r = CS_OK \<and> cr_command r = Cmd_Acquire \<and> cr_name r = k \<longrightarrow> unat (cr_maximum r) \<le> M)"
| "limited k M _ = True"

lemma on_connection_hash:
  assumes "on_connection i code s = Inr s'" "P (cy_hash s)" "\<And>t m t'. code (cy_hash s) t = Inr (m, t') \<Longrightarrow> P m"
  shows "P (cy_hash s')"
  using assms by (auto simp: on_connection_def split: option.splits)

lemma counter_step_limited:
  assumes "hm_invar hf (cy_hash s)" "limited k M ev" "counter_step hf c ev s = Inr s'" "consumed hf (cy_hash s) k \<le> M"
  shows "consumed hf (cy_hash s') k \<le> M"
proof -
  have rel: "consumed hf (cy_hash s1) k \<le> M" if "on_connection i (release_all hf e) s = Inr s1" for i e s1
  proof (rule on_connection_hash [OF that])
    fix t m t'
    assume "release_all hf e (cy_hash s) t = Inr (m, t')"
    then have "release_entries hf e (cs_acquired t) (cy_hash s) = Inr m" by (auto simp: release_all_def)
    from release_entries_lowers [OF assms(1) this] assms(4) show "consumed hf m k \<le> M" by (meson order_trans)
  qed (rule assms(4))
  show ?thesis
  proof (cases ev)
    case (Request i p)
    show ?thesis
    proof (cases "cr_length (counter_parse p) = 0")
      case False
      then have "on_connection i (counter_execute hf (cy_env c s) (counter_parse p)) s = Inr s'"
        using assms(3) by (simp add: Request Let_def)
      then show ?thesis
      proof (rule on_connection_hash)
        fix t m t'
        assume "counter_execute hf (cy_env c s) (counter_parse p) (cy_hash s) t = Inr (m, t')"
        from execute_within [OF assms(1) counter_parse_asks_well this]
        have "consumed hf m k \<le> consumed hf (cy_hash s) k \<or> consumed hf m k \<le> M"
          using assms(2) unfolding within_def Request by (auto simp: Let_def intro: order_trans)
        with assms(4) show "consumed hf m k \<le> M" by (meson order_trans)
      qed (rule assms(4))
    qed (use assms(3,4) in \<open>simp add: Request\<close>)
  next
    case (Destroyed i)
    then show ?thesis using assms(3) rel by (auto simp: counter_socket_dtor_def [abs_def])
  next
    case (Collect j)
    show ?thesis
    proof (cases "j < length (m_buckets (cy_hash s))")
      case True
      then show ?thesis
        using assms(3,4) sweep_at_consumed [OF assms(1), of j "cy_env c s"]
        by (auto simp: Collect counter_bucket_gc_eq sweep_at_def)
    qed (use assms(3,4) in \<open>simp add: Collect\<close>)
  next
    case (Lost i)
    then show ?thesis using assms(3) rel by simp
  qed (use assms(3,4) in \<open>auto split: if_splits option.splits\<close>)
qed

lemma counter_run_limited:
  assumes "system_ok hf s" "list_all ev_modest evs" "list_all (limited k M) evs" "consumed hf (cy_hash s) k \<le> M" "counter_run hf c evs s = Inr s'"
  shows "consumed hf (cy_hash s') k \<le> M"
  using assms
proof (induction evs arbitrary: s)
  case (Cons ev evs)
  then obtain s1 where s1: "counter_step hf c ev s = Inr s1" "system_ok hf s1" using counter_step_ok [of hf s ev c] by auto
  moreover have "consumed hf (cy_hash s1) k \<le> M"
    using counter_step_limited [OF _ _ s1(1)] Cons.prems by (simp add: system_ok_def)
  ultimately show ?case using Cons by simp
qed simp


lemma acquire_event_ok:
  assumes "good_name k" "0 < n" "n \<le> mx" "mx < 2 ^ 31" "unat mx \<le> M"
  shows "ev_modest (Request i (client_acquire k n mx j))" "limited k' M (Request i (client_acquire k n mx j))"
  using client_acquire_parse [OF assms(1-3), of j] assms(4,5) by (simp_all add: modest_def)


section \<open>Counters out of use disappear\<close>

lemma idle_when_unused:
  assumes "system_ok hf s" "cy_conns s = Map.empty" "hm_lookup hf (cy_hash s) k = Some ob" "co_last_updated ob < nearest_boundary (cc_stat_interval c) t"
  shows "idle (cy_env c (s\<lparr>cy_now := t\<rparr>)) ob"
proof -
  have "consumed hf (cy_hash s) k = 0" using assms(1,2) by (simp add: system_ok_def acquired_total_def)
  then show ?thesis using assms(3,4) by (simp add: consumed_def co_deletable_def cy_env_def unat_eq_zero)
qed

text \<open>Collecting the first buckets empties them and leaves the others as they are.\<close>

lemma collect_prefix:
  assumes "j \<le> length (m_buckets (cy_hash s))" "\<And>k ob. (k, ob) \<in> set (hm_items (cy_hash s)) \<Longrightarrow> idle (cy_env c s) ob"
  shows "\<exists>s'. counter_run hf c (map Collect [0..<j]) s = Inr s' \<and> cy_now s' = cy_now s \<and> m_size (cy_hash s') = m_size (cy_hash s) \<and>
    m_buckets (cy_hash s') = replicate j [] @ drop j (m_buckets (cy_hash s))"
  using assms(1)
proof (induction j)
  case (Suc j)
  have run_snoc: "counter_run hf c (xs @ [ev]) s = bind_res (counter_run hf c xs s) (counter_step hf c ev)" for xs ev
    by (induction xs arbitrary: s) (auto simp: bind_res_def split: sum.splits)
  obtain s1 where s1: "counter_run hf c (map Collect [0..<j]) s = Inr s1" "cy_now s1 = cy_now s" "m_size (cy_hash s1) = m_size (cy_hash s)"
    "m_buckets (cy_hash s1) = replicate j [] @ drop j (m_buckets (cy_hash s))"
    using Suc by auto
  let ?b = "m_buckets (cy_hash s) ! j"
  have b: "m_buckets (cy_hash s1) ! j = ?b" "j < length (m_buckets (cy_hash s1))" using s1(4) Suc.prems by (simp_all add: nth_append)
  have env: "cy_env c s1 = cy_env c s" by (simp add: cy_env_def s1(2))
  have "(k, ob) \<in> set (hm_items (cy_hash s))" if "(k, ob) \<in> set ?b" for k ob
    using that Suc.prems by (auto simp: hm_items_def)
  then have "sweep_bucket (idle (cy_env c s1)) id ?b = []" using assms(2) by (auto simp: sweep_bucket_def env filter_empty_conv)
  then show ?case
    using s1 b Suc.prems by (simp add: run_snoc counter_bucket_gc_eq list_update_append Cons_nth_drop_Suc [symmetric] replicate_append_same)
qed simp

text \<open>No counter was used at or after \<open>b\<close>.\<close>

definition used_before :: "(string \<Rightarrow> u64) \<Rightarrow> time_t \<Rightarrow> counter_object hash_map \<Rightarrow> bool" where
  "used_before hf b m \<longleftrightarrow> (\<forall>k ob. hm_lookup hf m k = Some ob \<longrightarrow> co_last_updated ob < b)"

lemma used_before_apply:
  assumes "hm_invar hf m" "used_before hf b m" "hash_map_apply hf k (Some h) c m s = Inr (q, m', s')"
    "\<And>ob r ob' t. h k ob s = Inr (r, ob', t) \<Longrightarrow> co_last_updated ob < b \<Longrightarrow> co_last_updated ob' < b"
    "\<And>f ob t. c = Some f \<Longrightarrow> f k s = Inr (ob, t) \<Longrightarrow> co_last_updated ob < b"
  shows "used_before hf b m' \<and> hm_invar hf m'"
  using hm.apply_preserves [OF assms(1,3), of "\<lambda>_ ob. co_last_updated ob < b" "\<lambda>_. True"] assms(2,4,5)
    hm.apply_InrD [OF assms(1,3)]
  unfolding used_before_def by blast

lemma used_before_execute:
  assumes "hm_invar hf m" "used_before hf b m" "cn_now e < b" "counter_execute hf e r m s = Inr (m', s')"
  shows "used_before hf b m'"
proof -
  note ap = used_before_apply [OF assms(1,2)]
  have get: "used_before hf b m1" if "counter_cmd_get hf r m t = Inr (m1, t1)" for m1 t t1
    using that ap [where h = "cmd_get_handler r" and c = None and s = t] unfolding counter_cmd_get_def
    by (auto simp: cmd_get_handler_def split: if_splits)
  have rel: "used_before hf b m1" if "counter_cmd_release hf e r m t = Inr (m1, t1)" for m1 t t1
    using that assms(3) ap [where h = "cmd_release_handler e r" and c = None and s = t] unfolding counter_cmd_release_def
    by (fastforce simp: cmd_release_handler_def co_release_def split: if_splits prod.splits)
  have acq: "used_before hf b m1" if "counter_cmd_acquire hf e r m t = Inr (m1, t1)" for m1 t t1
    using that assms(3) ap [where h = "cmd_acquire_handler e r" and c = "Some (cmd_acquire_creator e r)" and s = t] unfolding counter_cmd_acquire_def
    by (fastforce simp: cmd_acquire_handler_def cmd_acquire_creator_def co_acquire_def counter_object_ctor_def Let_def split: if_splits prod.splits)
  have dump: "m1 = m" if "counter_cmd_dump e r m t = Inr (m1, t1)" for m1 t t1
    using that cmd_dump_foreach [of e r m t] by (auto simp: counter_cmd_dump_def)
  show ?thesis
    using assms(2,4) unfolding counter_execute_def Let_def by (auto split: if_splits dest: get rel acq dump)
qed

lemma used_before_release:
  "hm_invar hf m \<Longrightarrow> used_before hf b m \<Longrightarrow> cn_now e < b \<Longrightarrow> release_entries hf e acq m = Inr m' \<Longrightarrow> used_before hf b m'"
proof (induction acq arbitrary: m)
  case (Cons x acq)
  obtain k n where x: "x = (k, n)" by (cases x)
  obtain m1 where a: "hash_map_apply hf k (Some (release_handler e n)) None m () = Inr (True, m1, ())" "release_entries hf e acq m1 = Inr m'"
    using Cons.prems(4) by (auto simp: x split: if_splits)
  have "co_last_updated ob' < b" if "release_handler e n k ob () = Inr (q, ob', t)" "co_last_updated ob < b" for ob q ob' t
    using that Cons.prems(3) by (auto simp: release_handler_def co_release_def split: if_splits)
  then have "used_before hf b m1 \<and> hm_invar hf m1" by (intro used_before_apply [OF Cons.prems(1,2) a(1)]) auto
  then show ?case using Cons.IH Cons.prems(3) a(2) by blast
qed simp

fun clock_before :: "time_t \<Rightarrow> counter_happening \<Rightarrow> bool" where
  "clock_before b (Clock t) = (t < b)"
| "clock_before b _ = True"

lemma used_before_step:
  assumes inv: "hm_invar hf (cy_hash s)" and u: "used_before hf b (cy_hash s)" and "cy_now s < b" "clock_before b ev" "counter_step hf c ev s = Inr s'"
  shows "used_before hf b (cy_hash s') \<and> cy_now s' < b"
proof -
  have e: "cn_now (cy_env c s) < b" using assms(3) by (simp add: cy_env_def)
  have now: "cy_now s1 = cy_now s" if "on_connection i code s = Inr s1" for i code s1
    using that by (auto simp: on_connection_def split: option.splits)
  have rel: "used_before hf b (cy_hash s1)" if "on_connection i (release_all hf (cy_env c s)) s = Inr s1" for i s1
    by (rule on_connection_hash [where P = "used_before hf b", OF that u]) (auto simp: release_all_def dest: used_before_release [OF inv u e])
  have ex: "used_before hf b (cy_hash s1)" if "on_connection i (counter_execute hf (cy_env c s) r) s = Inr s1" for i r s1
    by (rule on_connection_hash [where P = "used_before hf b", OF that u]) (rule used_before_execute [OF inv u e])
  show ?thesis
  proof (cases ev)
    case (Request i p)
    then show ?thesis using assms(3,5) u now ex by (auto simp: Let_def split: if_splits)
  next
    case (Collect j)
    have "used_before hf b (sweep_at j dead id (cy_hash s))" for dead
      using u by (auto simp: used_before_def sweep_at_lookup [OF inv] split: option.splits if_splits)
    then show ?thesis using assms(3,5) u by (auto simp: Collect counter_bucket_gc_eq sweep_at_def split: if_splits)
  next
    case (Lost i)
    then show ?thesis using assms(3,5) now rel by auto
  next
    case (Destroyed i)
    then show ?thesis using assms(3,5) now rel by (auto simp: counter_socket_dtor_def [abs_def])
  qed (use assms(3-) u in \<open>auto split: if_splits option.splits\<close>)
qed

lemma used_before_run:
  assumes "system_ok hf s" "list_all ev_modest evs" "list_all (clock_before b) evs" "used_before hf b (cy_hash s)" "cy_now s < b"
    "counter_run hf c evs s = Inr s'"
  shows "used_before hf b (cy_hash s')"
  using assms
proof (induction evs arbitrary: s)
  case (Cons ev evs)
  then obtain s1 where s1: "counter_step hf c ev s = Inr s1" "system_ok hf s1" using counter_step_ok [of hf s ev c] by auto
  moreover have "used_before hf b (cy_hash s1) \<and> cy_now s1 < b"
    using used_before_step [OF _ _ _ _ s1(1)] Cons.prems by (simp add: system_ok_def)
  ultimately show ?case using Cons by simp
qed simp

text \<open>
  C13: once every connection is gone, the first collection in a later interval removes all counters: nothing that clients did
  can leave a counter behind for ever.
\<close>

theorem counter_drains:
  assumes "list_all ev_modest evs" "counter_run hf c evs (counter_start c) = Inr s" "cy_conns s = Map.empty"
    "list_all (clock_before (nearest_boundary (cc_stat_interval c) t)) evs" "0 < nearest_boundary (cc_stat_interval c) t"
  shows "\<exists>s'. counter_run hf c (Clock t # map Collect [0..<m_size (cy_hash s)]) s = Inr s' \<and> hm_items (cy_hash s') = []"
proof -
  let ?s = "s\<lparr>cy_now := t\<rparr>" and ?b = "nearest_boundary (cc_stat_interval c) t"
  have ok: "system_ok hf s" using counter_run_ok [OF counter_start_ok [of hf c] assms(1), of c] assms(2) by auto
  then have inv: "hm_invar hf (cy_hash s)" by (simp add: system_ok_def)
  have u: "used_before hf ?b (cy_hash s)"
    by (rule used_before_run [OF counter_start_ok assms(1,4) _ _ assms(2)])
      (use assms(5) in \<open>simp_all add: counter_start_def counter_handler_ctor_def used_before_def hm_lookup_ctor\<close>)
  have "idle (cy_env c ?s) ob" if "(k, ob) \<in> set (hm_items (cy_hash s))" for k ob
    using idle_when_unused [OF ok assms(3) hm_items_lookup [OF inv that]] hm_items_lookup [OF inv that] u unfolding used_before_def by blast
  then obtain s' where "counter_run hf c (map Collect [0..<m_size (cy_hash s)]) ?s = Inr s'"
    "m_buckets (cy_hash s') = replicate (m_size (cy_hash s)) [] @ drop (m_size (cy_hash s)) (m_buckets (cy_hash s))"
    using collect_prefix [of "m_size (cy_hash s)" ?s c hf] inv by (auto simp: hm_invar_def)
  then show ?thesis using inv by (simp add: hm_items_def hm_invar_def)
qed

lemma on_connection_dom: "on_connection i code s = Inr s' \<Longrightarrow> dom (cy_conns s') = dom (cy_conns s)"
  by (auto simp: on_connection_def split: option.splits if_splits)

theorem counter_drains_witness:
  "\<exists>s s'. counter_run (\<lambda>_. 0) counter_config_default [Connect 1, Request 1 (client_acquire ''a'' 2 3 7), Destroyed 1]
      (counter_start counter_config_default) = Inr s \<and>
    counter_run (\<lambda>_. 0) counter_config_default (Clock 100000 # map Collect [0..<m_size (cy_hash s)]) s = Inr s' \<and> hm_items (cy_hash s') = []"
proof -
  let ?c = counter_config_default and ?r = "Request 1 (client_acquire ''a'' 2 3 7)"
  have "good_name ''a''" by (simp add: good_name_def)
  then have m: "list_all ev_modest [Connect 1, ?r, Destroyed 1]" using acquire_event_ok(1) [of "''a''" 2 3 3] by simp
  obtain s where s: "counter_run (\<lambda>_. 0) ?c [Connect 1, ?r, Destroyed 1] (counter_start ?c) = Inr s"
    using counter_run_ok [OF counter_start_ok m] by blast
  then obtain s1 s2 s3 where st: "counter_step (\<lambda>_. 0) ?c (Connect 1) (counter_start ?c) = Inr s1"
    "counter_step (\<lambda>_. 0) ?c ?r s1 = Inr s2" "counter_step (\<lambda>_. 0) ?c (Destroyed 1) s2 = Inr s" by auto
  have "dom (cy_conns s1) \<subseteq> {1}" using st(1) by (auto simp: counter_start_def split: option.splits if_splits)
  moreover have "dom (cy_conns s2) = dom (cy_conns s1)" using st(2) by (auto simp: Let_def on_connection_dom split: if_splits)
  moreover obtain s3 where "on_connection 1 (counter_socket_dtor (\<lambda>_. 0) (cy_env ?c s2)) s2 = Inr s3" "cy_conns s = (cy_conns s3)(1 := None)"
    using st(3) by auto
  ultimately have e: "cy_conns s = Map.empty" using on_connection_dom by fastforce
  have "nearest_boundary (cc_stat_interval ?c) 100000 = 86400"
    by (simp add: nearest_boundary_def sdiv_nonneg counter_config_default_def DEFAULT_STAT_INTERVAL_def)
  then have "list_all (clock_before (nearest_boundary (cc_stat_interval ?c) 100000)) [Connect 1, ?r, Destroyed 1]"
    "0 < nearest_boundary (cc_stat_interval ?c) 100000" by simp_all
  from counter_drains [OF m s e this] s show ?thesis by blast
qed

section \<open>Limits above half of the range\<close>

lemma execute_acquire:
  assumes inv: "hm_invar hf m" and r: "cr_status r = CS_OK" "cr_command r = Cmd_Acquire" "cr_name r = k" "cr_resources r = n"
    and "\<And>ob. hm_lookup hf m k = Some ob \<Longrightarrow> co_consumption ob + n \<le> cr_maximum r"
  shows "\<exists>m' t' ob'. counter_execute hf e r m t = Inr (m', t') \<and> hm_invar hf m' \<and> hm_lookup hf m' = (hm_lookup hf m)(k \<mapsto> ob') \<and>
    cs_acquired t' = on_acquire k n (cs_acquired t) \<and>
    co_consumption ob' = (case hm_lookup hf m k of None \<Rightarrow> n | Some ob \<Rightarrow> co_consumption ob + n)"
proof -
  let ?t = "count_op Cmd_Acquire t"
  have "\<exists>ob' t'. map_apply k (Some (cmd_acquire_handler e r)) (Some (cmd_acquire_creator e r)) (hm_lookup hf m) ?t =
      Inr (True, (hm_lookup hf m)(k \<mapsto> ob'), t') \<and> cs_acquired t' = on_acquire k n (cs_acquired t) \<and>
      co_consumption ob' = (case hm_lookup hf m k of None \<Rightarrow> n | Some ob \<Rightarrow> co_consumption ob + n)"
  proof (cases "hm_lookup hf m k")
    case None
    then have "\<exists>t'. map_apply k (Some (cmd_acquire_handler e r)) (Some (cmd_acquire_creator e r)) (hm_lookup hf m) ?t =
        Inr (True, (hm_lookup hf m)(k \<mapsto> counter_object_ctor (cn_now e) n), t') \<and> cs_acquired t' = on_acquire k n (cs_acquired t)"
      using r(4) by (simp add: map_apply_def cmd_acquire_creator_def Let_def)
    then show ?thesis using None by (auto simp: counter_object_ctor_def intro!: exI [of _ "counter_object_ctor (cn_now e) n"])
  next
    case (Some ob)
    then have "\<exists>ob' t'. cmd_acquire_handler e r k ob ?t = Inr (True, ob', t') \<and> cs_acquired t' = on_acquire k n (cs_acquired t) \<and>
        co_consumption ob' = co_consumption ob + n"
      using leD [OF assms(6) [OF Some]] r(4) by (simp add: cmd_acquire_handler_def co_acquire_def)
    then show ?thesis using Some by (auto simp: map_apply_def)
  qed
  then obtain ob' t' where a: "map_apply k (Some (cmd_acquire_handler e r)) (Some (cmd_acquire_creator e r)) (hm_lookup hf m) ?t =
      Inr (True, (hm_lookup hf m)(k \<mapsto> ob'), t')" "cs_acquired t' = on_acquire k n (cs_acquired t)"
      "co_consumption ob' = (case hm_lookup hf m k of None \<Rightarrow> n | Some ob \<Rightarrow> co_consumption ob + n)"
    by blast
  from hm.apply_InrI [OF inv a(1)] obtain m' where
    "hash_map_apply hf k (Some (cmd_acquire_handler e r)) (Some (cmd_acquire_creator e r)) m ?t = Inr (True, m', t')"
    "hm_lookup hf m' = (hm_lookup hf m)(k \<mapsto> ob')" "hm_invar hf m'"
    by blast
  moreover have "counter_execute hf e r m t = counter_cmd_acquire hf e r m ?t"
    by (simp add: counter_execute_def r counter_commands)
  ultimately show ?thesis using a(2,3) r(3) by (auto simp: counter_cmd_acquire_def)
qed

text \<open>A request of connection \<open>i\<close> that acquires \<open>n\<close> of counter \<open>k\<close>.\<close>

lemma acquire_step:
  assumes "hm_invar hf (cy_hash s)" "cy_conns s i = Some acq" "good_name k" "0 < n" "n \<le> mx"
    "\<And>ob. hm_lookup hf (cy_hash s) k = Some ob \<Longrightarrow> co_consumption ob + n \<le> mx"
  shows "\<exists>s' ob'. counter_step hf c (Request i (client_acquire k n mx x)) s = Inr s' \<and> hm_invar hf (cy_hash s') \<and>
    hm_lookup hf (cy_hash s') = (hm_lookup hf (cy_hash s))(k \<mapsto> ob') \<and> cy_conns s' = (cy_conns s)(i \<mapsto> on_acquire k n acq) \<and>
    co_consumption ob' = (case hm_lookup hf (cy_hash s) k of None \<Rightarrow> n | Some ob \<Rightarrow> co_consumption ob + n)"
proof -
  let ?r = "counter_parse (client_acquire k n mx x)" and ?t = "\<lparr>cs_stats = cy_stats s, cs_acquired = acq, cs_outs = []\<rparr>"
  note p = client_acquire_parse [OF assms(3-5), of x]
  have l: "cr_length ?r \<noteq> 0" unfolding p by (simp add: client_acquire_def)
  obtain m' t' ob' where "counter_execute hf (cy_env c s) ?r (cy_hash s) ?t = Inr (m', t')" "hm_invar hf m'"
    "hm_lookup hf m' = (hm_lookup hf (cy_hash s))(k \<mapsto> ob')" "cs_acquired t' = on_acquire k n acq"
    "co_consumption ob' = (case hm_lookup hf (cy_hash s) k of None \<Rightarrow> n | Some ob \<Rightarrow> co_consumption ob + n)"
    using execute_acquire [OF assms(1), of ?r k n "cy_env c s" ?t] assms(6) p by auto
  then show ?thesis using l assms(2) by (auto simp: on_connection_def Let_def)
qed

text \<open>
  C40: without the bound on limits the sum of the consumption and the resources asked for wraps around, so that the check of the
  limit passes: after one connection has acquired \<open>n\<close>, another may acquire $2^{32} - n$, the consumption is zero, and
  the release of the resources of the first connection throws, which ends the process.
\<close>

theorem counter_overflow:
  assumes "good_name k" "n \<noteq> 0" "- n \<le> mx" "i \<noteq> j" "cc_max_connections c = 0"
  shows "counter_run hf c [Connect i, Connect j, Request i (client_acquire k n n x), Request j (client_acquire k (- n) mx y), Destroyed i]
    (counter_start c) = Inl (Logic_error ''<counter_socket::release_all> release failed'')"
proof -
  let ?m = "cy_hash (counter_start c)"
  have m: "hm_invar hf ?m" "hm_lookup hf ?m = Map.empty"
    by (simp_all add: counter_start_def counter_handler_ctor_def hm_invar_ctor hm_lookup_ctor)
  obtain s2 where s2: "counter_run hf c [Connect i, Connect j] (counter_start c) = Inr s2" "cy_hash s2 = ?m" "cy_conns s2 = [i \<mapsto> [], j \<mapsto> []]"
    using assms(4,5) by (simp add: counter_start_def make_counter_socket_def counter_socket_ctor_def Let_def)
  have pos: "0 < n" "0 < - n" using assms(2) by (simp_all add: word_gt_0)
  obtain s3 ob3 where s3: "counter_step hf c (Request i (client_acquire k n n x)) s2 = Inr s3" "hm_invar hf (cy_hash s3)"
    "hm_lookup hf (cy_hash s3) = [k \<mapsto> ob3]" "cy_conns s3 = [i \<mapsto> [(k, n)], j \<mapsto> []]" "co_consumption ob3 = n"
    using acquire_step [of hf s2 i "[]" k n n c x] m s2(2,3) assms(1,4) pos by (auto simp: on_acquire_def fun_upd_twist)
  obtain s4 ob4 where s4: "counter_step hf c (Request j (client_acquire k (- n) mx y)) s3 = Inr s4" "hm_invar hf (cy_hash s4)"
    "hm_lookup hf (cy_hash s4) = [k \<mapsto> ob4]" "cy_conns s4 i = Some [(k, n)]" "co_consumption ob4 = 0"
    using acquire_step [of hf s3 j "[]" k "- n" mx c y] s3 assms(1,3,4) pos by (auto simp: on_acquire_def)
  let ?e = "cy_env c s4"
  have "map_apply k (Some (release_handler ?e n)) None (hm_lookup hf (cy_hash s4)) () = Inl (Logic_error ''<counter_socket::release_all> release failed'')"
    using s4(3,5) pos by (simp add: map_apply_def release_handler_def co_release_def)
  then have "hash_map_apply hf k (Some (release_handler ?e n)) None (cy_hash s4) () = Inl (Logic_error ''<counter_socket::release_all> release failed'')"
    by (simp only: hm.apply_Inl_iff [OF s4(2)])
  then have "counter_step hf c (Destroyed i) s4 = Inl (Logic_error ''<counter_socket::release_all> release failed'')"
    using s4(4) by (simp add: on_connection_def counter_socket_dtor_def release_all_def)
  then show ?thesis using s2(1) s3(1) s4(1) by (auto simp del: counter_step.simps)
qed

theorem counter_overflow_witness:
  "counter_run (\<lambda>_. 0) counter_config_default
     [Connect 1, Connect 2, Request 1 (client_acquire ''a'' (- 1) (- 1) 7), Request 2 (client_acquire ''a'' 1 1 8), Destroyed 1]
     (counter_start counter_config_default) = Inl (Logic_error ''<counter_socket::release_all> release failed'')"
proof -
  have "good_name ''a''" "(- 1 :: u32) \<noteq> 0" "- (- 1) \<le> (1 :: u32)" "(1 :: nat) \<noteq> 2" "cc_max_connections counter_config_default = 0"
    by (simp_all add: good_name_def counter_config_default_def)
  from counter_overflow [OF this, of "\<lambda>_. 0" 7 8] show ?thesis by (simp only: minus_minus)
qed

end
