(* ===== verification/Reactor.thy ===== *)
theory Reactor
  imports Prelude
begin

text \<open>
  Models \<^verbatim>\<open>cybozu/reactor.hpp\<close> and \<^verbatim>\<open>cybozu/reactor.cpp\<close>: the resources, which other threads may use and invalidate, and the
  reactor, which owns them, polls their descriptors and collects them once they are invalid.

  A resource lives at an address of the heap \<open>re_objs\<close>; an address without a resource has been freed, and using it is the
  fault \<open>Dangling\<close>.  Calling through the null pointer that \<^verbatim>\<open>m_resources[fd]\<close> yields for an unknown descriptor
  is the fault \<open>Null\<close>.  The kernel's open descriptors and the interest list of the epoll descriptor are
  part of the state, since \<^verbatim>\<open>epoll_ctl\<close> fails on a descriptor it does not know.  The hooks of the
  subclasses and \<^verbatim>\<open>epoll_wait\<close> are arguments; whatever other threads do while the reactor is in one of them is part
  of it.
\<close>

section \<open>Resources\<close>

datatype fault = Throws exn | Dangling | Null

text \<open>\<open>rs_readers\<close> counts the threads that hold the read lock, \<open>rs_sub\<close> are the members of the subclass.\<close>

record 'o resource =
  rs_fd :: nat
  rs_valid :: bool
  rs_closed :: bool
  rs_readers :: nat
  rs_attached :: bool
  rs_sub :: 'o

record 'o reactor =
  re_objs :: "nat \<rightharpoonup> 'o resource"
  re_open :: "nat set"
  re_epoll :: "nat set"
  re_running :: bool
  re_resources :: "nat \<rightharpoonup> nat"
  re_readables :: "nat list"
  re_drop_req :: "nat list"
  re_garbage :: "nat list"
  re_garbage_copy :: "nat list"

type_synonym 's hook = "nat \<Rightarrow> 's \<Rightarrow> fault + (bool \<times> 's)"

definition resource_ctor :: "nat \<Rightarrow> 'o \<Rightarrow> 'o resource" where
  "resource_ctor fd sub = \<lparr>rs_fd = fd, rs_valid = True, rs_closed = False, rs_readers = 0, rs_attached = False, rs_sub = sub\<rparr>"

definition reactor_ctor :: "'o reactor" where
  "reactor_ctor =
     \<lparr>re_objs = Map.empty, re_open = {}, re_epoll = {}, re_running = True, re_resources = Map.empty, re_readables = [], re_drop_req = [],
      re_garbage = [], re_garbage_copy = []\<rparr>"

definition deref :: "nat \<Rightarrow> ('o, 'z) reactor_scheme \<Rightarrow> fault + 'o resource" where
  "deref x s = (case re_objs s x of None \<Rightarrow> Inl Dangling | Some r \<Rightarrow> Inr r)"

definition put :: "nat \<Rightarrow> 'o resource \<Rightarrow> ('o, 'z) reactor_scheme \<Rightarrow> ('o, 'z) reactor_scheme" where
  "put x r s = s\<lparr>re_objs := (re_objs s)(x \<mapsto> r)\<rparr>"

text \<open>Closing a descriptor also takes it from the interest list.\<close>

definition close_fd :: "nat \<Rightarrow> ('o, 'z) reactor_scheme \<Rightarrow> ('o, 'z) reactor_scheme" where
  "close_fd fd s = s\<lparr>re_open := re_open s - {fd}, re_epoll := re_epoll s - {fd}\<rparr>"

definition resource_dtor :: "nat \<Rightarrow> ('o, 'z) reactor_scheme \<Rightarrow> fault + ('o, 'z) reactor_scheme" where
  "resource_dtor x s =
     bind_res (deref x s) (\<lambda>r.
       let s' = (if \<not> rs_closed r then close_fd (rs_fd r) s else s) in Inr (s'\<lparr>re_objs := (re_objs s')(x := None)\<rparr>))"

definition valid :: "nat \<Rightarrow> ('o, 'z) reactor_scheme \<Rightarrow> fault + bool" where
  "valid x s = bind_res (deref x s) (\<lambda>r. Inr (rs_valid r))"

text \<open>\<open>hook\<close> is the overridden \<^verbatim>\<open>on_invalidate\<close>.\<close>

definition resource_invalidate ::
  "(nat \<Rightarrow> ('o, 'z) reactor_scheme \<Rightarrow> ('o, 'z) reactor_scheme) \<Rightarrow> ('o, 'z) reactor_scheme hook" where
  "resource_invalidate hook x s =
     bind_res (deref x s) (\<lambda>r.
       if \<not> rs_valid r then Inr (True, s) else Inr (False, hook x (put x (r\<lparr>rs_valid := False\<rparr>) s)))"

definition request_removal :: "nat \<Rightarrow> ('o, 'z) reactor_scheme \<Rightarrow> fault + ('o, 'z) reactor_scheme" where
  "request_removal x s = bind_res (deref x s) (\<lambda>r. Inr (s\<lparr>re_drop_req := re_drop_req s @ [rs_fd r]\<rparr>))"

definition do_invalidate_and_close ::
  "(nat \<Rightarrow> ('o, 'z) reactor_scheme \<Rightarrow> ('o, 'z) reactor_scheme) \<Rightarrow> nat \<Rightarrow> ('o, 'z) reactor_scheme \<Rightarrow>
     fault + ('o, 'z) reactor_scheme" where
  "do_invalidate_and_close hook x s =
     bind_res (deref x s) (\<lambda>r.
       if \<not> rs_valid r then Inr s else request_removal x (hook x (put x (r\<lparr>rs_valid := False\<rparr>) s)))"

text \<open>
  \<^verbatim>\<open>with_fd\<close> of another thread, in two parts, since the reactor may act while the callback runs: taking the read lock, and what
  follows the callback, whose result is \<open>keep\<close>.
\<close>

definition with_fd_begin :: "('o, 'z) reactor_scheme hook" where
  "with_fd_begin x s =
     bind_res (deref x s) (\<lambda>r.
       if \<not> rs_valid r then Inr (False, s) else Inr (True, put x (r\<lparr>rs_readers := rs_readers r + 1\<rparr>) s))"

definition with_fd_end ::
  "(nat \<Rightarrow> ('o, 'z) reactor_scheme \<Rightarrow> ('o, 'z) reactor_scheme) \<Rightarrow> bool \<Rightarrow> nat \<Rightarrow> ('o, 'z) reactor_scheme \<Rightarrow>
     fault + ('o, 'z) reactor_scheme" where
  "with_fd_end hook keep x s =
     bind_res (if keep then Inr s else do_invalidate_and_close hook x s) (\<lambda>s'.
       bind_res (deref x s') (\<lambda>r. Inr (put x (r\<lparr>rs_readers := rs_readers r - 1\<rparr>) s')))"

definition try_close :: "('o, 'z) reactor_scheme hook" where
  "try_close x s =
     bind_res (deref x s) (\<lambda>r.
       if rs_readers r > 0 then Inr (False, s)
       else if \<not> rs_closed r then Inr (True, put x (r\<lparr>rs_closed := True\<rparr>) (close_fd (rs_fd r) s))
       else Inr (True, s))"

section \<open>The reactor\<close>

definition quit :: "('o, 'z) reactor_scheme \<Rightarrow> ('o, 'z) reactor_scheme" where
  "quit s = s\<lparr>re_running := False\<rparr>"

definition add_readable :: "nat \<Rightarrow> ('o, 'z) reactor_scheme \<Rightarrow> fault + ('o, 'z) reactor_scheme" where
  "add_readable x s = bind_res (deref x s) (\<lambda>r. Inr (s\<lparr>re_readables := re_readables s @ [rs_fd r]\<rparr>))"

definition has_garbage :: "('o, 'z) reactor_scheme \<Rightarrow> bool" where
  "has_garbage s \<longleftrightarrow> re_garbage s \<noteq> []"

text \<open>The resource was allocated at \<open>x\<close>.  An entry that exists is kept, and the new resource destroyed.\<close>

definition add_resource :: "nat \<Rightarrow> ('o, 'z) reactor_scheme \<Rightarrow> fault + ('o, 'z) reactor_scheme" where
  "add_resource x s =
     bind_res (deref x s) (\<lambda>r.
       if rs_attached r then Inl (Throws (Logic_error ''<reactor::add_resource> already added!''))
       else if rs_fd r \<notin> re_open s \<or> rs_fd r \<in> re_epoll s then Inl (Throws (Runtime_error ''epoll_ctl''))
       else (let s' = (put x (r\<lparr>rs_attached := True\<rparr>) s)\<lparr>re_epoll := insert (rs_fd r) (re_epoll s)\<rparr>
             in if re_resources s (rs_fd r) \<noteq> None then resource_dtor x s'
                else Inr (s'\<lparr>re_resources := (re_resources s)(rs_fd r \<mapsto> x)\<rparr>)))"

definition remove_resource :: "nat \<Rightarrow> ('o, 'z) reactor_scheme \<Rightarrow> fault + ('o, 'z) reactor_scheme" where
  "remove_resource fd s =
     (case re_resources s fd of
        None \<Rightarrow> Inl (Throws (Logic_error ''bug in remove_resource''))
      | Some x \<Rightarrow>
          (let s1 = s\<lparr>re_garbage := re_garbage s @ [x], re_resources := (re_resources s)(fd := None)\<rparr>
           in if fd \<notin> re_epoll s1 then Inl (Throws (Runtime_error ''epoll_ctl(EPOLL_CTL_DEL)''))
              else (let s2 = s1\<lparr>re_epoll := re_epoll s1 - {fd}, re_readables := removeAll fd (re_readables s1)\<rparr>
                    in bind_res (try_close x s2) (\<lambda>(ok, s3). Inr s3))))"

fun try_close_all :: "nat list \<Rightarrow> ('o, 'z) reactor_scheme \<Rightarrow> fault + ('o, 'z) reactor_scheme" where
  "try_close_all [] s = Inr s"
| "try_close_all (x # xs) s = bind_res (try_close x s) (\<lambda>(ok, s'). try_close_all xs s')"

definition fix_garbage :: "('o, 'z) reactor_scheme \<Rightarrow> fault + (bool \<times> ('o, 'z) reactor_scheme)" where
  "fix_garbage s =
     (if re_garbage_copy s \<noteq> [] then Inl (Throws (Logic_error ''No gc() was called after fix_garbage()!''))
      else if re_garbage s = [] then Inr (False, s)
      else bind_res (try_close_all (re_garbage s) (s\<lparr>re_garbage_copy := re_garbage s, re_garbage := []\<rparr>)) (\<lambda>s'. Inr (True, s')))"

fun destroy_all :: "nat list \<Rightarrow> ('o, 'z) reactor_scheme \<Rightarrow> fault + ('o, 'z) reactor_scheme" where
  "destroy_all [] s = Inr s"
| "destroy_all (x # xs) s = bind_res (resource_dtor x s) (destroy_all xs)"

definition reactor_gc :: "('o, 'z) reactor_scheme \<Rightarrow> fault + ('o, 'z) reactor_scheme" where
  "reactor_gc s = bind_res (destroy_all (re_garbage_copy s) s) (\<lambda>s'. Inr (s'\<lparr>re_garbage_copy := []\<rparr>))"

section \<open>Polling\<close>

record epoll_event =
  ev_fd :: nat
  ev_err :: bool
  ev_hup :: bool
  ev_in :: bool
  ev_out :: bool

datatype wait_answer = Wait_intr | Wait_error | Events "epoll_event list"

definition POLLING_TIMEOUT :: nat where "POLLING_TIMEOUT = 100"

text \<open>The overridden hooks, and \<^verbatim>\<open>epoll_wait\<close> with its timeout.\<close>

record 's hooks =
  on_readable :: "'s hook"
  on_writable :: "'s hook"
  on_hangup :: "'s hook"
  on_error :: "'s hook"
  epoll_wait :: "nat \<Rightarrow> 's \<Rightarrow> wait_answer \<times> 's"

text \<open>Call a hook of the resource at \<open>x\<close>, and remove the resource if the hook returns false.\<close>

definition hook_or_remove :: "('o, 'z) reactor_scheme hook \<Rightarrow> nat \<Rightarrow> ('o, 'z) reactor_scheme hook" where
  "hook_or_remove h fd x s =
     bind_res (deref x s) (\<lambda>_.
       bind_res (h x s) (\<lambda>(ok, s').
         if ok then Inr (True, s') else bind_res (remove_resource fd s') (\<lambda>s''. Inr (False, s''))))"

fun poll_readables :: "('o, 'z) reactor_scheme hooks \<Rightarrow> nat list \<Rightarrow> ('o, 'z) reactor_scheme \<Rightarrow> fault + ('o, 'z) reactor_scheme" where
  "poll_readables hooks [] s = Inr s"
| "poll_readables hooks (fd # fds) s =
     (case re_resources s fd of
        None \<Rightarrow> Inl Null
      | Some x \<Rightarrow> bind_res (hook_or_remove (on_readable hooks) fd x s) (\<lambda>(ok, s'). poll_readables hooks fds s'))"

fun remove_resources :: "nat list \<Rightarrow> ('o, 'z) reactor_scheme \<Rightarrow> fault + ('o, 'z) reactor_scheme" where
  "remove_resources [] s = Inr s"
| "remove_resources (fd # fds) s = bind_res (remove_resource fd s) (remove_resources fds)"

definition hook_if :: "bool \<Rightarrow> ('o, 'z) reactor_scheme hook \<Rightarrow> nat \<Rightarrow> ('o, 'z) reactor_scheme hook" where
  "hook_if c h fd x s = (if c then hook_or_remove h fd x s else Inr (True, s))"

definition poll_event :: "('o, 'z) reactor_scheme hooks \<Rightarrow> epoll_event \<Rightarrow> ('o, 'z) reactor_scheme \<Rightarrow> fault + ('o, 'z) reactor_scheme" where
  "poll_event hooks ev s =
     (case re_resources s (ev_fd ev) of
        None \<Rightarrow> Inl Null
      | Some x \<Rightarrow>
          if ev_err ev then bind_res (hook_or_remove (on_error hooks) (ev_fd ev) x s) (\<lambda>(ok, s'). Inr s')
          else
            bind_res (hook_if (ev_hup ev) (on_hangup hooks) (ev_fd ev) x s) (\<lambda>(ok, s1).
            if \<not> ok then Inr s1 else
            bind_res (hook_if (ev_in ev) (on_readable hooks) (ev_fd ev) x s1) (\<lambda>(ok, s2).
            if \<not> ok then Inr s2 else
            bind_res (hook_if (ev_out ev) (on_writable hooks) (ev_fd ev) x s2) (\<lambda>(ok, s3). Inr s3))))"

fun poll_events :: "('o, 'z) reactor_scheme hooks \<Rightarrow> epoll_event list \<Rightarrow> ('o, 'z) reactor_scheme \<Rightarrow> fault + ('o, 'z) reactor_scheme" where
  "poll_events hooks [] s = Inr s"
| "poll_events hooks (ev # evs) s = bind_res (poll_event hooks ev s) (poll_events hooks evs)"

definition poll :: "('o, 'z) reactor_scheme hooks \<Rightarrow> ('o, 'z) reactor_scheme \<Rightarrow> fault + ('o, 'z) reactor_scheme" where
  "poll hooks s =
     bind_res (poll_readables hooks (remdups_adj (sort (re_readables s))) (s\<lparr>re_readables := []\<rparr>)) (\<lambda>s1.
     bind_res (remove_resources (re_drop_req s1) (s1\<lparr>re_drop_req := []\<rparr>)) (\<lambda>s2.
     let (answer, s3) = epoll_wait hooks (if re_readables s2 = [] then POLLING_TIMEOUT else 0) s2
     in case answer of
          Wait_intr \<Rightarrow> Inr s3
        | Wait_error \<Rightarrow> Inl (Throws (Runtime_error ''epoll_wait''))
        | Events evs \<Rightarrow> poll_events hooks evs s3))"

text \<open>
  The loop of \<^verbatim>\<open>run\<close>, for at most the given number of rounds; \<open>elapsed\<close> tells whether the interval has passed.
\<close>

fun run_rounds ::
  "nat \<Rightarrow> ('o, 'z) reactor_scheme hooks \<Rightarrow> (('o, 'z) reactor_scheme \<Rightarrow> bool) \<Rightarrow>
     (('o, 'z) reactor_scheme \<Rightarrow> fault + ('o, 'z) reactor_scheme) \<Rightarrow> ('o, 'z) reactor_scheme \<Rightarrow> fault + ('o, 'z) reactor_scheme" where
  "run_rounds 0 hooks elapsed callback s = Inr s"
| "run_rounds (Suc n) hooks elapsed callback s =
     (if \<not> re_running s then Inr s
      else bind_res (poll hooks s) (\<lambda>s1.
           bind_res (if elapsed s1 then callback s1 else Inr s1) (run_rounds n hooks elapsed callback)))"

section \<open>The invariant\<close>

text \<open>
  Each live resource is either registered, and then open, or garbage, and then invalid or closed; a descriptor that
  is not closed is open and belongs to one resource only; a resource is not closed while a thread uses it.  A
  resource that was removed while it was valid is \<open>stale\<close>: a use of it would find a descriptor that is closed.
\<close>

definition stale :: "'o resource \<Rightarrow> bool" where
  "stale r \<longleftrightarrow> rs_valid r \<and> rs_closed r"

definition obj_inv :: "('o, 'z) reactor_scheme \<Rightarrow> nat \<Rightarrow> 'o resource \<Rightarrow> bool" where
  "obj_inv s x r \<longleftrightarrow>
     (if re_resources s (rs_fd r) = Some x then \<not> rs_closed r else x \<in> set (re_garbage s @ re_garbage_copy s) \<and> (rs_valid r \<longrightarrow> rs_closed r)) \<and>
     (\<not> rs_closed r \<longrightarrow> rs_fd r \<in> re_open s) \<and> (rs_readers r > 0 \<longrightarrow> \<not> rs_closed r)"

definition unique_fds :: "('o, 'z) reactor_scheme \<Rightarrow> bool" where
  "unique_fds s \<longleftrightarrow>
     (\<forall>x y r r'. re_objs s x = Some r \<and> re_objs s y = Some r' \<and> \<not> rs_closed r \<and> \<not> rs_closed r' \<and> rs_fd r = rs_fd r' \<longrightarrow> x = y)"

definition invalid_fds :: "('o, 'z) reactor_scheme \<Rightarrow> nat set" where
  "invalid_fds s = {fd. \<exists>x r. re_resources s fd = Some x \<and> re_objs s x = Some r \<and> \<not> rs_valid r}"

text \<open>
  A removal is requested exactly for the registered resources that are invalid, apart from those of the
  set \<open>X\<close>, which the reactor is about to remove itself.
\<close>

definition reactor_inv :: "nat set \<Rightarrow> ('o, 'z) reactor_scheme \<Rightarrow> bool" where
  "reactor_inv X s \<longleftrightarrow>
     (\<forall>x r. re_objs s x = Some r \<longrightarrow> obj_inv s x r) \<and> unique_fds s \<and>
     (\<forall>fd x. re_resources s fd = Some x \<longrightarrow> (\<exists>r. re_objs s x = Some r \<and> rs_fd r = fd)) \<and>
     (\<forall>x \<in> set (re_garbage s @ re_garbage_copy s). \<exists>r. re_objs s x = Some r \<and> re_resources s (rs_fd r) \<noteq> Some x) \<and>
     re_epoll s = dom (re_resources s) \<and> set (re_readables s) \<subseteq> dom (re_resources s) \<and>
     distinct (re_garbage s @ re_garbage_copy s) \<and> distinct (re_drop_req s) \<and> set (re_drop_req s) \<inter> X = {} \<and>
     set (re_drop_req s) \<union> X = invalid_fds s"

lemma reactor_ctor_inv: "reactor_inv {} reactor_ctor"
  by (simp add: reactor_inv_def unique_fds_def invalid_fds_def reactor_ctor_def)

lemma reactor_invD:
  assumes "reactor_inv X s"
  shows "re_objs s x = Some r \<Longrightarrow> obj_inv s x r" "unique_fds s"
    "re_resources s fd = Some x \<Longrightarrow> \<exists>r. re_objs s x = Some r \<and> rs_fd r = fd"
    "x \<in> set (re_garbage s @ re_garbage_copy s) \<Longrightarrow> \<exists>r. re_objs s x = Some r \<and> re_resources s (rs_fd r) \<noteq> Some x"
    "re_epoll s = dom (re_resources s)" "set (re_readables s) \<subseteq> dom (re_resources s)"
    "distinct (re_garbage s @ re_garbage_copy s)" "distinct (re_drop_req s)" "set (re_drop_req s) \<inter> X = {}"
    "set (re_drop_req s) \<union> X = invalid_fds s"
  using assms by (auto simp: reactor_inv_def)

lemma reactor_invI:
  assumes "\<And>x r. re_objs s x = Some r \<Longrightarrow> obj_inv s x r" "unique_fds s"
    "\<And>fd x. re_resources s fd = Some x \<Longrightarrow> \<exists>r. re_objs s x = Some r \<and> rs_fd r = fd"
    "\<And>x. x \<in> set (re_garbage s @ re_garbage_copy s) \<Longrightarrow> \<exists>r. re_objs s x = Some r \<and> re_resources s (rs_fd r) \<noteq> Some x"
    "re_epoll s = dom (re_resources s)" "set (re_readables s) \<subseteq> dom (re_resources s)"
    "distinct (re_garbage s @ re_garbage_copy s)" "distinct (re_drop_req s)" "set (re_drop_req s) \<inter> X = {}"
    "set (re_drop_req s) \<union> X = invalid_fds s"
  shows "reactor_inv X s"
  unfolding reactor_inv_def using assms by blast

text \<open>The resources that are not stale.\<close>

definition seen :: "(nat \<rightharpoonup> 'o resource) \<Rightarrow> nat \<rightharpoonup> 'o resource" where
  "seen objs x = (case objs x of None \<Rightarrow> None | Some r \<Rightarrow> if stale r then None else Some r)"

lemma seen_Some: "seen objs x = Some r \<longleftrightarrow> objs x = Some r \<and> \<not> stale r"
  by (auto simp: seen_def split: option.split)

lemma seenD: "seen objs x = Some r \<Longrightarrow> objs x = Some r" "seen objs x = Some r \<Longrightarrow> \<not> stale r"
  by (simp_all add: seen_Some)

lemma seen_None: "objs x = None \<Longrightarrow> seen objs x = None"
  by (simp add: seen_def)

lemma seen_upd [simp]: "seen (objs(x \<mapsto> r)) = (seen objs)(x := if stale r then None else Some r)" "seen (objs(x := None)) = (seen objs)(x := None)"
  by (auto simp: seen_def)

lemma seen_restrict [simp]: "seen (objs |` A) = seen objs |` A"
  by (auto simp: seen_def restrict_map_def)

lemma stale_upd [simp]:
  "stale (r\<lparr>rs_readers := n\<rparr>) = stale r" "stale (r\<lparr>rs_sub := k\<rparr>) = stale r" "\<not> stale (r\<lparr>rs_valid := False\<rparr>)" "\<not> stale (resource_ctor fd k)"
  "stale (r\<lparr>rs_attached := a\<rparr>) = stale r"
  by (simp_all add: stale_def resource_ctor_def)

lemma unique_fds_cong: "re_objs s' = re_objs s \<Longrightarrow> unique_fds s' = unique_fds s"
  unfolding unique_fds_def by simp

lemma invalid_fds_cong: "re_objs s' = re_objs s \<Longrightarrow> re_resources s' = re_resources s \<Longrightarrow> invalid_fds s' = invalid_fds s"
  unfolding invalid_fds_def by simp

lemma unique_fdsD:
  "unique_fds s \<Longrightarrow> re_objs s x = Some r \<Longrightarrow> re_objs s y = Some r' \<Longrightarrow> \<not> rs_closed r \<Longrightarrow> \<not> rs_closed r' \<Longrightarrow> rs_fd r = rs_fd r' \<Longrightarrow> x = y"
  unfolding unique_fds_def by blast

lemma unique_fds_put:
  assumes "unique_fds s" "re_objs s x = Some r" "rs_fd r' = rs_fd r" "\<not> rs_closed r' \<Longrightarrow> \<not> rs_closed r"
  shows "unique_fds (put x r' s)"
proof -
  have "\<exists>r\<^sub>0. re_objs s y = Some r\<^sub>0 \<and> rs_fd r\<^sub>0 = rs_fd q \<and> \<not> rs_closed r\<^sub>0" if "re_objs (put x r' s) y = Some q" "\<not> rs_closed q" for y q
    using that assms(2-4) by (auto simp: put_def split: if_splits)
  then show ?thesis unfolding unique_fds_def by (metis unique_fdsD [OF assms(1)])
qed

lemma reactor_inv_registered:
  assumes "reactor_inv X s" "re_resources s fd = Some x"
  obtains r where "re_objs s x = Some r" "rs_fd r = fd" "\<not> rs_closed r" "fd \<in> re_open s" "fd \<in> re_epoll s"
    "x \<notin> set (re_garbage s @ re_garbage_copy s)"
proof -
  note i = reactor_invD [OF assms(1)]
  obtain r where r: "re_objs s x = Some r" "rs_fd r = fd" using i(3) [OF assms(2)] by blast
  moreover have "\<not> rs_closed r" "fd \<in> re_open s" using i(1) [OF r(1)] r assms(2) by (simp_all add: obj_inv_def)
  moreover have "fd \<in> re_epoll s" using i(5) assms(2) by auto
  moreover have "x \<notin> set (re_garbage s @ re_garbage_copy s)" using i(4) [of x] r assms(2) by auto
  ultimately show thesis using that by blast
qed

lemma reactor_inv_garbage:
  assumes "reactor_inv X s" "x \<in> set (re_garbage s @ re_garbage_copy s)"
  obtains r where "re_objs s x = Some r" "re_resources s (rs_fd r) \<noteq> Some x" "rs_valid r \<longrightarrow> rs_closed r"
  using reactor_invD(1,4) [OF assms(1)] assms(2) unfolding obj_inv_def by meson

lemma reactor_inv_valid:
  assumes "reactor_inv X s" "re_objs s x = Some r" "rs_valid r" "\<not> stale r"
  shows "re_resources s (rs_fd r) = Some x" "rs_fd r \<notin> X" "rs_fd r \<notin> set (re_drop_req s)"
proof -
  show reg: "re_resources s (rs_fd r) = Some x"
    using reactor_invD(1) [OF assms(1,2)] assms(3,4) unfolding obj_inv_def stale_def by meson
  have "rs_fd r \<notin> invalid_fds s" using reg assms(2,3) by (simp add: invalid_fds_def)
  then show "rs_fd r \<notin> X" "rs_fd r \<notin> set (re_drop_req s)" using reactor_invD(10) [OF assms(1)] by auto
qed

text \<open>A thread that uses a descriptor finds it open and its own.\<close>

lemma reactor_inv_in_use:
  assumes "reactor_inv X s" "re_objs s x = Some r" "rs_readers r > 0"
  shows "\<not> rs_closed r" "rs_fd r \<in> re_open s"
  using reactor_invD(1) [OF assms(1,2)] assms(3) unfolding obj_inv_def by meson+

lemma put_sel [simp]:
  "re_objs (put x r s) = (re_objs s)(x \<mapsto> r)" "re_open (put x r s) = re_open s" "re_epoll (put x r s) = re_epoll s"
  "re_running (put x r s) = re_running s"
  "re_resources (put x r s) = re_resources s" "re_readables (put x r s) = re_readables s" "re_drop_req (put x r s) = re_drop_req s"
  "re_garbage (put x r s) = re_garbage s" "re_garbage_copy (put x r s) = re_garbage_copy s" "reactor.more (put x r s) = reactor.more s"
  by (simp_all add: put_def)

lemma invalid_fds_put:
  assumes "reactor_inv X s" "re_objs s x = Some r" "rs_fd r' = rs_fd r"
  shows "invalid_fds (put x r' s) =
    (if re_resources s (rs_fd r) = Some x then (if rs_valid r' then invalid_fds s - {rs_fd r} else insert (rs_fd r) (invalid_fds s)) else invalid_fds s)"
proof -
  have reg: "fd = rs_fd r" if "re_resources s fd = Some x" for fd
    using reactor_invD(3) [OF assms(1) that] assms(2) by auto
  show ?thesis
  proof (rule set_eqI)
    fix fd
    have "fd \<in> invalid_fds (put x r' s) \<longleftrightarrow> (if re_resources s fd = Some x then \<not> rs_valid r' else fd \<in> invalid_fds s)"
      by (cases "re_resources s fd") (auto simp: invalid_fds_def)
    then show "fd \<in> invalid_fds (put x r' s) \<longleftrightarrow> fd \<in> (if re_resources s (rs_fd r) = Some x then (if rs_valid r' then invalid_fds s - {rs_fd r} else insert (rs_fd r) (invalid_fds s)) else invalid_fds s)"
      using reg [of fd] by (cases "fd = rs_fd r") auto
  qed
qed

lemma put_inv:
  assumes "reactor_inv X s" "re_objs s x = Some r" "rs_fd r' = rs_fd r" "rs_valid r' = rs_valid r" "rs_closed r' = rs_closed r"
    "rs_readers r' > 0 \<Longrightarrow> \<not> rs_closed r"
  shows "reactor_inv X (put x r' s)"
proof (rule reactor_invI, goal_cases)
  note i = reactor_invD [OF assms(1)]
  {
    case (1 y q) then show ?case using i(1) [of y] i(1) [of x r] assms by (auto simp: obj_inv_def split: if_splits)
  next
    case 2 then show ?case using unique_fds_put [OF i(2) assms(2,3)] assms(5) by simp
  next
    case (3 fd y) then show ?case using i(3) [of fd y] assms by auto
  next
    case (4 y) then show ?case using i(4) [of y] assms by auto
  next
    case 10 then show ?case using invalid_fds_put [OF assms(1-3)] assms(2,4) i(10) by (auto simp: invalid_fds_def)
  }
qed (use reactor_invD(5-9) [OF assms(1)] in simp_all)

lemma put_invalid_inv:
  assumes "reactor_inv X s" "re_objs s x = Some r" "rs_valid r" "\<not> stale r"
  shows "reactor_inv (insert (rs_fd r) X) (put x (r\<lparr>rs_valid := False\<rparr>) s)"
proof (rule reactor_invI, goal_cases)
  note i = reactor_invD [OF assms(1)] and reg = reactor_inv_valid [OF assms]
  {
    case (1 y q) then show ?case using i(1) [of y] i(1) [of x r] assms by (auto simp: obj_inv_def split: if_splits)
  next
    case 2 then show ?case by (intro unique_fds_put [OF i(2) assms(2)]) simp_all
  next
    case (3 fd y) then show ?case using i(3) [of fd y] assms by auto
  next
    case (4 y) then show ?case using i(4) [of y] assms by auto
  next
    case 9 then show ?case using i(9) reg by simp
  next
    case 10 then show ?case using invalid_fds_put [OF assms(1-2)] reg i(10) by simp
  }
qed (use reactor_invD(5-8) [OF assms(1)] in simp_all)


section \<open>The operations keep the invariant\<close>

text \<open>
  A result is safe if it is a state of which \<open>P\<close> holds, or a fault of the given kind, which is one that
  only the environment can cause.
\<close>

definition safe :: "(fault \<Rightarrow> bool) \<Rightarrow> ('a \<Rightarrow> bool) \<Rightarrow> fault + 'a \<Rightarrow> bool" where
  "safe E P res = (case res of Inl e \<Rightarrow> E e | Inr x \<Rightarrow> P x)"

lemma safe_simps [simp]: "safe E P (Inl e) = E e" "safe E P (Inr x) = P x"
  by (simp_all add: safe_def)

lemma safe_bind: "safe E Q res \<Longrightarrow> (\<And>x. Q x \<Longrightarrow> safe E P (f x)) \<Longrightarrow> safe E P (bind_res res f)"
  by (cases res) simp_all

lemma safe_mono: "safe E Q res \<Longrightarrow> (\<And>x. Q x \<Longrightarrow> P x) \<Longrightarrow> safe E P res"
  by (cases res) simp_all

lemma deref_Some [simp]: "re_objs s x = Some r \<Longrightarrow> deref x s = Inr r"
  by (simp add: deref_def)

lemma close_fd_sel [simp]:
  "re_objs (close_fd fd s) = re_objs s" "re_open (close_fd fd s) = re_open s - {fd}" "re_epoll (close_fd fd s) = re_epoll s - {fd}"
  "re_running (close_fd fd s) = re_running s"
  "re_resources (close_fd fd s) = re_resources s" "re_readables (close_fd fd s) = re_readables s" "re_drop_req (close_fd fd s) = re_drop_req s"
  "re_garbage (close_fd fd s) = re_garbage s" "re_garbage_copy (close_fd fd s) = re_garbage_copy s" "reactor.more (close_fd fd s) = reactor.more s"
  by (simp_all add: close_fd_def)

text \<open>Closing the descriptor of garbage does not touch the descriptor of any other resource.\<close>

lemma close_garbage_inv:
  assumes "reactor_inv X s" "re_objs s x = Some r" "x \<in> set (re_garbage s @ re_garbage_copy s)" "rs_readers r = 0" "\<not> rs_closed r"
  shows "reactor_inv X (put x (r\<lparr>rs_closed := True\<rparr>) (close_fd (rs_fd r) s))"
proof (rule reactor_invI, goal_cases)
  note i = reactor_invD [OF assms(1)]
  have other: "rs_fd q \<noteq> rs_fd r" if "re_objs s y = Some q" "\<not> rs_closed q" "y \<noteq> x" for y q
    using unique_fdsD [OF i(2) that(1) assms(2) that(2) assms(5)] that(3) by blast
  have unreg: "re_resources s (rs_fd r) \<noteq> Some x" using i(4) [OF assms(3)] assms(2) by simp
  {
    case (1 y q)
    show ?case
    proof (cases "y = x")
      case True
      then show ?thesis using 1 i(1) [OF assms(2)] assms unreg by (auto simp: obj_inv_def)
    next
      case False
      then have "re_objs s y = Some q" using 1 by simp
      then show ?thesis using i(1) [of y q] other [of y q] False by (auto simp: obj_inv_def)
    qed
  next
    case 2
    have "unique_fds (put x (r\<lparr>rs_closed := True\<rparr>) s)" by (intro unique_fds_put [OF i(2) assms(2)]) simp_all
    then show ?case by (subst unique_fds_cong [of _ "put x (r\<lparr>rs_closed := True\<rparr>) s"]) simp_all
  next
    case (3 fd y) then show ?case using i(3) [of fd y] assms by auto
  next
    case (4 y) then show ?case using i(4) [of y] assms by auto
  next
    case 5
    have "rs_fd r \<notin> dom (re_resources s)"
    proof
      assume "rs_fd r \<in> dom (re_resources s)"
      then obtain y where y: "re_resources s (rs_fd r) = Some y" by auto
      from reactor_inv_registered [OF assms(1) this] obtain q where "re_objs s y = Some q" "rs_fd q = rs_fd r" "\<not> rs_closed q" by blast
      then have "y = x" using other by blast
      then show False using y unreg by simp
    qed
    then show ?case using i(5) by simp
  next
    case 10
    have "invalid_fds (put x (r\<lparr>rs_closed := True\<rparr>) s) = invalid_fds s" using invalid_fds_put [OF assms(1,2)] unreg by simp
    then show ?case using i(10) invalid_fds_cong [of "put x (r\<lparr>rs_closed := True\<rparr>) (close_fd (rs_fd r) s)" "put x (r\<lparr>rs_closed := True\<rparr>) s"] by simp
  }
qed (use reactor_invD(6-9) [OF assms(1)] in simp_all)

text \<open>Two states that agree on everything but which descriptors are closed.\<close>

definition like :: "'o resource \<Rightarrow> 'o resource \<Rightarrow> bool" where
  "like r r' \<longleftrightarrow>
     rs_fd r' = rs_fd r \<and> rs_valid r' = rs_valid r \<and> stale r' = stale r \<and> rs_readers r' = rs_readers r \<and> rs_sub r' = rs_sub r"

definition frame :: "('o, 'z) reactor_scheme \<Rightarrow> ('o, 'z) reactor_scheme \<Rightarrow> bool" where
  "frame s s' \<longleftrightarrow>
     (\<forall>x. rel_option like (re_objs s x) (re_objs s' x)) \<and>
     re_running s' = re_running s \<and> re_resources s' = re_resources s \<and> re_readables s' = re_readables s \<and> re_drop_req s' = re_drop_req s \<and>
     re_garbage s' = re_garbage s \<and> re_garbage_copy s' = re_garbage_copy s \<and> reactor.more s' = reactor.more s"

lemma like_refl [simp]: "like r r"
  by (simp add: like_def)

lemma like_trans: "like r r' \<Longrightarrow> like r' r'' \<Longrightarrow> like r r''"
  by (simp add: like_def)

lemma frame_refl [simp]: "frame s s"
  by (simp add: frame_def option.rel_refl)

lemma frame_trans:
  assumes "frame s s'" "frame s' s''"
  shows "frame s s''"
proof -
  have "rel_option like (re_objs s x) (re_objs s'' x)" for x
    using assms like_trans unfolding frame_def by (smt (verit) option.rel_cases option.rel_inject(2) option.rel_intros(1))
  then show ?thesis using assms by (simp add: frame_def)
qed

lemma frameD:
  assumes "frame s s'"
  shows "re_running s' = re_running s" "re_resources s' = re_resources s" "re_readables s' = re_readables s" "re_drop_req s' = re_drop_req s"
    "re_garbage s' = re_garbage s" "re_garbage_copy s' = re_garbage_copy s" "reactor.more s' = reactor.more s"
  using assms by (simp_all add: frame_def)

lemma frame_obj:
  assumes "frame s s'"
  shows "re_objs s' x = None \<longleftrightarrow> re_objs s x = None"
    and "re_objs s' x = Some r' \<Longrightarrow> \<exists>r. re_objs s x = Some r \<and> like r r'"
    and "re_objs s x = Some r \<Longrightarrow> \<exists>r'. re_objs s' x = Some r' \<and> like r r'"
proof -
  have "rel_option like (re_objs s x) (re_objs s' x)" using assms by (simp add: frame_def)
  then show "re_objs s' x = None \<longleftrightarrow> re_objs s x = None"
    and "re_objs s' x = Some r' \<Longrightarrow> \<exists>r. re_objs s x = Some r \<and> like r r'"
    and "re_objs s x = Some r \<Longrightarrow> \<exists>r'. re_objs s' x = Some r' \<and> like r r'"
    by (auto elim: option.rel_cases)
qed

lemma try_close_safe:
  assumes "reactor_inv X s" "x \<in> set (re_garbage s @ re_garbage_copy s)"
  obtains ok s' where "try_close x s = Inr (ok, s')" "reactor_inv X s'" "frame s s'"
proof -
  obtain r where r: "re_objs s x = Some r" "rs_valid r \<longrightarrow> rs_closed r" using reactor_inv_garbage [OF assms] by blast
  show thesis
  proof (cases "rs_readers r > 0 \<or> rs_closed r")
    case True
    then have "try_close x s = Inr (\<not> rs_readers r > 0, s)" using r by (auto simp: try_close_def)
    then show thesis using that assms(1) by simp
  next
    case False
    let ?s' = "put x (r\<lparr>rs_closed := True\<rparr>) (close_fd (rs_fd r) s)"
    have "reactor_inv X ?s'" using close_garbage_inv [OF assms(1) r(1) assms(2)] False by simp
    moreover have "frame s ?s'" using r False by (simp add: frame_def like_def stale_def option.rel_refl)
    ultimately show thesis using that [of True ?s'] False r by (simp add: try_close_def)
  qed
qed

lemma try_close_all_safe:
  assumes "reactor_inv X s" "set xs \<subseteq> set (re_garbage s @ re_garbage_copy s)"
  shows "\<exists>s'. try_close_all xs s = Inr s' \<and> reactor_inv X s' \<and> frame s s'"
  using assms
proof (induction xs arbitrary: s)
  case (Cons x xs)
  obtain ok s\<^sub>1 where s1: "try_close x s = Inr (ok, s\<^sub>1)" "reactor_inv X s\<^sub>1" "frame s s\<^sub>1"
    using try_close_safe [of X s x] Cons.prems by auto
  then obtain s' where "try_close_all xs s\<^sub>1 = Inr s'" "reactor_inv X s'" "frame s\<^sub>1 s'"
    using Cons.IH [of s\<^sub>1] Cons.prems by (auto simp: frameD)
  then show ?case using s1 frame_trans by auto
qed simp

lemma fix_garbage_safe:
  assumes "reactor_inv X s" "re_garbage_copy s = []"
  shows "\<exists>ok s'. fix_garbage s = Inr (ok, s') \<and> reactor_inv X s' \<and> frame (s\<lparr>re_garbage_copy := re_garbage s, re_garbage := []\<rparr>) s'"
proof (cases "re_garbage s = []")
  case True
  then have "fix_garbage s = Inr (False, s)" "frame (s\<lparr>re_garbage_copy := re_garbage s, re_garbage := []\<rparr>) s"
    using assms(2) by (simp_all add: fix_garbage_def frame_def option.rel_refl)
  then show ?thesis using assms(1) by blast
next
  case False
  let ?s = "s\<lparr>re_garbage_copy := re_garbage s, re_garbage := []\<rparr>"
  note i = reactor_invD [OF assms(1)]
  have "reactor_inv X ?s"
  proof (rule reactor_invI, goal_cases)
    case (1 x r) then show ?case using i(1) [of x r] assms(2) by (auto simp: obj_inv_def split: if_splits)
  next
    case (3 fd x) then show ?case using i(3) [of fd x] by simp
  next
    case (4 x) then show ?case using i(4) [of x] by simp
  next
    case 2 then show ?case using i(2) unique_fds_cong [of ?s s] by simp
  next
    case 10 then show ?case using i(10) invalid_fds_cong [of ?s s] by simp
  qed (use i(5-9) in simp_all)
  then show ?thesis using try_close_all_safe [of X ?s "re_garbage s"] assms False by (fastforce simp: fix_garbage_def)
qed


text \<open>Destroying fixed garbage.\<close>

lemma resource_dtor_safe:
  assumes "reactor_inv X s" "re_garbage_copy s = x # xs"
  obtains s' where "resource_dtor x s = Inr s'" "reactor_inv X (s'\<lparr>re_garbage_copy := xs\<rparr>)"
    "frame (s\<lparr>re_objs := (re_objs s)(x := None)\<rparr>) s'"
proof -
  note i = reactor_invD [OF assms(1)]
  have x: "x \<in> set (re_garbage s @ re_garbage_copy s)" using assms(2) by simp
  obtain r where r: "re_objs s x = Some r" "re_resources s (rs_fd r) \<noteq> Some x" using reactor_inv_garbage [OF assms(1) x] by blast
  have unreg: "re_resources s fd \<noteq> Some x" for fd using i(3) [of fd x] r by auto
  define s\<^sub>1 where "s\<^sub>1 = (if \<not> rs_closed r then close_fd (rs_fd r) s else s)"
  have s1: "re_objs s\<^sub>1 = re_objs s" "re_resources s\<^sub>1 = re_resources s" "re_readables s\<^sub>1 = re_readables s" "re_drop_req s\<^sub>1 = re_drop_req s"
    "re_garbage s\<^sub>1 = re_garbage s" "re_garbage_copy s\<^sub>1 = re_garbage_copy s" "reactor.more s\<^sub>1 = reactor.more s" "re_running s\<^sub>1 = re_running s"
    by (simp_all add: s\<^sub>1_def)
  have other: "rs_fd q \<noteq> rs_fd r" if "re_objs s y = Some q" "\<not> rs_closed q" "y \<noteq> x" "\<not> rs_closed r" for y q
    using unique_fdsD [OF i(2) that(1) r(1) that(2) that(4)] that(3) by blast
  have opened: "rs_fd q \<in> re_open s\<^sub>1" if "re_objs s y = Some q" "\<not> rs_closed q" "y \<noteq> x" for y q
    using i(1) [OF that(1)] that other [OF that] by (simp add: s\<^sub>1_def obj_inv_def)
  have epoll: "re_epoll s\<^sub>1 = dom (re_resources s)"
  proof -
    have "rs_fd r \<notin> dom (re_resources s)" if "\<not> rs_closed r"
    proof
      assume "rs_fd r \<in> dom (re_resources s)"
      then obtain y where y: "re_resources s (rs_fd r) = Some y" by auto
      from reactor_inv_registered [OF assms(1) this] obtain q where "re_objs s y = Some q" "rs_fd q = rs_fd r" "\<not> rs_closed q" by blast
      then show False using other [of y q] that y unreg by blast
    qed
    then show ?thesis using i(5) by (auto simp: s\<^sub>1_def)
  qed
  let ?s' = "s\<^sub>1\<lparr>re_objs := (re_objs s\<^sub>1)(x := None)\<rparr>" and ?t = "s\<^sub>1\<lparr>re_objs := (re_objs s\<^sub>1)(x := None), re_garbage_copy := xs\<rparr>"
  have "reactor_inv X ?t"
  proof (rule reactor_invI, goal_cases)
    case (1 y q)
    then have "re_objs s y = Some q" "y \<noteq> x" by (simp_all add: s1 split: if_splits)
    then show ?case using i(1) [of y q] opened [of y q] assms(2) by (auto simp: obj_inv_def s1 split: if_splits)
  next
    case 2
    have "re_objs s y = Some q" if "re_objs ?t y = Some q" for y q using that by (simp add: s1 split: if_splits)
    then show ?case unfolding unique_fds_def by (metis unique_fdsD [OF i(2)])
  next
    case (3 fd y) then show ?case using i(3) [of fd y] unreg by (auto simp: s1)
  next
    case (4 y) then show ?case using i(4) [of y] i(7) assms(2) by (auto simp: s1)
  next
    case 10
    have "fd \<in> invalid_fds ?t \<longleftrightarrow> fd \<in> invalid_fds s" for fd
      using unreg [of fd] by (cases "re_resources s fd") (auto simp: invalid_fds_def s1)
    then have "invalid_fds ?t = invalid_fds s" by blast
    then show ?case using i(10) by (simp add: s1)
  qed (use i(6-9) assms(2) epoll in \<open>simp_all add: s1\<close>)
  moreover have "resource_dtor x s = Inr ?s'" using r(1) by (simp add: resource_dtor_def s\<^sub>1_def Let_def)
  moreover have "frame (s\<lparr>re_objs := (re_objs s)(x := None)\<rparr>) ?s'" by (simp add: frame_def s1 option.rel_refl)
  ultimately show thesis using that by simp
qed


lemma resource_dtor_copy:
  "resource_dtor x (s\<lparr>re_garbage_copy := c\<rparr>) = map_sum id (\<lambda>s'. s'\<lparr>re_garbage_copy := c\<rparr>) (resource_dtor x s)"
  by (cases "re_objs s x") (simp_all add: resource_dtor_def deref_def close_fd_def Let_def)

lemma destroy_all_copy:
  "destroy_all xs (s\<lparr>re_garbage_copy := c\<rparr>) = map_sum id (\<lambda>s'. s'\<lparr>re_garbage_copy := c\<rparr>) (destroy_all xs s)"
proof (induction xs arbitrary: s)
  case (Cons x xs)
  then show ?case by (cases "resource_dtor x s") (simp_all add: resource_dtor_copy)
qed simp

lemma frame_copy: "frame s s' \<Longrightarrow> frame (s\<lparr>re_garbage_copy := c\<rparr>) (s'\<lparr>re_garbage_copy := c\<rparr>)"
  by (simp add: frame_def)

lemma frame_restrict: "frame s s' \<Longrightarrow> frame (s\<lparr>re_objs := re_objs s |` A\<rparr>) (s'\<lparr>re_objs := re_objs s' |` A\<rparr>)"
  by (simp add: frame_def restrict_map_def)

lemma destroy_all_safe:
  assumes "reactor_inv X s" "re_garbage_copy s = xs"
  shows "\<exists>s'. destroy_all xs s = Inr s' \<and> reactor_inv X (s'\<lparr>re_garbage_copy := []\<rparr>) \<and>
    frame (s\<lparr>re_objs := re_objs s |` (- set xs), re_garbage_copy := []\<rparr>) (s'\<lparr>re_garbage_copy := []\<rparr>)"
  using assms
proof (induction xs arbitrary: s)
  case Nil
  then have eq: "s\<lparr>re_garbage_copy := []\<rparr> = s" by simp
  have "reactor_inv X (s\<lparr>re_garbage_copy := []\<rparr>)" unfolding eq by fact
  then show ?case using Nil by (simp add: restrict_map_def)
next
  case (Cons x xs)
  obtain s\<^sub>1 where s1: "resource_dtor x s = Inr s\<^sub>1" "reactor_inv X (s\<^sub>1\<lparr>re_garbage_copy := xs\<rparr>)"
    "frame (s\<lparr>re_objs := (re_objs s)(x := None)\<rparr>) s\<^sub>1"
    using resource_dtor_safe [OF Cons.prems] by blast
  obtain t where t: "destroy_all xs (s\<^sub>1\<lparr>re_garbage_copy := xs\<rparr>) = Inr t" "reactor_inv X (t\<lparr>re_garbage_copy := []\<rparr>)"
    "frame (s\<^sub>1\<lparr>re_objs := re_objs s\<^sub>1 |` (- set xs), re_garbage_copy := []\<rparr>) (t\<lparr>re_garbage_copy := []\<rparr>)"
    using Cons.IH [OF s1(2)] by (auto simp: fold_congs)
  obtain s' where s': "destroy_all xs s\<^sub>1 = Inr s'" "t = s'\<lparr>re_garbage_copy := xs\<rparr>"
    using t(1) destroy_all_copy [where xs = xs and s = s\<^sub>1 and c = xs] by (cases "destroy_all xs s\<^sub>1") auto
  have "(re_objs s)(x := None) |` (- set xs) = re_objs s |` (- set (x # xs))" by (auto simp: restrict_map_def)
  then have "frame (s\<lparr>re_objs := re_objs s |` (- set (x # xs)), re_garbage_copy := []\<rparr>) (s\<^sub>1\<lparr>re_objs := re_objs s\<^sub>1 |` (- set xs), re_garbage_copy := []\<rparr>)"
    using frame_copy [OF frame_restrict [OF s1(3), of "- set xs"], of "[]"] by simp
  from frame_trans [OF this t(3)] show ?case using s1(1) s' t(2) by simp
qed

lemma gc_safe:
  assumes "reactor_inv X s"
  shows "\<exists>s'. reactor_gc s = Inr s' \<and> reactor_inv X s' \<and>
    frame (s\<lparr>re_objs := re_objs s |` (- set (re_garbage_copy s)), re_garbage_copy := []\<rparr>) s'"
  using destroy_all_safe [OF assms refl] by (auto simp: reactor_gc_def)

text \<open>Removing a registered resource that is invalid.\<close>

definition removed :: "nat \<Rightarrow> nat \<Rightarrow> ('o, 'z) reactor_scheme \<Rightarrow> ('o, 'z) reactor_scheme" where
  "removed fd x s =
     s\<lparr>re_garbage := re_garbage s @ [x], re_resources := (re_resources s)(fd := None), re_readables := removeAll fd (re_readables s)\<rparr>"

lemma remove_resource_safe:
  assumes "reactor_inv X s" "fd \<in> X"
  obtains x r s' where "re_resources s fd = Some x" "re_objs s x = Some r" "rs_fd r = fd" "\<not> rs_valid r"
    "remove_resource fd s = Inr s'" "reactor_inv (X - {fd}) s'" "frame (removed fd x s) s'"
proof -
  note i = reactor_invD [OF assms(1)]
  obtain x r where xr: "re_resources s fd = Some x" "re_objs s x = Some r" "\<not> rs_valid r"
  proof -
    have "fd \<in> invalid_fds s" using i(10) assms(2) by blast
    then show thesis using that unfolding invalid_fds_def by blast
  qed
  then have r: "rs_fd r = fd" "\<not> rs_closed r" "fd \<in> re_open s" "fd \<in> re_epoll s" "x \<notin> set (re_garbage s @ re_garbage_copy s)"
    using reactor_inv_registered [OF assms(1) xr(1)] by auto
  have only: "re_resources s fd' = Some x \<Longrightarrow> fd' = fd" for fd' using i(3) [of fd' x] xr(2) r(1) by auto
  let ?s = "(removed fd x s)\<lparr>re_epoll := re_epoll s - {fd}\<rparr>"
  have sel: "re_objs ?s = re_objs s" "re_open ?s = re_open s" "re_epoll ?s = re_epoll s - {fd}" "re_resources ?s = (re_resources s)(fd := None)"
    "re_readables ?s = removeAll fd (re_readables s)" "re_drop_req ?s = re_drop_req s" "re_garbage ?s = re_garbage s @ [x]"
    "re_garbage_copy ?s = re_garbage_copy s"
    by (simp_all add: removed_def)
  have "reactor_inv (X - {fd}) ?s"
  proof (rule reactor_invI, goal_cases)
    case (1 y q)
    then have q: "re_objs s y = Some q" by (simp add: sel)
    show ?case
    proof (cases "y = x")
      case True
      then show ?thesis using q xr r i(1) [OF q] by (simp add: obj_inv_def sel)
    next
      case False
      have "re_resources s (rs_fd q) = Some y \<Longrightarrow> rs_fd q \<noteq> fd" using xr(1) False by auto
      then show ?thesis using i(1) [OF q] by (auto simp: obj_inv_def sel split: if_splits)
    qed
  next
    case 2 then show ?case using i(2) unique_fds_cong [of ?s s] by (simp add: sel)
  next
    case (3 fd' y) then show ?case using i(3) [of fd' y] by (auto simp: sel split: if_splits)
  next
    case (4 y) then show ?case using i(4) [of y] xr(2) r(1) by (auto simp: sel)
  next
    case 5 then show ?case using i(5) by (simp add: removed_def)
  next
    case 6 then show ?case using i(6) by (auto simp: sel)
  next
    case 7 then show ?case using i(7) r(5) by (auto simp: sel)
  next
    case 8 then show ?case using i(8) by (simp add: sel)
  next
    case 9 then show ?case using i(9) by (auto simp: sel)
  next
    case 10
    have "invalid_fds ?s = invalid_fds s - {fd}" by (auto simp: invalid_fds_def sel split: if_splits)
    then show ?case using i(9,10) assms(2) by (auto simp: sel)
  qed
  then obtain ok s' where s': "try_close x ?s = Inr (ok, s')" "reactor_inv (X - {fd}) s'" "frame ?s s'"
    using try_close_safe [of "X - {fd}" ?s x] by (auto simp: sel)
  moreover have "frame (removed fd x s) ?s" by (simp add: frame_def option.rel_refl)
  moreover have "?s = s\<lparr>re_garbage := re_garbage s @ [x], re_resources := (re_resources s)(fd := None), re_epoll := re_epoll s - {fd},
      re_readables := removeAll fd (re_readables s)\<rparr>" by (simp add: removed_def)
  then have "remove_resource fd s = Inr s'" using xr(1) r(4) s'(1) by (simp add: remove_resource_def Let_def)
  ultimately show thesis using that [OF xr(1,2) r(1) xr(3)] frame_trans by blast
qed

text \<open>A resource may also be removed while it is valid, if no other thread uses it: it becomes stale.\<close>

lemma put_stale_inv:
  assumes "reactor_inv X s" "re_objs s x = Some r" "x \<in> set (re_garbage s @ re_garbage_copy s)" "rs_closed r"
  shows "reactor_inv X (put x (r\<lparr>rs_valid := True\<rparr>) s)"
proof (rule reactor_invI, goal_cases)
  note i = reactor_invD [OF assms(1)]
  have unreg: "re_resources s fd \<noteq> Some x" for fd using i(4) [OF assms(3)] i(3) [of fd x] assms(2) by auto
  {
    case (1 y q) then show ?case using i(1) [of y] i(1) [of x r] assms by (auto simp: obj_inv_def split: if_splits)
  next
    case 2 then show ?case by (intro unique_fds_put [OF i(2) assms(2)]) simp_all
  next
    case (3 fd y) then show ?case using i(3) [of fd y] assms(2) by auto
  next
    case (4 y) then show ?case using i(4) [of y] assms(2) by auto
  next
    case 10 then show ?case using invalid_fds_put [OF assms(1,2)] unreg i(10) by simp
  }
qed (use reactor_invD(5-9) [OF assms(1)] in simp_all)

lemma remove_put_valid:
  assumes "re_resources s fd = Some x" "re_objs s x = Some r" "rs_fd r = fd" "rs_readers r = 0" "\<not> rs_closed r" "fd \<in> re_epoll s"
  shows "remove_resource fd s = Inr (put x (r\<lparr>rs_closed := True\<rparr>) (close_fd fd ((removed fd x s)\<lparr>re_epoll := re_epoll s - {fd}\<rparr>)))"
  using assms by (simp add: remove_resource_def try_close_def removed_def Let_def)

lemma remove_valid_safe:
  assumes "reactor_inv {} s" "re_resources s fd = Some x" "re_objs s x = Some r" "rs_valid r" "rs_readers r = 0"
  obtains s' where "remove_resource fd s = Inr s'" "reactor_inv {} s'" "re_objs s' = (re_objs s)(x \<mapsto> r\<lparr>rs_closed := True\<rparr>)"
    "re_garbage_copy s' = re_garbage_copy s" "reactor.more s' = reactor.more s" "re_running s' = re_running s"
proof -
  have r: "rs_fd r = fd" "\<not> rs_closed r" "fd \<in> re_epoll s"
    using reactor_inv_registered [OF assms(1,2)] assms(3) by auto
  let ?q = "r\<lparr>rs_valid := False\<rparr>" and ?s = "put x (r\<lparr>rs_valid := False\<rparr>) s"
  let ?t = "put x (?q\<lparr>rs_closed := True\<rparr>) (close_fd fd ((removed fd x ?s)\<lparr>re_epoll := re_epoll ?s - {fd}\<rparr>))"
  have "reactor_inv {fd} ?s" using put_invalid_inv [OF assms(1,3,4)] r by (simp add: stale_def)
  from remove_resource_safe [OF this singletonI] obtain t where "remove_resource fd ?s = Inr t" "reactor_inv ({fd} - {fd}) t" by blast
  moreover have "remove_resource fd ?s = Inr ?t" by (rule remove_put_valid) (use assms r in simp_all)
  ultimately have t: "reactor_inv {} ?t" by simp
  have "reactor_inv {} (put x ((?q\<lparr>rs_closed := True\<rparr>)\<lparr>rs_valid := True\<rparr>) ?t)"
    by (rule put_stale_inv [OF t]) (simp_all add: removed_def)
  moreover have "put x ((?q\<lparr>rs_closed := True\<rparr>)\<lparr>rs_valid := True\<rparr>) ?t =
    put x (r\<lparr>rs_closed := True\<rparr>) (close_fd fd ((removed fd x s)\<lparr>re_epoll := re_epoll s - {fd}\<rparr>))"
    using assms(4) by (cases s; cases r; simp add: put_def removed_def close_fd_def)
  moreover have "remove_resource fd s = Inr (put x (r\<lparr>rs_closed := True\<rparr>) (close_fd fd ((removed fd x s)\<lparr>re_epoll := re_epoll s - {fd}\<rparr>)))"
    by (rule remove_put_valid) (use assms r in simp_all)
  ultimately show thesis using that by (simp add: removed_def)
qed

text \<open>Two states with the same reactor, whatever the fields of the owner.\<close>

definition same_reactor :: "('o, 'z) reactor_scheme \<Rightarrow> ('o, 'z) reactor_scheme \<Rightarrow> bool" where
  "same_reactor s s' \<longleftrightarrow>
     re_objs s' = re_objs s \<and> re_open s' = re_open s \<and> re_epoll s' = re_epoll s \<and> re_running s' = re_running s \<and>
     re_resources s' = re_resources s \<and> re_readables s' = re_readables s \<and> re_drop_req s' = re_drop_req s \<and>
     re_garbage s' = re_garbage s \<and> re_garbage_copy s' = re_garbage_copy s"

definition neutral :: "(nat \<Rightarrow> ('o, 'z) reactor_scheme \<Rightarrow> ('o, 'z) reactor_scheme) \<Rightarrow> bool" where
  "neutral hook \<longleftrightarrow> (\<forall>x s. same_reactor s (hook x s))"

lemma reactor_inv_same:
  assumes "same_reactor s s'"
  shows "reactor_inv X s' = reactor_inv X s"
proof -
  have "unique_fds s' = unique_fds s" "invalid_fds s' = invalid_fds s"
    using assms unique_fds_cong [of s' s] invalid_fds_cong [of s' s] by (simp_all add: same_reactor_def)
  moreover have "obj_inv s' = obj_inv s"
    using assms by (simp add: same_reactor_def obj_inv_def fun_eq_iff)
  ultimately show ?thesis using assms by (simp add: same_reactor_def reactor_inv_def)
qed

text \<open>A resource becomes invalid: by the reactor, or by another thread, which requests its removal.\<close>

definition invalidated ::
  "(nat \<Rightarrow> ('o, 'z) reactor_scheme \<Rightarrow> ('o, 'z) reactor_scheme) \<Rightarrow> nat \<Rightarrow> 'o resource \<Rightarrow> ('o, 'z) reactor_scheme \<Rightarrow> ('o, 'z) reactor_scheme" where
  "invalidated hook x r s = hook x (put x (r\<lparr>rs_valid := False\<rparr>) s)"

lemma resource_invalidate_eq:
  "re_objs s x = Some r \<Longrightarrow> resource_invalidate hook x s = (if rs_valid r then Inr (False, invalidated hook x r s) else Inr (True, s))"
  by (simp add: resource_invalidate_def invalidated_def)

lemma invalidated_inv:
  assumes "reactor_inv X s" "re_objs s x = Some r" "rs_valid r" "\<not> stale r" "neutral hook"
  shows "reactor_inv (insert (rs_fd r) X) (invalidated hook x r s)"
  unfolding invalidated_def using put_invalid_inv [OF assms(1-4)] assms(5) reactor_inv_same unfolding neutral_def by blast

lemma request_inv:
  assumes "reactor_inv (insert fd X) s" "fd \<notin> X"
  shows "reactor_inv X (s\<lparr>re_drop_req := re_drop_req s @ [fd]\<rparr>)"
proof (rule reactor_invI, goal_cases)
  note i = reactor_invD [OF assms(1)]
  let ?s = "s\<lparr>re_drop_req := re_drop_req s @ [fd]\<rparr>"
  {
    case (1 y q) then show ?case using i(1) [of y q] by (auto simp: obj_inv_def split: if_splits)
  next
    case 2 then show ?case using i(2) unique_fds_cong [of ?s s] by simp
  next
    case (3 fd' y) then show ?case using i(3) [of fd' y] by simp
  next
    case (4 y) then show ?case using i(4) [of y] by simp
  next
    case 8 then show ?case using i(8,9) by simp
  next
    case 9 then show ?case using i(9) assms(2) by auto
  next
    case 10 then show ?case using i(10) invalid_fds_cong [of ?s s] by auto
  }
qed (use reactor_invD(5-7) [OF assms(1)] in simp_all)

lemma do_invalidate_and_close_eq:
  assumes "re_objs s x = Some r" "neutral hook"
  shows "do_invalidate_and_close hook x s =
    Inr (if rs_valid r then (invalidated hook x r s)\<lparr>re_drop_req := re_drop_req s @ [rs_fd r]\<rparr> else s)"
proof -
  have "re_objs (invalidated hook x r s) x = Some (r\<lparr>rs_valid := False\<rparr>)" "re_drop_req (invalidated hook x r s) = re_drop_req s"
    using assms(2) by (simp_all add: invalidated_def neutral_def same_reactor_def)
  then show ?thesis using assms(1) by (simp add: do_invalidate_and_close_def request_removal_def flip: invalidated_def)
qed

lemma do_invalidate_and_close_inv:
  assumes "reactor_inv X s" "re_objs s x = Some r" "\<not> stale r" "neutral hook" "do_invalidate_and_close hook x s = Inr s'"
  shows "reactor_inv X s'"
proof (cases "rs_valid r")
  case True
  have "re_drop_req (invalidated hook x r s) = re_drop_req s"
    using assms(4) by (simp add: invalidated_def neutral_def same_reactor_def)
  then show ?thesis
    using request_inv [OF invalidated_inv [OF assms(1,2) True assms(3,4)] reactor_inv_valid(2) [OF assms(1,2) True assms(3)]]
      assms(5) True do_invalidate_and_close_eq [OF assms(2,4)] by simp
qed (use assms do_invalidate_and_close_eq [OF assms(2,4)] in simp)

lemma with_fd_begin_eq:
  "re_objs s x = Some r \<Longrightarrow>
     with_fd_begin x s = (if rs_valid r then Inr (True, put x (r\<lparr>rs_readers := rs_readers r + 1\<rparr>) s) else Inr (False, s))"
  by (simp add: with_fd_begin_def)

lemma with_fd_begin_inv:
  assumes "reactor_inv X s" "re_objs s x = Some r" "\<not> stale r" "with_fd_begin x s = Inr (ok, s')"
  shows "reactor_inv X s'"
proof (cases "rs_valid r")
  case True
  then have "\<not> rs_closed r" using assms(3) by (simp add: stale_def)
  then have "reactor_inv X (put x (r\<lparr>rs_readers := rs_readers r + 1\<rparr>) s)" by (intro put_inv [OF assms(1,2)]) simp_all
  then show ?thesis using assms(2,4) True by (simp add: with_fd_begin_eq)
qed (use assms in \<open>simp add: with_fd_begin_eq\<close>)

lemma put_readers_inv:
  assumes "reactor_inv X s" "re_objs s x = Some r"
  shows "reactor_inv X (put x (r\<lparr>rs_readers := rs_readers r - 1\<rparr>) s)"
  using put_inv [OF assms, of "r\<lparr>rs_readers := rs_readers r - 1\<rparr>"] reactor_inv_in_use(1) [OF assms] by fastforce

lemma with_fd_end_safe:
  assumes "reactor_inv X s" "re_objs s x = Some r" "\<not> stale r" "neutral hook"
  shows "\<exists>s'. with_fd_end hook keep x s = Inr s' \<and> reactor_inv X s'"
proof -
  obtain s\<^sub>1 where s1: "(if keep then Inr s else do_invalidate_and_close hook x s) = Inr s\<^sub>1" "reactor_inv X s\<^sub>1"
    using assms do_invalidate_and_close_eq [OF assms(2,4)] do_invalidate_and_close_inv [OF assms(1-4)] by (cases keep) auto
  have "\<exists>r'. re_objs s\<^sub>1 x = Some r'"
    using s1(1) assms(2,4) do_invalidate_and_close_eq [OF assms(2,4)]
    by (auto simp: invalidated_def neutral_def same_reactor_def split: if_splits)
  then obtain r' where "re_objs s\<^sub>1 x = Some r'" by blast
  then show ?thesis using s1 put_readers_inv [OF s1(2)] by (simp add: with_fd_end_def)
qed

text \<open>A new resource on a descriptor that the kernel has just opened.\<close>

definition opened :: "nat \<Rightarrow> ('o, 'z) reactor_scheme \<Rightarrow> ('o, 'z) reactor_scheme" where
  "opened fd s = s\<lparr>re_open := insert fd (re_open s)\<rparr>"

definition added :: "nat \<Rightarrow> nat \<Rightarrow> 'o \<Rightarrow> ('o, 'z) reactor_scheme \<Rightarrow> ('o, 'z) reactor_scheme" where
  "added x fd sub s =
     s\<lparr>re_objs := (re_objs s)(x \<mapsto> (resource_ctor fd sub)\<lparr>rs_attached := True\<rparr>), re_open := insert fd (re_open s),
       re_epoll := insert fd (re_epoll s), re_resources := (re_resources s)(fd \<mapsto> x)\<rparr>"

lemma unopened_unregistered: "reactor_inv X s \<Longrightarrow> fd \<notin> re_open s \<Longrightarrow> re_resources s fd = None"
  using reactor_inv_registered by (metis not_Some_eq)

lemma add_resource_new:
  assumes "reactor_inv X s" "fd \<notin> re_open s"
  shows "add_resource x (put x (resource_ctor fd sub) (opened fd s)) = Inr (added x fd sub s)"
proof -
  have "fd \<notin> re_epoll s" "re_resources s fd = None"
    using unopened_unregistered [OF assms] reactor_invD(5) [OF assms(1)] by auto
  then show ?thesis by (simp add: add_resource_def opened_def added_def put_def resource_ctor_def Let_def)
qed

lemma added_inv:
  assumes "reactor_inv X s" "fd \<notin> re_open s" "re_objs s x = None"
  shows "reactor_inv X (added x fd sub s)"
proof (rule reactor_invI, goal_cases)
  note i = reactor_invD [OF assms(1)]
  let ?s = "added x fd sub s"
  have none: "re_resources s fd = None" using unopened_unregistered [OF assms(1,2)] .
  have sel: "re_objs ?s = (re_objs s)(x \<mapsto> (resource_ctor fd sub)\<lparr>rs_attached := True\<rparr>)" "re_resources ?s = (re_resources s)(fd \<mapsto> x)"
    "re_garbage ?s = re_garbage s" "re_garbage_copy ?s = re_garbage_copy s" "re_open ?s = insert fd (re_open s)"
    by (simp_all add: added_def)
  have old: "re_objs s y = Some q \<Longrightarrow> rs_fd q = fd \<Longrightarrow> rs_closed q" for y q
    using i(1) [of y q] assms(2) by (auto simp: obj_inv_def)
  have x: "x \<notin> set (re_garbage s @ re_garbage_copy s)" using i(4) assms(3) by fastforce
  {
    case (1 y q)
    show ?case
    proof (cases "y = x")
      case False
      then have q: "re_objs s y = Some q" using 1 by (simp add: sel)
      then show ?thesis using i(1) [OF q] old [OF q] none False by (auto simp: obj_inv_def sel split: if_splits)
    qed (use 1 in \<open>auto simp: sel obj_inv_def resource_ctor_def\<close>)
  next
    case 2
    show ?case unfolding unique_fds_def
    proof (intro allI impI, elim conjE)
      fix y z q q'
      assume h: "re_objs ?s y = Some q" "re_objs ?s z = Some q'" "\<not> rs_closed q" "\<not> rs_closed q'" "rs_fd q = rs_fd q'"
      show "y = z"
      proof (cases "y = x \<or> z = x")
        case True
        then show ?thesis using h old by (auto simp: sel resource_ctor_def split: if_splits)
      next
        case False
        then show ?thesis using h unique_fdsD [OF i(2), of y q z q'] by (simp add: sel)
      qed
    qed
  next
    case (3 fd' y) then show ?case using i(3) [of fd' y] assms(3) by (auto simp: sel resource_ctor_def split: if_splits)
  next
    case (4 y)
    then have "y \<in> set (re_garbage s @ re_garbage_copy s)" "y \<noteq> x" using x by (auto simp: sel)
    then show ?case using i(4) [of y] by (auto simp: sel)
  next
    case 10
    have "fd' \<in> invalid_fds ?s \<longleftrightarrow> fd' \<in> invalid_fds s" for fd'
    proof (cases "fd' = fd")
      case True
      then show ?thesis using none by (simp add: invalid_fds_def sel resource_ctor_def)
    next
      case False
      then show ?thesis using i(3) [of fd'] assms(3) by (cases "re_resources s fd'") (auto simp: invalid_fds_def sel)
    qed
    then have "invalid_fds ?s = invalid_fds s" by blast
    then show ?case using i(10) by (simp add: added_def)
  }
qed (use reactor_invD(5-9) [OF assms(1)] in \<open>auto simp: added_def\<close>)

end
