(* ===== verification/Reactor_Poll.thy ===== *)
theory Reactor_Poll
  imports Reactor
begin

text \<open>
  The contract between the reactor and its resources.  The hooks of \<^verbatim>\<open>cybozu::resource\<close> must return true or the result of
  \<^verbatim>\<open>invalidate\<close>, other threads may invalidate resources at any time, and the owner of the reactor may
  have an invariant of its own; then a round of \<^verbatim>\<open>poll\<close> never removes an unknown descriptor, never calls through a
  null or dangling pointer, and keeps the invariant.
\<close>

section \<open>The lists that poll takes\<close>

lemma drops_taken:
  assumes "reactor_inv {} s"
  shows "reactor_inv (set (re_drop_req s)) (s\<lparr>re_drop_req := []\<rparr>)"
proof (rule reactor_invI, goal_cases)
  note i = reactor_invD [OF assms]
  let ?s = "s\<lparr>re_drop_req := []\<rparr>"
  {
    case (1 y q) then show ?case using i(1) [of y q] by (auto simp: obj_inv_def split: if_splits)
  next
    case 2 then show ?case using i(2) unique_fds_cong [of ?s s] by simp
  next
    case (3 fd y) then show ?case using i(3) [of fd y] by simp
  next
    case (4 y) then show ?case using i(4) [of y] by simp
  next
    case 10 then show ?case using i(10) invalid_fds_cong [of ?s s] by simp
  }
qed (use reactor_invD(5-7) [OF assms] in simp_all)

text \<open>The list of readable descriptors may be any list of registered ones.\<close>

lemma readables_inv:
  assumes "reactor_inv X s" "set fds \<subseteq> dom (re_resources s)"
  shows "reactor_inv X (s\<lparr>re_readables := fds\<rparr>)"
proof (rule reactor_invI, goal_cases)
  note i = reactor_invD [OF assms(1)]
  let ?s = "s\<lparr>re_readables := fds\<rparr>"
  {
    case (1 y q) then show ?case using i(1) [of y q] by (auto simp: obj_inv_def split: if_splits)
  next
    case 2 then show ?case using i(2) unique_fds_cong [of ?s s] by simp
  next
    case (3 fd y) then show ?case using i(3) [of fd y] by simp
  next
    case (4 y) then show ?case using i(4) [of y] by simp
  next
    case 10 then show ?case using i(10) invalid_fds_cong [of ?s s] by simp
  }
qed (use reactor_invD(5,7-9) [OF assms(1)] assms(2) in simp_all)

lemma readables_taken: "reactor_inv X s \<Longrightarrow> reactor_inv X (s\<lparr>re_readables := []\<rparr>)"
  by (rule readables_inv) simp_all

lemma add_readable_safe:
  assumes "reactor_inv X s" "re_resources s fd = Some x"
  shows "add_readable x s = Inr (s\<lparr>re_readables := re_readables s @ [fd]\<rparr>)" "reactor_inv X (s\<lparr>re_readables := re_readables s @ [fd]\<rparr>)"
proof -
  obtain r where r: "re_objs s x = Some r" "rs_fd r = fd" using reactor_inv_registered [OF assms] by blast
  then show "add_readable x s = Inr (s\<lparr>re_readables := re_readables s @ [fd]\<rparr>)" by (simp add: add_readable_def)
  show "reactor_inv X (s\<lparr>re_readables := re_readables s @ [fd]\<rparr>)"
    using readables_inv [OF assms(1), of "re_readables s @ [fd]"] reactor_invD(6) [OF assms(1)] assms(2) by auto
qed

text \<open>What an event leaves of the other registered descriptors.\<close>

definition others_kept :: "nat \<Rightarrow> ('o, 'z) reactor_scheme \<Rightarrow> ('o, 'z) reactor_scheme \<Rightarrow> bool" where
  "others_kept fd s s' \<longleftrightarrow> (\<forall>fd'. fd' \<noteq> fd \<longrightarrow> fd' \<in> dom (re_resources s) \<longrightarrow> fd' \<in> dom (re_resources s'))"

lemma others_kept_trans: "others_kept fd s s' \<Longrightarrow> others_kept fd s' s'' \<Longrightarrow> others_kept fd s s''"
  by (simp add: others_kept_def)

lemma others_keptD: "others_kept fd s s' \<Longrightarrow> A \<subseteq> dom (re_resources s) \<Longrightarrow> fd \<notin> A \<Longrightarrow> A \<subseteq> dom (re_resources s')"
  unfolding others_kept_def subset_iff by metis

lemma others_kept_refl [simp]: "others_kept fd s s"
  by (simp add: others_kept_def)

lemma distinct_sorted_remdups_adj: "sorted xs \<Longrightarrow> distinct (remdups_adj xs)"
  by (induction xs rule: remdups_adj.induct) auto

section \<open>The contract\<close>

text \<open>
  \<open>inv X\<close> is the invariant of the owner while the reactor is about to remove the descriptors \<open>X\<close>; \<open>env\<close> tells
  the exceptions that only the environment can cause.
\<close>

locale reactor_client =
  fixes hooks :: "('o, 'z) reactor_scheme hooks"
    and inv :: "nat set \<Rightarrow> ('o, 'z) reactor_scheme \<Rightarrow> bool"
    and env :: "fault \<Rightarrow> bool"
  assumes inv_reactor: "inv X s \<Longrightarrow> reactor_inv X s"
    and hook_safe: "h \<in> {on_readable hooks, on_writable hooks, on_hangup hooks, on_error hooks} \<Longrightarrow> inv {} s \<Longrightarrow> re_resources s fd = Some x \<Longrightarrow>
      safe env (\<lambda>(ok, s'). inv (if ok then {} else {fd}) s' \<and> re_resources s \<subseteq>\<^sub>m re_resources s') (h x s)"
    and wait_safe: "inv {} s \<Longrightarrow> epoll_wait hooks timeout s = (answer, s') \<Longrightarrow> inv {} s' \<and> answer \<noteq> Wait_error \<and>
      (\<forall>evs. answer = Events evs \<longrightarrow> distinct (map ev_fd evs) \<and> ev_fd ` set evs \<subseteq> re_epoll s')"
    and removal_safe: "inv X s \<Longrightarrow> fd \<in> X \<Longrightarrow> remove_resource fd s = Inr s' \<Longrightarrow> inv (X - {fd}) s'"
    and drops_safe: "inv {} s \<Longrightarrow> inv (set (re_drop_req s)) (s\<lparr>re_drop_req := []\<rparr>)"
    and readables_safe: "inv {} s \<Longrightarrow> inv {} (s\<lparr>re_readables := []\<rparr>)"
begin

lemma removed_registered:
  assumes "inv X s" "fd \<in> X" "remove_resource fd s = Inr s'"
  shows "re_resources s' = (re_resources s)(fd := None)"
proof -
  obtain x s'' where "remove_resource fd s = Inr s''" "frame (removed fd x s) s''"
    using remove_resource_safe [OF inv_reactor [OF assms(1)] assms(2)] by metis
  then show ?thesis using assms(3) by (auto simp: frame_def removed_def)
qed

lemma hook_or_remove_safe:
  assumes "h \<in> {on_readable hooks, on_writable hooks, on_hangup hooks, on_error hooks}" "inv {} s" "re_resources s fd = Some x"
  shows "safe env (\<lambda>(ok, s'). inv {} s' \<and> others_kept fd s s' \<and>
      (ok \<longrightarrow> re_resources s' fd = Some x)) (hook_or_remove h fd x s)"
proof -
  obtain r where "re_objs s x = Some r" using reactor_inv_registered [OF inv_reactor [OF assms(2)] assms(3)] by blast
  moreover have "safe env (\<lambda>(ok, s'). inv {} s' \<and> others_kept fd s s' \<and>
      (ok \<longrightarrow> re_resources s' fd = Some x))
    (bind_res (h x s) (\<lambda>(ok, s'). if ok then Inr (True, s') else bind_res (remove_resource fd s') (\<lambda>s''. Inr (False, s''))))"
  proof (rule safe_bind [OF hook_safe [OF assms]], clarify)
    fix ok s'
    assume s': "inv (if ok then {} else {fd}) s'" "re_resources s \<subseteq>\<^sub>m re_resources s'"
    then have sub: "re_resources s' fd' = Some y" if "re_resources s fd' = Some y" for fd' y
      using that by (metis domI map_le_def)
    show "safe env (\<lambda>(ok, s'). inv {} s' \<and> others_kept fd s s' \<and>
        (ok \<longrightarrow> re_resources s' fd = Some x)) (if ok then Inr (True, s') else bind_res (remove_resource fd s') (\<lambda>s''. Inr (False, s'')))"
    proof (cases ok)
      case True
      then show ?thesis using s'(1) sub assms(3) by (auto simp: others_kept_def)
    next
      case False
      then have i: "inv {fd} s'" using s'(1) by simp
      obtain s'' where r: "remove_resource fd s' = Inr s''" using remove_resource_safe [OF inv_reactor [OF i], of fd] by blast
      then show ?thesis using False removal_safe [OF i _ r] removed_registered [OF i _ r] sub by (auto simp: others_kept_def)
    qed
  qed
  ultimately show ?thesis by (simp add: hook_or_remove_def)
qed

lemma poll_readables_safe:
  assumes "inv {} s" "distinct fds" "set fds \<subseteq> dom (re_resources s)"
  shows "safe env (inv {}) (poll_readables hooks fds s)"
  using assms
proof (induction fds arbitrary: s)
  case (Cons fd fds)
  then obtain x where x: "re_resources s fd = Some x" by auto
  have "safe env (inv {}) (poll_readables hooks fds s')" if "inv {} s'" "others_kept fd s s'" for s'
    using that(1) Cons.prems others_keptD [OF that(2), of "set fds"] by (intro Cons.IH) auto
  then show ?case using x Cons.prems(1) by (auto intro!: safe_bind [OF hook_or_remove_safe [of "on_readable hooks" s fd x]])
qed simp

lemma remove_resources_safe:
  assumes "inv (set fds) s" "distinct fds"
  shows "safe env (inv {}) (remove_resources fds s)"
  using assms
proof (induction fds arbitrary: s)
  case (Cons fd fds)
  obtain s' where r: "remove_resource fd s = Inr s'" using remove_resource_safe [OF inv_reactor [OF Cons.prems(1)], of fd] by auto
  have "set (fd # fds) - {fd} = set fds" using Cons.prems(2) by auto
  then have "inv (set fds) s'" using removal_safe [OF Cons.prems(1) _ r] by (metis list.set_intros(1))
  then show ?case using Cons r by simp
qed simp

lemma hook_if_safe:
  assumes "h \<in> {on_readable hooks, on_writable hooks, on_hangup hooks, on_error hooks}" "inv {} s" "re_resources s fd = Some x"
  shows "safe env (\<lambda>(ok, s'). inv {} s' \<and> others_kept fd s s' \<and>
      (ok \<longrightarrow> re_resources s' fd = Some x)) (hook_if c h fd x s)"
  using hook_or_remove_safe [OF assms] assms(2,3) by (cases c) (simp_all add: hook_if_def)

lemma poll_event_safe:
  assumes "inv {} s" "re_resources s (ev_fd ev) = Some x"
  shows "safe env (\<lambda>s'. inv {} s' \<and> others_kept (ev_fd ev) s s') (poll_event hooks ev s)"
proof (cases "ev_err ev")
  case True
  then show ?thesis using assms
    by (auto simp: poll_event_def intro!: safe_bind [OF hook_or_remove_safe [of "on_error hooks" s "ev_fd ev" x]])
next
  case False
  let ?fd = "ev_fd ev"
  have "safe env (\<lambda>s'. inv {} s' \<and> others_kept ?fd s s')
    (bind_res (hook_if (ev_hup ev) (on_hangup hooks) ?fd x s) (\<lambda>(ok, s1).
      if \<not> ok then Inr s1 else
      bind_res (hook_if (ev_in ev) (on_readable hooks) ?fd x s1) (\<lambda>(ok, s2).
      if \<not> ok then Inr s2 else
      bind_res (hook_if (ev_out ev) (on_writable hooks) ?fd x s2) (\<lambda>(ok, s3). Inr s3))))"
  proof (rule safe_bind [OF hook_if_safe [of "on_hangup hooks" s ?fd x]], goal_cases)
    case (4 p)
    then obtain ok s\<^sub>1 where p: "p = (ok, s\<^sub>1)" and s1: "inv {} s\<^sub>1" "others_kept ?fd s s\<^sub>1" "ok \<longrightarrow> re_resources s\<^sub>1 ?fd = Some x"
      by (cases p) auto
    have "safe env (\<lambda>s'. inv {} s' \<and> others_kept ?fd s s')
      (bind_res (hook_if (ev_in ev) (on_readable hooks) ?fd x s\<^sub>1) (\<lambda>(ok, s2).
        if \<not> ok then Inr s2 else bind_res (hook_if (ev_out ev) (on_writable hooks) ?fd x s2) (\<lambda>(ok, s3). Inr s3)))" if ok
    proof (rule safe_bind [OF hook_if_safe [of "on_readable hooks" s\<^sub>1 ?fd x]], goal_cases)
      case (4 p)
      then obtain ok' s\<^sub>2 where p: "p = (ok', s\<^sub>2)" and s2: "inv {} s\<^sub>2" "others_kept ?fd s\<^sub>1 s\<^sub>2" "ok' \<longrightarrow> re_resources s\<^sub>2 ?fd = Some x"
        by (cases p) auto
      have "safe env (\<lambda>s'. inv {} s' \<and> others_kept ?fd s s') (bind_res (hook_if (ev_out ev) (on_writable hooks) ?fd x s\<^sub>2) (\<lambda>(ok, s3). Inr s3))" if ok'
        using that s2 others_kept_trans [OF s1(2) others_kept_trans [OF s2(2)]]
        by (auto intro!: safe_bind [OF hook_if_safe [of "on_writable hooks" s\<^sub>2 ?fd x]])
      then show ?case using p s1 s2 others_kept_trans by auto
    qed (use s1 that in simp_all)
    then show ?case using p s1 by auto
  qed (use assms in simp_all)
  then show ?thesis using False assms(2) by (simp add: poll_event_def)
qed

lemma poll_events_safe:
  assumes "inv {} s" "distinct (map ev_fd evs)" "ev_fd ` set evs \<subseteq> dom (re_resources s)"
  shows "safe env (inv {}) (poll_events hooks evs s)"
  using assms
proof (induction evs arbitrary: s)
  case (Cons ev evs)
  then obtain x where x: "re_resources s (ev_fd ev) = Some x" by auto
  have "safe env (inv {}) (poll_events hooks evs s')" if "inv {} s'" "others_kept (ev_fd ev) s s'" for s'
    using that(1) Cons.prems others_keptD [OF that(2), of "ev_fd ` set evs"] by (intro Cons.IH) auto
  then show ?case using safe_bind [OF poll_event_safe [OF Cons.prems(1) x]] by auto
qed simp

lemma poll_safe:
  assumes "inv {} s"
  shows "safe env (inv {}) (poll hooks s)"
proof -
  let ?fds = "remdups_adj (sort (re_readables s))"
  have "distinct ?fds" by (simp add: distinct_sorted_remdups_adj)
  moreover have "set ?fds \<subseteq> dom (re_resources s)" using reactor_invD(6) [OF inv_reactor [OF assms]] by simp
  ultimately have 1: "safe env (inv {}) (poll_readables hooks ?fds (s\<lparr>re_readables := []\<rparr>))"
    using poll_readables_safe [OF readables_safe [OF assms], of ?fds] by simp
  have 2: "safe env (inv {}) (remove_resources (re_drop_req s\<^sub>1) (s\<^sub>1\<lparr>re_drop_req := []\<rparr>))" if "inv {} s\<^sub>1" for s\<^sub>1
    using remove_resources_safe [OF drops_safe [OF that]] reactor_invD(8) [OF inv_reactor [OF that]] by simp
  have 3: "safe env (inv {})
    (case epoll_wait hooks timeout s\<^sub>2 of (answer, s3) \<Rightarrow>
       (case answer of Wait_intr \<Rightarrow> Inr s3 | Wait_error \<Rightarrow> Inl (Throws (Runtime_error ''epoll_wait'')) | Events evs \<Rightarrow> poll_events hooks evs s3))"
    if i: "inv {} s\<^sub>2" for s\<^sub>2 timeout
  proof -
    obtain answer s\<^sub>3 where w: "epoll_wait hooks timeout s\<^sub>2 = (answer, s\<^sub>3)" by (metis surj_pair)
    from wait_safe [OF i w] reactor_invD(5) [OF inv_reactor [of "{}" s\<^sub>3]] show ?thesis
      by (cases answer) (auto simp: w intro!: poll_events_safe)
  qed
  show ?thesis unfolding poll_def Let_def by (intro safe_bind [OF 1] safe_bind [OF 2] 3)
qed

lemma run_rounds_safe:
  assumes "inv {} s" "\<And>s. inv {} s \<Longrightarrow> safe env (inv {}) (callback s)"
  shows "safe env (inv {}) (run_rounds n hooks elapsed callback s)"
  using assms(1)
proof (induction n arbitrary: s)
  case (Suc n)
  have "safe env (inv {}) (if elapsed s' then callback s' else Inr s')" if "inv {} s'" for s'
    using that assms(2) by simp
  then have "safe env (inv {}) (bind_res (poll hooks s) (\<lambda>s1. bind_res (if elapsed s1 then callback s1 else Inr s1) (run_rounds n hooks elapsed callback)))"
    using Suc by (intro safe_bind [OF poll_safe] safe_bind [where Q = "inv {}"])
  then show ?case using Suc.prems by simp
qed simp

end

end
