(* ===== verification/Worker.thy ===== *)
theory Worker
  imports Prelude
begin

text \<open>
  Models \<^verbatim>\<open>cybozu/worker.hpp\<close>: a worker thread and the thread that gives it jobs.

  Both threads run concurrently, so the model is a step relation in which one atomic action of either thread is a step: the
  accesses to \<^verbatim>\<open>m_job\<close>, \<^verbatim>\<open>m_running\<close>, \<^verbatim>\<open>m_exit\<close> and the event descriptor, in the order in which the
  code performs them.  A loop that spins without effect is no step; a thread that spins for ever has no step.
  Jobs are told apart by a value; \<open>w_posted\<close> and \<open>w_ran\<close> record those posted and those completed.
\<close>

section \<open>The threads\<close>

text \<open>The place of the worker in \<^verbatim>\<open>run\<close>, and of the other thread in \<^verbatim>\<open>post_job\<close> and \<^verbatim>\<open>stop\<close>.\<close>

datatype 'j worker_pc = Unstarted | At_store | At_read | At_spin | At_check | In_job 'j | Exited

datatype caller_pc = Free | Job_set | Running_set | Exit_set | Exit_running | Joining | Joined

record 'j worker =
  w_running :: bool
  w_exit :: bool
  w_event :: nat
  w_job :: "'j option"
  w_pc :: "'j worker_pc"
  w_caller :: caller_pc
  w_posted :: "'j list"
  w_ran :: "'j list"

definition worker_ctor :: "'j worker" where
  "worker_ctor = \<lparr>w_running = False, w_exit = False, w_event = 0, w_job = None, w_pc = Unstarted, w_caller = Free, w_posted = [], w_ran = []\<rparr>"

definition is_running :: "'j worker \<Rightarrow> bool" where
  "is_running w = w_running w"

text \<open>The worker thread: \<^verbatim>\<open>run\<close>.\<close>

inductive run_step :: "'j worker \<Rightarrow> 'j worker \<Rightarrow> bool" where
  start: "w_pc w = Unstarted \<Longrightarrow> run_step w (w\<lparr>w_pc := At_store\<rparr>)"
| store: "w_pc w = At_store \<Longrightarrow> run_step w (w\<lparr>w_running := False, w_pc := At_read\<rparr>)"
| read_event: "w_pc w = At_read \<Longrightarrow> w_event w > 0 \<Longrightarrow> run_step w (w\<lparr>w_event := 0, w_pc := At_spin\<rparr>)"
| spin: "w_pc w = At_spin \<Longrightarrow> w_running w \<Longrightarrow> run_step w (w\<lparr>w_pc := At_check\<rparr>)"
| exit: "w_pc w = At_check \<Longrightarrow> w_exit w \<Longrightarrow> run_step w (w\<lparr>w_pc := Exited\<rparr>)"
| call: "w_pc w = At_check \<Longrightarrow> \<not> w_exit w \<Longrightarrow> w_job w = Some j \<Longrightarrow> run_step w (w\<lparr>w_pc := In_job j\<rparr>)"
| return: "w_pc w = In_job j \<Longrightarrow> run_step w (w\<lparr>w_pc := At_store, w_ran := w_ran w @ [j]\<rparr>)"

text \<open>The calling thread: \<^verbatim>\<open>post_job\<close>, only for a worker that it found idle, and \<^verbatim>\<open>stop\<close>.\<close>

inductive call_step :: "'j worker \<Rightarrow> 'j worker \<Rightarrow> bool" where
  post: "w_caller w = Free \<Longrightarrow> \<not> is_running w \<Longrightarrow> call_step w (w\<lparr>w_job := Some j, w_caller := Job_set, w_posted := w_posted w @ [j]\<rparr>)"
| post_running: "w_caller w = Job_set \<Longrightarrow> call_step w (w\<lparr>w_running := True, w_caller := Running_set\<rparr>)"
| post_notify: "w_caller w = Running_set \<Longrightarrow> call_step w (w\<lparr>w_event := w_event w + 1, w_caller := Free\<rparr>)"
| stop: "w_caller w = Free \<Longrightarrow> call_step w (w\<lparr>w_exit := True, w_caller := Exit_set\<rparr>)"
| stop_running: "w_caller w = Exit_set \<Longrightarrow> call_step w (w\<lparr>w_running := True, w_caller := Exit_running\<rparr>)"
| stop_notify: "w_caller w = Exit_running \<Longrightarrow> call_step w (w\<lparr>w_event := w_event w + 1, w_caller := Joining\<rparr>)"
| join: "w_caller w = Joining \<Longrightarrow> w_pc w = Exited \<Longrightarrow> call_step w (w\<lparr>w_caller := Joined\<rparr>)"

inductive worker_step :: "'j worker \<Rightarrow> 'j worker \<Rightarrow> bool" where
  worker_side: "run_step w w' \<Longrightarrow> worker_step w w'"
| caller_side: "call_step w w' \<Longrightarrow> worker_step w w'"

inductive worker_reaches :: "'j worker \<Rightarrow> 'j worker \<Rightarrow> bool" where
  here: "worker_reaches w w"
| further: "worker_reaches w w' \<Longrightarrow> worker_step w' w'' \<Longrightarrow> worker_reaches w w''"

text \<open>The round robin search for an idle worker of \<^verbatim>\<open>server.cpp\<close>: the worker found and the new index.\<close>

fun find_worker :: "nat \<Rightarrow> bool list \<Rightarrow> nat \<Rightarrow> nat option \<times> nat" where
  "find_worker 0 busy index = (None, index)"
| "find_worker (Suc n) busy index =
     (let next_index = (index + 1) mod length busy
      in if \<not> busy ! index then (Some index, next_index) else find_worker n busy next_index)"

definition finder :: "bool list \<Rightarrow> nat \<Rightarrow> nat option \<times> nat" where
  "finder busy index = find_worker (length busy) busy index"

section \<open>No job is lost\<close>

text \<open>
  The agreement of the two threads once the worker waits for its first job: at most one job is on its way, and an
  idle worker has completed every job.
\<close>

definition pending_job :: "'j worker \<Rightarrow> bool" where
  "pending_job w \<longleftrightarrow> (\<exists>j. w_job w = Some j \<and> w_posted w = w_ran w @ [j])"

definition handed_over :: "'j worker \<Rightarrow> bool" where
  "handed_over w \<longleftrightarrow>
     (case w_pc w of
        At_read \<Rightarrow> w_event w = 1 \<and> pending_job w
      | At_spin \<Rightarrow> w_event w = 0 \<and> pending_job w
      | At_check \<Rightarrow> w_event w = 0 \<and> pending_job w
      | In_job j \<Rightarrow> w_event w = 0 \<and> w_posted w = w_ran w @ [j]
      | At_store \<Rightarrow> w_event w = 0 \<and> w_posted w = w_ran w
      | _ \<Rightarrow> False)"

definition worker_ok :: "'j worker \<Rightarrow> bool" where
  "worker_ok w \<longleftrightarrow>
     (case w_caller w of
        Free \<Rightarrow> \<not> w_exit w \<and>
          (if w_running w then handed_over w else w_pc w = At_read \<and> w_event w = 0 \<and> w_posted w = w_ran w)
      | Job_set \<Rightarrow> \<not> w_exit w \<and> \<not> w_running w \<and> w_pc w = At_read \<and> w_event w = 0 \<and> pending_job w
      | Running_set \<Rightarrow> \<not> w_exit w \<and> w_running w \<and> w_pc w = At_read \<and> w_event w = 0 \<and> pending_job w
      | _ \<Rightarrow> True)"

definition worker_waiting :: "'j worker" where
  "worker_waiting = worker_ctor\<lparr>w_pc := At_read\<rparr>"

lemmas worker_defs = worker_ok_def handed_over_def pending_job_def is_running_def

lemma worker_step_ok: "worker_step w w' \<Longrightarrow> worker_ok w \<Longrightarrow> worker_ok w'"
  by (elim worker_step.cases run_step.cases call_step.cases)
    (auto simp: worker_defs split: caller_pc.splits worker_pc.splits if_splits)

lemma worker_reaches_ok: "worker_reaches w w' \<Longrightarrow> worker_ok w \<Longrightarrow> worker_ok w'"
  by (induction rule: worker_reaches.induct) (auto intro: worker_step_ok)

lemma worker_waiting_ok: "worker_ok worker_waiting"
  by (simp add: worker_ok_def worker_waiting_def worker_ctor_def)

text \<open>The worker alone: what it does next is determined.\<close>

lemma run_step_deterministic: "run_step w w' \<Longrightarrow> run_step w w'' \<Longrightarrow> w' = w''"
  by (auto elim!: run_step.cases)

lemma run_steps_from_store:
  "w_pc w = At_store \<Longrightarrow> \<exists>w'. run_step\<^sup>*\<^sup>* w w' \<and> \<not> w_running w' \<and> w_ran w' = w_ran w"
  by (rule exI [of _ "w\<lparr>w_running := False, w_pc := At_read\<rparr>"]) (simp add: r_into_rtranclp run_step.store)

lemma run_steps_from_job:
  assumes "w_pc w = In_job j"
  shows "\<exists>w'. run_step\<^sup>*\<^sup>* w w' \<and> \<not> w_running w' \<and> w_ran w' = w_ran w @ [j]"
  using run_steps_from_store [of "w\<lparr>w_pc := At_store, w_ran := w_ran w @ [j]\<rparr>"] run_step.return [OF assms]
  by (auto intro: converse_rtranclp_into_rtranclp)

lemma run_steps_from_check:
  assumes "w_pc w = At_check" "\<not> w_exit w" "w_job w = Some j"
  shows "\<exists>w'. run_step\<^sup>*\<^sup>* w w' \<and> \<not> w_running w' \<and> w_ran w' = w_ran w @ [j]"
  using run_steps_from_job [of "w\<lparr>w_pc := In_job j\<rparr>" j] run_step.call [OF assms]
  by (auto intro: converse_rtranclp_into_rtranclp)

lemma run_steps_from_spin:
  assumes "w_pc w = At_spin" "w_running w" "\<not> w_exit w" "w_job w = Some j"
  shows "\<exists>w'. run_step\<^sup>*\<^sup>* w w' \<and> \<not> w_running w' \<and> w_ran w' = w_ran w @ [j]"
  using run_steps_from_check [of "w\<lparr>w_pc := At_check\<rparr>" j] run_step.spin [OF assms(1,2)] assms
  by (auto intro: converse_rtranclp_into_rtranclp)

lemma run_steps_from_read:
  assumes "w_pc w = At_read" "w_event w > 0" "w_running w" "\<not> w_exit w" "w_job w = Some j"
  shows "\<exists>w'. run_step\<^sup>*\<^sup>* w w' \<and> \<not> w_running w' \<and> w_ran w' = w_ran w @ [j]"
  using run_steps_from_spin [of "w\<lparr>w_event := 0, w_pc := At_spin\<rparr>" j] run_step.read_event [OF assms(1,2)] assms
  by (auto intro: converse_rtranclp_into_rtranclp)

text \<open>
  C32: a worker that waited before its first job runs every job that is posted to it exactly once and in order: the jobs completed are those posted
  except for at most the last one, a worker seen idle has completed them all, and a busy one completes them by its own steps.
\<close>

theorem worker_completes:
  assumes "worker_reaches worker_waiting w" "w_caller w = Free"
  shows "(\<exists>rest. w_posted w = w_ran w @ rest \<and> length rest \<le> 1) \<and> (\<not> is_running w \<longrightarrow> w_ran w = w_posted w) \<and>
    (\<exists>w'. run_step\<^sup>*\<^sup>* w w' \<and> \<not> is_running w' \<and> w_ran w' = w_posted w)"
proof -
  have ok: "worker_ok w" using worker_reaches_ok [OF assms(1) worker_waiting_ok] .
  show ?thesis
  proof (cases "w_running w")
    case False
    then show ?thesis using ok assms(2) by (auto simp: worker_defs)
  next
    case True
    then have h: "handed_over w" "\<not> w_exit w" using ok assms(2) by (simp_all add: worker_ok_def)
    have "\<exists>w'. run_step\<^sup>*\<^sup>* w w' \<and> \<not> w_running w' \<and> w_ran w' = w_posted w"
      using h True run_steps_from_store [of w] run_steps_from_job [of w] run_steps_from_check [of w] run_steps_from_spin [of w] run_steps_from_read [of w]
      by (auto simp: handed_over_def pending_job_def split: worker_pc.splits)
    then show ?thesis using h True by (auto simp: worker_defs split: worker_pc.splits)
  qed
qed

text \<open>Posting one job, as a run.\<close>

definition posted_once :: "'j \<Rightarrow> 'j worker \<Rightarrow> 'j worker" where
  "posted_once j w = w\<lparr>w_job := Some j, w_posted := w_posted w @ [j], w_running := True, w_event := w_event w + 1, w_caller := Free\<rparr>"

lemma reaches_posted_once:
  assumes "worker_reaches v w" "w_caller w = Free" "\<not> w_running w"
  shows "worker_reaches v (posted_once j w)"
proof -
  let ?w1 = "w\<lparr>w_job := Some j, w_caller := Job_set, w_posted := w_posted w @ [j]\<rparr>"
  let ?w2 = "?w1\<lparr>w_running := True, w_caller := Running_set\<rparr>"
  have "call_step w ?w1" "call_step ?w1 ?w2" "call_step ?w2 (posted_once j w)"
    using post [of w j] post_running [of ?w1] post_notify [of ?w2] assms(2,3) by (simp_all add: is_running_def posted_once_def)
  then show ?thesis using assms(1) by (meson further caller_side)
qed

theorem worker_completes_witness:
  "\<exists>w'. run_step\<^sup>*\<^sup>* (posted_once (5 :: nat) worker_waiting) w' \<and> \<not> is_running w' \<and> w_ran w' = [5]"
proof -
  have "worker_reaches worker_waiting (posted_once (5 :: nat) worker_waiting)"
    by (rule reaches_posted_once [OF here]) (simp_all add: worker_waiting_def worker_ctor_def)
  from worker_completes [OF this] show ?thesis by (simp add: posted_once_def worker_waiting_def worker_ctor_def)
qed

section \<open>Stopping\<close>

text \<open>What is left to do until an idle worker that is being stopped has been joined.\<close>

definition stop_left :: "'j worker \<Rightarrow> nat" where
  "stop_left w =
     (case w_caller w of Exit_set \<Rightarrow> 7 | Exit_running \<Rightarrow> 6
      | Joining \<Rightarrow> (case w_pc w of At_read \<Rightarrow> 5 | At_spin \<Rightarrow> 4 | At_check \<Rightarrow> 3 | _ \<Rightarrow> 2) | _ \<Rightarrow> 0)"

definition stopping_idle :: "'j worker \<Rightarrow> bool" where
  "stopping_idle w \<longleftrightarrow> w_exit w \<and>
     (case w_caller w of
        Exit_set \<Rightarrow> w_pc w = At_read \<and> w_event w = 0
      | Exit_running \<Rightarrow> w_pc w = At_read \<and> w_event w = 0 \<and> w_running w
      | Joining \<Rightarrow> w_running w \<and> (w_pc w = At_read \<and> w_event w > 0 \<or> w_pc w \<in> {At_spin, At_check, Exited})
      | Joined \<Rightarrow> True
      | _ \<Rightarrow> False)"

lemma stopping_idle_step:
  assumes "worker_step w w'" "stopping_idle w"
  shows "stopping_idle w' \<and> (w_caller w \<noteq> Joined \<longrightarrow> stop_left w' < stop_left w)"
  using assms
  by (elim worker_step.cases run_step.cases call_step.cases)
    (auto simp: stopping_idle_def stop_left_def split: caller_pc.splits worker_pc.splits)

lemma stopping_idle_progress:
  assumes "stopping_idle w" "w_caller w \<noteq> Joined"
  shows "\<exists>w'. worker_step w w'"
proof (cases "w_caller w")
  case Joining
  then have "w_running w" "w_exit w" "w_pc w = At_read \<and> w_event w > 0 \<or> w_pc w \<in> {At_spin, At_check, Exited}"
    using assms(1) by (simp_all add: stopping_idle_def)
  then show ?thesis using Joining worker_side [OF read_event] worker_side [OF spin] worker_side [OF exit] caller_side [OF join] by blast
qed (use assms caller_side [OF stop_running] caller_side [OF stop_notify] in \<open>auto simp: stopping_idle_def\<close>)

lemma stopping_idle_reaches: "worker_reaches w w' \<Longrightarrow> stopping_idle w \<Longrightarrow> stopping_idle w'"
  by (induction rule: worker_reaches.induct) (auto dest: stopping_idle_step)

text \<open>
  C33: \<^verbatim>\<open>stop\<close> returns when it is called for an idle worker: from then on every step of either thread brings the
  end nearer, and the threads can only come to rest when the worker has been joined.
\<close>

theorem worker_stop_returns:
  assumes "worker_reaches worker_waiting w" "w_caller w = Free" "\<not> is_running w" "worker_reaches (w\<lparr>w_exit := True, w_caller := Exit_set\<rparr>) w'"
  shows "(\<forall>w''. worker_step w' w'' \<longrightarrow> w_caller w' \<noteq> Joined \<longrightarrow> stop_left w'' < stop_left w') \<and>
    ((\<nexists>w''. worker_step w' w'') \<longrightarrow> w_caller w' = Joined)"
proof -
  have "worker_ok w" using worker_reaches_ok [OF assms(1) worker_waiting_ok] .
  then have "stopping_idle (w\<lparr>w_exit := True, w_caller := Exit_set\<rparr>)"
    using assms(2,3) by (simp add: worker_ok_def stopping_idle_def is_running_def)
  then have "stopping_idle w'" using stopping_idle_reaches [OF assms(4)] by blast
  then show ?thesis using stopping_idle_step stopping_idle_progress by blast
qed

theorem worker_stop_returns_witness:
  "\<exists>w :: nat worker. worker_reaches worker_waiting w \<and> w_ran w = [5] \<and>
     ((\<nexists>w''. worker_step (w\<lparr>w_exit := True, w_caller := Exit_set\<rparr>) w'') \<longrightarrow> w_caller (w\<lparr>w_exit := True, w_caller := Exit_set\<rparr>) = Joined)"
proof -
  have r: "worker_reaches worker_waiting (posted_once (5 :: nat) worker_waiting)"
    by (rule reaches_posted_once [OF here]) (simp_all add: worker_waiting_def worker_ctor_def)
  have "worker_reaches v w'" if "run_step\<^sup>*\<^sup>* w w'" "worker_reaches v w" for v w w' :: "nat worker"
    using that by (induction rule: rtranclp_induct) (auto intro: further worker_side)
  moreover have "w_caller w' = w_caller w" if "run_step\<^sup>*\<^sup>* w w'" for w w' :: "nat worker"
    using that by (induction rule: rtranclp_induct) (auto elim: run_step.cases)
  moreover obtain w where w: "run_step\<^sup>*\<^sup>* (posted_once (5 :: nat) worker_waiting) w" "\<not> is_running w" "w_ran w = [5]"
    using run_steps_from_read [of "posted_once (5 :: nat) worker_waiting" 5]
    by (auto simp: posted_once_def worker_waiting_def worker_ctor_def is_running_def)
  ultimately have "worker_reaches worker_waiting w" "w_caller w = Free"
    using r by (auto simp: posted_once_def)
  with worker_stop_returns [OF this w(2) here] w(3) show ?thesis by blast
qed

text \<open>The worker stores \<^verbatim>\<open>false\<close> after \<^verbatim>\<open>stop\<close> has stored \<^verbatim>\<open>true\<close>.\<close>

definition stop_missed :: "'j worker \<Rightarrow> bool" where
  "stop_missed w \<longleftrightarrow> w_caller w \<in> {Exit_running, Joining} \<and>
     ((\<exists>j. w_pc w = In_job j) \<or> w_pc w = At_store \<or> w_pc w \<in> {At_read, At_spin} \<and> \<not> w_running w)"

lemma stop_missed_step: "worker_step w w' \<Longrightarrow> stop_missed w \<Longrightarrow> stop_missed w'"
  by (elim worker_step.cases run_step.cases call_step.cases) (auto simp: stop_missed_def)

lemma stop_missed_reaches: "worker_reaches w w' \<Longrightarrow> stop_missed w \<Longrightarrow> stop_missed w'"
  by (induction rule: worker_reaches.induct) (auto intro: stop_missed_step)

text \<open>
  \<^verbatim>\<open>stop\<close> never returns when the worker is still inside a job at the time \<^verbatim>\<open>stop\<close> sets \<^verbatim>\<open>m_running\<close>: after the job the
  worker clears the flag, takes the event and waits for the flag for ever.
\<close>

theorem worker_stop_hangs:
  assumes "w_pc w = In_job j" "w_caller w = Exit_running" "worker_reaches w w'"
  shows "w_pc w' \<noteq> Exited \<and> w_caller w' \<noteq> Joined"
proof -
  have "stop_missed w'" using stop_missed_reaches [OF assms(3)] assms(1,2) by (auto simp: stop_missed_def)
  then show ?thesis by (auto simp: stop_missed_def)
qed

text \<open>Such a state is reached when a worker is stopped in the middle of a job.\<close>

lemma reaches_in_job:
  assumes "worker_reaches v w" "w_pc w = At_read" "w_event w > 0" "w_running w" "\<not> w_exit w" "w_job w = Some j"
  shows "worker_reaches v (w\<lparr>w_event := 0, w_pc := In_job j\<rparr>)"
proof -
  let ?w1 = "w\<lparr>w_event := 0, w_pc := At_spin\<rparr>" and ?w2 = "w\<lparr>w_event := 0, w_pc := At_check\<rparr>"
  have "run_step w ?w1" "run_step ?w1 ?w2" "run_step ?w2 (w\<lparr>w_event := 0, w_pc := In_job j\<rparr>)"
    using read_event [of w] spin [of ?w1] call [of ?w2 j] assms(2-6) by simp_all
  then show ?thesis using assms(1) by (meson further worker_side)
qed

lemma reaches_stopping:
  assumes "worker_reaches v w" "w_caller w = Free"
  shows "worker_reaches v (w\<lparr>w_exit := True, w_running := True, w_caller := Exit_running\<rparr>)"
proof -
  let ?w1 = "w\<lparr>w_exit := True, w_caller := Exit_set\<rparr>"
  have "call_step w ?w1" "call_step ?w1 (w\<lparr>w_exit := True, w_running := True, w_caller := Exit_running\<rparr>)"
    using stop [of w] stop_running [of ?w1] assms(2) by simp_all
  then show ?thesis using assms(1) by (meson further caller_side)
qed

lemma worker_stop_hangs_reachable:
  "\<exists>w. worker_reaches worker_waiting w \<and> w_pc w = In_job (5 :: nat) \<and> w_caller w = Exit_running \<and>
     (\<forall>w'. worker_reaches w w' \<longrightarrow> w_caller w' \<noteq> Joined)"
proof -
  let ?p = "posted_once (5 :: nat) worker_waiting"
  let ?w = "?p\<lparr>w_event := 0, w_pc := In_job 5, w_exit := True, w_running := True, w_caller := Exit_running\<rparr>"
  have "worker_reaches worker_waiting ?p"
    by (rule reaches_posted_once [OF here]) (simp_all add: worker_waiting_def worker_ctor_def)
  then have "worker_reaches worker_waiting (?p\<lparr>w_event := 0, w_pc := In_job 5\<rparr>)"
    by (rule reaches_in_job) (simp_all add: posted_once_def worker_waiting_def worker_ctor_def)
  from reaches_stopping [OF this] have "worker_reaches worker_waiting ?w" by (simp add: posted_once_def)
  moreover have "\<forall>w'. worker_reaches ?w w' \<longrightarrow> w_caller w' \<noteq> Joined" using worker_stop_hangs [of ?w 5] by simp
  ultimately show ?thesis by (intro exI [of _ ?w]) simp
qed

section \<open>Starting\<close>

text \<open>
  \<^verbatim>\<open>run\<close> begins with a store to \<^verbatim>\<open>m_running\<close>.  A job that is posted before that store and whose notification comes after it
  is lost: the worker looks idle, the next job replaces it.
\<close>

theorem worker_start_race:
  fixes j\<^sub>1 j\<^sub>2 :: 'j
  shows "\<exists>w. worker_reaches worker_ctor w \<and> w_caller w = Free \<and> \<not> is_running w \<and> w_posted w = [j\<^sub>1, j\<^sub>2] \<and> w_ran w = [j\<^sub>2]"
proof -
  let ?a = "worker_ctor :: 'j worker"
  let ?b = "?a\<lparr>w_job := Some j\<^sub>1, w_caller := Job_set, w_posted := [j\<^sub>1]\<rparr>"
  let ?c = "?b\<lparr>w_running := True, w_caller := Running_set\<rparr>"
  let ?d = "?c\<lparr>w_pc := At_store\<rparr>"
  let ?e = "?d\<lparr>w_running := False, w_pc := At_read\<rparr>"
  let ?f = "?e\<lparr>w_event := 1, w_caller := Free\<rparr>"
  let ?g = "posted_once j\<^sub>2 ?f"
  let ?h = "?g\<lparr>w_event := 0, w_pc := In_job j\<^sub>2\<rparr>"
  let ?i = "?h\<lparr>w_pc := At_store, w_ran := [j\<^sub>2]\<rparr>"
  let ?k = "?i\<lparr>w_running := False, w_pc := At_read\<rparr>"
  have "call_step ?a ?b" "call_step ?b ?c" "run_step ?c ?d" "run_step ?d ?e" "call_step ?e ?f"
    using post [of ?a j\<^sub>1] post_running [of ?b] start [of ?c] store [of ?d] post_notify [of ?e]
    by (simp_all add: worker_ctor_def is_running_def)
  then have "worker_reaches ?a ?f" by (meson here further worker_side caller_side)
  then have "worker_reaches ?a ?g" by (rule reaches_posted_once) (simp_all add: worker_ctor_def)
  then have "worker_reaches ?a ?h" by (rule reaches_in_job) (simp_all add: posted_once_def worker_ctor_def)
  moreover have "run_step ?h ?i" "run_step ?i ?k"
    using return [of ?h j\<^sub>2] store [of ?i] by (simp_all add: posted_once_def worker_ctor_def)
  ultimately have "worker_reaches ?a ?k" by (meson further worker_side)
  then show ?thesis by (intro exI [of _ ?k]) (simp add: posted_once_def worker_ctor_def is_running_def)
qed

section \<open>Finding an idle worker\<close>

lemma next_index: "(index :: nat) < n \<Longrightarrow> Suc index mod n < n"
  by (rule mod_less_divisor) simp

lemma find_worker_index: "index < length busy \<Longrightarrow> snd (find_worker n busy index) < length busy"
  by (induction n arbitrary: index) (simp_all add: Let_def next_index)

lemma find_worker_idle: "find_worker n busy index = (Some i, next_index) \<Longrightarrow> index < length busy \<Longrightarrow> i < length busy \<and> \<not> busy ! i"
  by (induction n arbitrary: index) (auto simp: Let_def next_index split: if_splits)

lemma find_worker_None:
  "index < length busy \<Longrightarrow> fst (find_worker n busy index) = None \<longleftrightarrow> (\<forall>m < n. busy ! ((index + m) mod length busy))"
proof (induction n arbitrary: index)
  case (Suc n)
  let ?next_index = "(index + 1) mod length busy"
  have "fst (find_worker (Suc n) busy index) = None \<longleftrightarrow> busy ! index \<and> fst (find_worker n busy ?next_index) = None"
    by (simp add: Let_def)
  also have "\<dots> \<longleftrightarrow> busy ! index \<and> (\<forall>m < n. busy ! ((?next_index + m) mod length busy))"
    using Suc.IH [of ?next_index] Suc.prems by (metis length_pos_if_in_set mod_less_divisor nth_mem)
  also have "\<dots> \<longleftrightarrow> (\<forall>m < Suc n. busy ! ((index + m) mod length busy))"
    using Suc.prems by (auto simp: All_less_Suc2 mod_simps)
  finally show ?case .
qed simp

lemma mod_offset:
  fixes i index n :: nat
  assumes "i < n" "index < n"
  shows "\<exists>m < n. (index + m) mod n = i"
proof (cases "index \<le> i")
  case True
  then show ?thesis using assms by (intro exI [of _ "i - index"]) simp
next
  case False
  then show ?thesis using assms by (intro exI [of _ "n + i - index"]) (simp add: mod_if)
qed

text \<open>The search finds an idle worker exactly when there is one.\<close>

theorem finder_correct:
  assumes "index < length busy"
  shows "(\<exists>i. fst (finder busy index) = Some i) \<longleftrightarrow> False \<in> set busy"
    and "fst (finder busy index) = Some i \<Longrightarrow> i < length busy \<and> \<not> busy ! i"
    and "snd (finder busy index) < length busy"
proof -
  have "fst (finder busy index) = None \<longleftrightarrow> (\<forall>m < length busy. busy ! ((index + m) mod length busy))"
    using find_worker_None [OF assms] by (simp add: finder_def)
  also have "\<dots> \<longleftrightarrow> (\<forall>i < length busy. busy ! i)"
    using assms by (metis mod_less_divisor mod_offset gr_implies_not0 not_gr_zero)
  also have "\<dots> \<longleftrightarrow> False \<notin> set busy"
    by (metis (full_types) in_set_conv_nth)
  finally show "(\<exists>i. fst (finder busy index) = Some i) \<longleftrightarrow> False \<in> set busy"
    by (metis not_None_eq)
  show "i < length busy \<and> \<not> busy ! i" if "fst (finder busy index) = Some i"
    using find_worker_idle [of "length busy" busy index i] that assms
    by (metis finder_def prod.collapse)
  show "snd (finder busy index) < length busy"
    using find_worker_index [OF assms] by (simp add: finder_def)
qed

end
