(* ===== verification/Sync.thy ===== *)
theory Sync
  imports Config
begin

text \<open>
  Models \<^verbatim>\<open>src/sync.hpp\<close>: requests that run a callback once every worker was seen idle since the request was
  made.  What the callback does is given by \<open>run\<close>, a function of the callback and the state of its owner;
  \<open>idle\<close> has an entry for each worker, true if the worker is not running.
\<close>

section \<open>Requests\<close>

record 'cb sync_request =
  sr_callback :: 'cb
  sr_flags :: "bool list"

definition sync_request_ctor :: "'cb \<Rightarrow> 'cb sync_request" where
  "sync_request_ctor callback = \<lparr>sr_callback = callback, sr_flags = replicate MAX_WORKERS False\<rparr>"

definition sync_set :: "nat \<Rightarrow> 'cb sync_request \<Rightarrow> 'cb sync_request" where
  "sync_set n req = req\<lparr>sr_flags := (sr_flags req)[n := True]\<rparr>"

definition sync_check :: "('cb \<Rightarrow> 's \<Rightarrow> 's) \<Rightarrow> 'cb sync_request \<Rightarrow> 's \<Rightarrow> bool \<times> 's" where
  "sync_check run req s = (if list_all id (sr_flags req) then (True, run (sr_callback req) s) else (False, s))"

section \<open>The syncer\<close>

definition syncer_empty :: "'cb sync_request list \<Rightarrow> bool" where
  "syncer_empty requests \<longleftrightarrow> requests = []"

definition set_idle :: "bool list \<Rightarrow> 'cb sync_request \<Rightarrow> 'cb sync_request" where
  "set_idle idle req = fold (\<lambda>i req. if idle ! i then sync_set i req else req) [0..<length idle] req"

definition add_request ::
  "('cb \<Rightarrow> 's \<Rightarrow> 's) \<Rightarrow> bool list \<Rightarrow> 'cb sync_request \<Rightarrow> 'cb sync_request list \<Rightarrow> 's \<Rightarrow> 'cb sync_request list \<times> 's" where
  "add_request run idle req requests s =
     (let req' = fold sync_set [length idle..<MAX_WORKERS] (set_idle idle req);
          (ok, s') = sync_check run req' s
      in if \<not> ok then (requests @ [req'], s') else (requests, s'))"

fun check_requests :: "('cb \<Rightarrow> 's \<Rightarrow> 's) \<Rightarrow> 'cb sync_request list \<Rightarrow> 's \<Rightarrow> 'cb sync_request list \<times> 's" where
  "check_requests run [] s = ([], s)"
| "check_requests run (req # requests) s =
     (let (ok, s') = sync_check run req s; (requests', s'') = check_requests run requests s'
      in (if ok then requests' else req # requests', s''))"

definition syncer_check ::
  "('cb \<Rightarrow> 's \<Rightarrow> 's) \<Rightarrow> bool list \<Rightarrow> 'cb sync_request list \<Rightarrow> 's \<Rightarrow> 'cb sync_request list \<times> 's" where
  "syncer_check run idle requests s = check_requests run (map (set_idle idle) requests) s"

section \<open>The flags\<close>

definition flags_ok :: "'cb sync_request \<Rightarrow> bool" where
  "flags_ok req \<longleftrightarrow> length (sr_flags req) = MAX_WORKERS"

lemma sync_set_simps [simp]:
  "sr_callback (sync_set i req) = sr_callback req"
  "length (sr_flags (sync_set i req)) = length (sr_flags req)"
  "j < length (sr_flags req) \<Longrightarrow> sr_flags (sync_set i req) ! j \<longleftrightarrow> j = i \<or> sr_flags req ! j"
  by (simp_all add: sync_set_def) (cases "i = j"; simp)

text \<open>Setting a flag for every worker in a list for which a condition holds.\<close>

lemma fold_set_flags:
  "sr_callback (fold (\<lambda>i req. if c i then sync_set i req else req) ws req) = sr_callback req"
  "length (sr_flags (fold (\<lambda>i req. if c i then sync_set i req else req) ws req)) = length (sr_flags req)"
  "j < length (sr_flags req) \<Longrightarrow>
     sr_flags (fold (\<lambda>i req. if c i then sync_set i req else req) ws req) ! j \<longleftrightarrow> j \<in> set ws \<and> c j \<or> sr_flags req ! j"
  by (induction ws arbitrary: req) auto

lemma set_idle_simps [simp]:
  "sr_callback (set_idle idle req) = sr_callback req"
  "length (sr_flags (set_idle idle req)) = length (sr_flags req)"
  "flags_ok (set_idle idle req) = flags_ok req"
  "j < length (sr_flags req) \<Longrightarrow>
     sr_flags (set_idle idle req) ! j \<longleftrightarrow> j < length idle \<and> idle ! j \<or> sr_flags req ! j"
  using fold_set_flags [where c = "\<lambda>i. idle ! i" and ws = "[0..<length idle]" and req = req]
  by (simp_all add: set_idle_def flags_ok_def)

lemma fold_sync_set [simp]:
  "sr_callback (fold sync_set ws req) = sr_callback req"
  "length (sr_flags (fold sync_set ws req)) = length (sr_flags req)"
  "flags_ok (fold sync_set ws req) = flags_ok req"
  "j < length (sr_flags req) \<Longrightarrow> sr_flags (fold sync_set ws req) ! j \<longleftrightarrow> j \<in> set ws \<or> sr_flags req ! j"
  using fold_set_flags [where c = "\<lambda>_. True" and ws = ws and req = req] by (simp_all add: flags_ok_def)

lemma sync_request_ctor_simps [simp]:
  "sr_callback (sync_request_ctor cb) = cb" "flags_ok (sync_request_ctor cb)"
  "j < MAX_WORKERS \<Longrightarrow> \<not> sr_flags (sync_request_ctor cb) ! j"
  "length (sr_flags (sync_request_ctor cb)) = MAX_WORKERS"
  by (simp_all add: sync_request_ctor_def flags_ok_def)

text \<open>A request that was added: the flags of the absent workers and of those idle are set.\<close>

definition fresh_request :: "bool list \<Rightarrow> 'cb \<Rightarrow> 'cb sync_request" where
  "fresh_request idle cb = fold sync_set [length idle..<MAX_WORKERS] (set_idle idle (sync_request_ctor cb))"

lemma fresh_request_simps [simp]:
  "sr_callback (fresh_request idle cb) = cb" "flags_ok (fresh_request idle cb)"
  "j < MAX_WORKERS \<Longrightarrow> sr_flags (fresh_request idle cb) ! j \<longleftrightarrow> length idle \<le> j \<or> idle ! j"
  by (auto simp: fresh_request_def)

lemma all_flags: "flags_ok req \<Longrightarrow> list_all id (sr_flags req) \<longleftrightarrow> (\<forall>i < MAX_WORKERS. sr_flags req ! i)"
  by (simp add: flags_ok_def list_all_length)

lemma all_flags_below:
  assumes "flags_ok req" "n \<le> MAX_WORKERS" "\<And>i. i < MAX_WORKERS \<Longrightarrow> sr_flags req ! i \<longleftrightarrow> n \<le> i \<or> P i"
  shows "list_all id (sr_flags req) \<longleftrightarrow> (\<forall>i < n. P i)"
proof -
  have "list_all id (sr_flags req) \<longleftrightarrow> (\<forall>i < MAX_WORKERS. n \<le> i \<or> P i)"
    using assms(3) by (simp add: all_flags [OF assms(1)])
  also have "\<dots> \<longleftrightarrow> (\<forall>i < n. P i)" using assms(2) by (metis less_le_trans not_le)
  finally show ?thesis .
qed

lemma add_request_eq:
  "add_request run idle (sync_request_ctor cb) requests s =
     (if list_all id (sr_flags (fresh_request idle cb)) then (requests, run cb s) else (requests @ [fresh_request idle cb], s))"
  by (simp add: add_request_def sync_check_def Let_def flip: fresh_request_def)

lemma check_requests_eq:
  "check_requests run requests s =
     (filter (\<lambda>req. \<not> list_all id (sr_flags req)) requests,
      fold run (map sr_callback (filter (\<lambda>req. list_all id (sr_flags req)) requests)) s)"
  by (induction requests arbitrary: s) (simp_all add: sync_check_def Let_def)

section \<open>A barrier for the workers\<close>

text \<open>
  C34: a request is a barrier: whatever the sequence of later checks, the callback has been run, exactly once, if every worker
  was seen idle when the request was added or in one of the checks since, and is still pending otherwise.
\<close>

theorem sync_barrier:
  assumes "n \<le> MAX_WORKERS" "\<forall>idle \<in> set (first # later). length idle = n"
  shows "fold (\<lambda>idle (requests, ran). syncer_check (\<lambda>cb ran. ran @ [cb]) idle requests ran) later
      (add_request (\<lambda>cb ran. ran @ [cb]) first (sync_request_ctor cb) [] []) =
    (if \<forall>i < n. \<exists>idle \<in> set (first # later). idle ! i then ([], [cb]) else ([fold set_idle later (fresh_request first cb)], []))"
  using assms
proof (induction later rule: rev_induct)
  case Nil
  have "list_all id (sr_flags (fresh_request first cb)) \<longleftrightarrow> (\<forall>i < n. first ! i)"
    using Nil by (intro all_flags_below) auto
  then show ?case by (simp add: add_request_eq)
next
  case (snoc idle later)
  let ?req = "fold set_idle later (fresh_request first cb)"
  have flags: "flags_ok (fold set_idle later req) = flags_ok req" for req :: "'a sync_request"
    by (induction later arbitrary: req) simp_all
  have "sr_flags (fold set_idle later req) ! i \<longleftrightarrow> sr_flags req ! i \<or> (\<exists>idle \<in> set later. i < length idle \<and> idle ! i)"
    if "i < MAX_WORKERS" "flags_ok req" for i and req :: "'a sync_request"
    using that by (induction later arbitrary: req) (auto simp: flags_ok_def)
  then have at: "sr_flags ?req ! i \<longleftrightarrow> n \<le> i \<or> (\<exists>idle \<in> set (first # later). idle ! i)" if "i < MAX_WORKERS" for i
    using that snoc.prems by fastforce
  have all: "list_all id (sr_flags (set_idle idle ?req)) \<longleftrightarrow> (\<forall>i < n. \<exists>x \<in> set (first # later @ [idle]). x ! i)"
  proof (rule all_flags_below)
    show ok: "flags_ok (set_idle idle ?req)" using flags by simp
    show "n \<le> MAX_WORKERS" using snoc.prems by simp
    show "sr_flags (set_idle idle ?req) ! i \<longleftrightarrow> n \<le> i \<or> (\<exists>x \<in> set (first # later @ [idle]). x ! i)" if "i < MAX_WORKERS" for i
      using at [OF that] snoc.prems that ok by (auto simp: flags_ok_def)
  qed
  have cb: "sr_callback ?req = cb"
    by (induction later rule: rev_induct) simp_all
  have ih: "fold (\<lambda>idle (requests, ran). syncer_check (\<lambda>cb ran. ran @ [cb]) idle requests ran) later
      (add_request (\<lambda>cb ran. ran @ [cb]) first (sync_request_ctor cb) [] []) =
    (if \<forall>i < n. \<exists>idle \<in> set (first # later). idle ! i then ([], [cb]) else ([?req], []))"
    using snoc by simp
  show ?case
  proof (cases "\<forall>i < n. \<exists>idle \<in> set (first # later). idle ! i")
    case True
    then have "\<forall>i < n. \<exists>x \<in> set (first # later @ [idle]). x ! i" by fastforce
    then show ?thesis using ih True by (simp add: syncer_check_def)
  next
    case False
    have "syncer_check (\<lambda>cb ran. ran @ [cb]) idle [?req] [] =
      (if list_all id (sr_flags (set_idle idle ?req)) then ([], [cb]) else ([set_idle idle ?req], []))"
      using cb by (simp add: syncer_check_def check_requests_eq)
    moreover have "fold (\<lambda>idle (requests, ran). syncer_check (\<lambda>cb ran. ran @ [cb]) idle requests ran) later
        (add_request (\<lambda>cb ran. ran @ [cb]) first (sync_request_ctor cb) [] []) = ([?req], [])"
      using ih False by (simp only: if_False)
    ultimately show ?thesis using all by simp
  qed
qed

text \<open>Three workers: the second is busy at first, the third in the first check.\<close>

theorem sync_barrier_witness:
  "fold (\<lambda>idle (requests, ran). syncer_check (\<lambda>cb ran. ran @ [cb]) idle requests ran) [[False, False, True], [True, True, False]]
      (add_request (\<lambda>cb ran. ran @ [cb]) [True, False, False] (sync_request_ctor (7 :: nat)) [] []) = ([], [7])"
proof -
  let ?later = "[[False, False, True], [True, True, False]]"
  have "\<forall>i < 3. \<exists>idle \<in> set ([True, False, False] # ?later). idle ! i"
    by (simp add: numeral_3_eq_3 less_Suc_eq)
  moreover have "\<forall>idle \<in> set ([True, False, False] # ?later). length idle = 3" "3 \<le> MAX_WORKERS"
    by (simp_all add: MAX_WORKERS_def)
  ultimately show ?thesis using sync_barrier [of 3 "[True, False, False]" ?later "7 :: nat"] by (metis (no_types, lifting))
qed

end
