(* ===== verification/Server_State.thy ===== *)
theory Server_State
  imports Reactor_Poll Worker Sync Memcache_Gc Counter_Gc
begin

text \<open>
  The state of a running server, \<^verbatim>\<open>src/server.hpp\<close> and \<^verbatim>\<open>src/memcache/handler.hpp\<close>: the reactor with the sockets it owns, the
  workers with their jobs, the requests of the syncer, the memcache handler with its collector thread, the counter
  handler, and the counters of connections.  Sockets are referred to by their address, as the pointers of the program do.

  Whatever the program cannot determine is an input: what other threads did before the reactor thread goes on, the
  answers of the kernel to \<^verbatim>\<open>recv\<close>, \<^verbatim>\<open>accept\<close>, \<^verbatim>\<open>send\<close> and \<^verbatim>\<open>epoll_wait\<close>, and the clock.  A list of inputs drives a run.
\<close>

section \<open>Sockets and threads\<close>

datatype sock_kind =
    Signal_fd
  | Memcache_listener
  | Repl_listener
  | Counter_listener
  | Memcache_sock
  | Repl_sock
  | Counter_sock
  | Repl_client_sock

record sock =
  so_kind :: sock_kind
  so_busy :: bool
  so_slaves :: "nat list"
  so_last_heartbeat :: time_t

definition sock_of :: "sock_kind \<Rightarrow> time_t \<Rightarrow> sock" where
  "sock_of k now = \<lparr>so_kind = k, so_busy = False, so_slaves = [], so_last_heartbeat = now\<rparr>"

text \<open>The jobs of a worker; a job that receives is \<open>Leaving\<close> once it has cleared \<^verbatim>\<open>m_busy\<close>.\<close>

datatype job = Recv_job nat | Send_job nat | Leaving

text \<open>\<open>th_held\<close> is the socket in whose \<^verbatim>\<open>with_fd\<close> the thread is.\<close>

record worker_thread =
  th_job :: "job option"
  th_held :: "nat option"

record collector =
  cl_thread :: gc_thread
  cl_done :: bool
  cl_held :: "nat option"

datatype sync_callback = Collect_garbage | New_slave nat

section \<open>Inputs\<close>

text \<open>
  What another thread does: a worker or the collector begins and ends a use of a socket, a worker clears \<^verbatim>\<open>m_busy\<close> and ends its job,
  the collector ends, a client asks to flush, the collector stores the memory in use, the objects change.
\<close>

datatype thread_act =
    Worker_begins nat nat
  | Worker_ends nat bool
  | Worker_clears_busy nat
  | Worker_leaves nat
  | Collector_begins nat
  | Collector_ends bool
  | Collector_done
  | Store_flush_time time_t
  | Store_used_memory nat
  | Change_objects "object hash_map"

datatype accept_answer = Accepted nat nat | Accept_intr | Accept_too_many | Accept_again | Accept_error

text \<open>The signals that are blocked, and what reading the signal descriptor gives.\<close>

datatype signal = SIGHUP | SIGQUIT | SIGTERM | SIGINT | SIGUSR1

datatype read_answer = Read_signal signal | Read_short | Read_intr | Read_again | Read_error

text \<open>
  \<open>in_sockets\<close> are the descriptors and addresses of the sockets the program opens itself; None is a failure.  \<open>in_is_master\<close>
  tells whether this machine has the virtual address.
\<close>

record input =
  in_threads :: "thread_act list"
  in_recv :: "recv_answer list"
  in_accept :: "accept_answer list"
  in_sent :: bool
  in_events :: wait_answer
  in_time :: time_t
  in_elapsed :: bool
  in_signals :: "read_answer list"
  in_sockets :: "(nat \<times> nat) option list"
  in_is_master :: bool

definition no_input :: input where
  "no_input =
     \<lparr>in_threads = [], in_recv = [], in_accept = [], in_sent = True, in_events = Wait_intr, in_time = 0, in_elapsed = False,
      in_signals = [], in_sockets = [], in_is_master = False\<rparr>"

section \<open>The server\<close>

text \<open>\<open>sv_client_buf\<close> holds the bytes that the connection to the master has received and not yet consumed.\<close>

record server = "sock reactor" +
  sv_signaled :: bool
  sv_workers :: "worker_thread list"
  sv_worker_index :: nat
  sv_requests :: "sync_callback sync_request list"
  sv_is_slave :: bool
  sv_last_gc :: time_t
  sv_gc_thread :: "collector option"
  sv_consecutive_gcs :: nat
  sv_slaves :: "nat list"
  sv_new_slaves :: "nat list"
  sv_repl_client :: "nat option"
  sv_client_buf :: string
  sv_hash :: "object hash_map"
  sv_stats :: statistics
  sv_counter :: counter_handler
  sv_counter_stats :: counter_statistics
  sv_now :: time_t
  sv_inputs :: "input list"

definition server_ctor :: "cfg \<Rightarrow> time_t \<Rightarrow> input list \<Rightarrow> server" where
  "server_ctor cfg now inputs =
     \<lparr>re_objs = Map.empty, re_open = {}, re_epoll = {}, re_running = True, re_resources = Map.empty, re_readables = [], re_drop_req = [],
      re_garbage = [], re_garbage_copy = [],
      sv_signaled = False, sv_workers = [], sv_worker_index = 0, sv_requests = [], sv_is_slave = True, sv_last_gc = 0, sv_gc_thread = None,
      sv_consecutive_gcs = 0, sv_slaves = [], sv_new_slaves = [], sv_repl_client = None, sv_client_buf = [],
      sv_hash = hash_map_ctor (word_of_nat (buckets cfg)), sv_stats = statistics_reset, sv_counter = counter_handler_ctor (counter cfg),
      sv_counter_stats = counter_statistics_reset, sv_now = now, sv_inputs = inputs\<rparr>"

definition input_of :: "server \<Rightarrow> input" where
  "input_of s = (case sv_inputs s of [] \<Rightarrow> no_input | i # is \<Rightarrow> i)"

definition is_idle :: "server \<Rightarrow> bool list" where
  "is_idle s = map (\<lambda>t. th_job t = None) (sv_workers s)"

definition sub_of :: "nat \<Rightarrow> server \<Rightarrow> fault + sock" where
  "sub_of x s = bind_res (deref x s) (\<lambda>r. Inr (rs_sub r))"

definition set_sub :: "nat \<Rightarrow> (sock \<Rightarrow> sock) \<Rightarrow> server \<Rightarrow> fault + server" where
  "set_sub x f s = bind_res (deref x s) (\<lambda>r. Inr (put x (r\<lparr>rs_sub := f (rs_sub r)\<rparr>) s))"

text \<open>\<^verbatim>\<open>on_invalidate\<close> of the sockets; shutting down the connection and freeing its buffers do not concern this state.\<close>

definition sock_on_invalidate :: "nat \<Rightarrow> server \<Rightarrow> server" where
  "sock_on_invalidate x s =
     (case re_objs s x of
        None \<Rightarrow> s
      | Some r \<Rightarrow>
          (case so_kind (rs_sub r) of
             Memcache_sock \<Rightarrow> s\<lparr>sv_stats := (sv_stats s)\<lparr>curr_connections := curr_connections (sv_stats s) - 1\<rparr>\<rparr>
           | Counter_sock \<Rightarrow> s\<lparr>sv_counter_stats := counter_on_invalidate (sv_counter_stats s)\<rparr>
           | _ \<Rightarrow> s))"

section \<open>The other threads\<close>

text \<open>The sockets a job may use: its own, and the slaves its own socket has copied.\<close>

definition job_refs :: "server \<Rightarrow> job \<Rightarrow> nat list" where
  "job_refs s j =
     (case j of
        Recv_job x \<Rightarrow> x # (case re_objs s x of None \<Rightarrow> [] | Some r \<Rightarrow> so_slaves (rs_sub r))
      | Send_job x \<Rightarrow> [x]
      | Leaving \<Rightarrow> [])"

definition collector_refs :: "collector \<Rightarrow> nat list" where
  "collector_refs c = (if cl_done c then [] else gt_slaves (cl_thread c) @ gt_new_slaves (cl_thread c))"

definition set_worker :: "nat \<Rightarrow> worker_thread \<Rightarrow> server \<Rightarrow> server" where
  "set_worker w t s = s\<lparr>sv_workers := (sv_workers s)[w := t]\<rparr>"

definition worker_act :: "nat \<Rightarrow> thread_act \<Rightarrow> server \<Rightarrow> fault + server" where
  "worker_act w act s =
     (if w \<ge> length (sv_workers s) then Inr s
      else (let t = sv_workers s ! w
            in case th_job t of
                 None \<Rightarrow> Inr s
               | Some j \<Rightarrow>
                   (case act of
                      Worker_begins _ x \<Rightarrow>
                        if th_held t \<noteq> None \<or> x \<notin> set (job_refs s j) then Inr s
                        else bind_res (with_fd_begin x s) (\<lambda>(ok, s'). Inr (if ok then set_worker w (t\<lparr>th_held := Some x\<rparr>) s' else s'))
                    | Worker_ends _ keep \<Rightarrow>
                        (case th_held t of
                           None \<Rightarrow> Inr s
                         | Some x \<Rightarrow> bind_res (with_fd_end sock_on_invalidate keep x s) (\<lambda>s'. Inr (set_worker w (t\<lparr>th_held := None\<rparr>) s')))
                    | Worker_clears_busy _ \<Rightarrow>
                        (case j of
                           Recv_job x \<Rightarrow>
                             if th_held t \<noteq> None then Inr s
                             else bind_res (set_sub x (\<lambda>k. k\<lparr>so_busy := False\<rparr>) s) (\<lambda>s'. Inr (set_worker w (t\<lparr>th_job := Some Leaving\<rparr>) s'))
                         | _ \<Rightarrow> Inr s)
                    | Worker_leaves _ \<Rightarrow>
                        (case j of
                           Recv_job x \<Rightarrow> Inr s
                         | _ \<Rightarrow> if th_held t \<noteq> None then Inr s else Inr (set_worker w (t\<lparr>th_job := None\<rparr>) s))
                    | _ \<Rightarrow> Inr s)))"

definition collector_act :: "thread_act \<Rightarrow> server \<Rightarrow> fault + server" where
  "collector_act act s =
     (case sv_gc_thread s of
        None \<Rightarrow> Inr s
      | Some c \<Rightarrow>
          (case act of
             Collector_begins x \<Rightarrow>
               if cl_held c \<noteq> None \<or> x \<notin> set (collector_refs c) then Inr s
               else bind_res (with_fd_begin x s) (\<lambda>(ok, s'). Inr (if ok then s'\<lparr>sv_gc_thread := Some (c\<lparr>cl_held := Some x\<rparr>)\<rparr> else s'))
           | Collector_ends keep \<Rightarrow>
               (case cl_held c of
                  None \<Rightarrow> Inr s
                | Some x \<Rightarrow> bind_res (with_fd_end sock_on_invalidate keep x s) (\<lambda>s'. Inr (s'\<lparr>sv_gc_thread := Some (c\<lparr>cl_held := None\<rparr>)\<rparr>)))
           | Collector_done \<Rightarrow> if cl_held c \<noteq> None then Inr s else Inr (s\<lparr>sv_gc_thread := Some (c\<lparr>cl_done := True\<rparr>)\<rparr>)
           | _ \<Rightarrow> Inr s))"

definition thread_step :: "thread_act \<Rightarrow> server \<Rightarrow> fault + server" where
  "thread_step act s =
     (case act of
        Worker_begins w x \<Rightarrow> worker_act w act s
      | Worker_ends w keep \<Rightarrow> worker_act w act s
      | Worker_clears_busy w \<Rightarrow> worker_act w act s
      | Worker_leaves w \<Rightarrow> worker_act w act s
      | Store_flush_time t \<Rightarrow> Inr (s\<lparr>sv_stats := (sv_stats s)\<lparr>flush_time := t\<rparr>\<rparr>)
      | Store_used_memory n \<Rightarrow> Inr (s\<lparr>sv_stats := (sv_stats s)\<lparr>used_memory := n\<rparr>\<rparr>)
      | Change_objects m \<Rightarrow> Inr (s\<lparr>sv_hash := m\<rparr>)
      | _ \<Rightarrow> collector_act act s)"

fun thread_steps :: "thread_act list \<Rightarrow> server \<Rightarrow> fault + server" where
  "thread_steps [] s = Inr s"
| "thread_steps (act # acts) s = bind_res (thread_step act s) (thread_steps acts)"

text \<open>Take the next input: the other threads act first.\<close>

definition next_input :: "server \<Rightarrow> fault + (input \<times> server)" where
  "next_input s =
     (let i = input_of s in bind_res (thread_steps (in_threads i) (s\<lparr>sv_inputs := tl (sv_inputs s)\<rparr>)) (\<lambda>s'. Inr (i, s')))"

end
