(* ===== verification/Memcache_Handler.thy ===== *)
theory Memcache_Handler
  imports Server_State
begin

text \<open>
  Models \<^verbatim>\<open>handler\<close> of \<^verbatim>\<open>src/memcache/handler.cpp\<close>.  In master mode it accepts clients and slaves, and drops slaves that are gone and
  starts the collector at each interval; in slave mode it holds the connection to the master.
\<close>

section \<open>The collector\<close>

definition join_collector :: "time_t \<Rightarrow> server \<Rightarrow> server" where
  "join_collector now s = (if sv_gc_thread s \<noteq> None then s\<lparr>sv_last_gc := now, sv_gc_thread := None\<rparr> else s)"

definition gc_wanted :: "cfg \<Rightarrow> time_t \<Rightarrow> server \<Rightarrow> bool \<times> server" where
  "gc_wanted cfg now s =
     (let t = flush_time (sv_stats s)
      in if t \<noteq> 0 \<and> now \<ge> t then (True, s)
         else if used_memory (sv_stats s) > memory_limit cfg then (True, s)
         else if sv_new_slaves s \<noteq> [] \<and> sv_consecutive_gcs s < MAX_CONSECUTIVE_GCS then
           (True, s\<lparr>sv_consecutive_gcs := sv_consecutive_gcs s + 1\<rparr>)
         else if now > sv_last_gc s + int (gc_interval cfg) then (True, s\<lparr>sv_consecutive_gcs := 0\<rparr>)
         else (False, s))"

definition gc_ready :: "cfg \<Rightarrow> time_t \<Rightarrow> server \<Rightarrow> bool \<times> server" where
  "gc_ready cfg now s =
     (if (case sv_gc_thread s of None \<Rightarrow> False | Some c \<Rightarrow> \<not> cl_done c) then (False, s)
      else gc_wanted cfg now (join_collector now s))"

definition handler_reactor_gc_ready :: "server \<Rightarrow> bool" where
  "handler_reactor_gc_ready s \<longleftrightarrow> (if sv_gc_thread s \<noteq> None then False else sv_new_slaves s = [])"

section \<open>The interval\<close>

definition timed_out :: "cfg \<Rightarrow> nat \<Rightarrow> server \<Rightarrow> fault + bool" where
  "timed_out cfg x s = bind_res (sub_of x s) (\<lambda>k. Inr (so_last_heartbeat k + int (slave_timeout cfg) \<le> sv_now s))"

text \<open>The loop over the slaves: the slaves that stay.\<close>

fun check_slaves :: "cfg \<Rightarrow> nat list \<Rightarrow> server \<Rightarrow> fault + (nat list \<times> server)" where
  "check_slaves cfg [] s = Inr ([], s)"
| "check_slaves cfg (x # xs) s =
     bind_res (valid x s) (\<lambda>v.
       if \<not> v then check_slaves cfg xs s
       else bind_res (timed_out cfg x s) (\<lambda>late.
         if late then
           bind_res (resource_invalidate sock_on_invalidate x s) (\<lambda>(ok, s1).
           bind_res (if \<not> ok then bind_res (deref x s1) (\<lambda>r. remove_resource (rs_fd r) s1) else Inr s1) (check_slaves cfg xs))
         else bind_res (check_slaves cfg xs s) (\<lambda>(ys, s'). Inr (x # ys, s'))))"

definition on_master_interval :: "cfg \<Rightarrow> server \<Rightarrow> fault + server" where
  "on_master_interval cfg s =
     bind_res (check_slaves cfg (sv_slaves s) s) (\<lambda>(slaves, s1).
       let s2 = s1\<lparr>sv_slaves := slaves\<rparr>; (ready, s3) = gc_ready cfg (sv_now s2) s2
       in Inr (if ready then
                 s3\<lparr>sv_gc_thread := Some \<lparr>cl_thread = gc_thread_ctor (sv_slaves s3) (sv_new_slaves s3), cl_done = False, cl_held = None\<rparr>,
                    sv_new_slaves := []\<rparr>
               else s3))"

section \<open>Accepting\<close>

text \<open>What a request of the syncer does once every worker was idle.\<close>

definition run_callback :: "sync_callback \<Rightarrow> fault + server \<Rightarrow> fault + server" where
  "run_callback cb res =
     bind_res res (\<lambda>s.
       case cb of
         Collect_garbage \<Rightarrow> reactor_gc s
       | New_slave x \<Rightarrow> Inr (s\<lparr>sv_new_slaves := sv_new_slaves s @ [x]\<rparr>))"

definition post_request :: "sync_callback \<Rightarrow> server \<Rightarrow> fault + server" where
  "post_request cb s =
     (let (requests, res) = add_request run_callback (is_idle s) (sync_request_ctor cb) (sv_requests s) (Inr s)
      in bind_res res (\<lambda>s'. Inr (s'\<lparr>sv_requests := requests\<rparr>)))"

definition check_syncer :: "server \<Rightarrow> fault + server" where
  "check_syncer s =
     (let (requests, res) = syncer_check run_callback (is_idle s) (sv_requests s) (Inr s)
      in bind_res res (\<lambda>s'. Inr (s'\<lparr>sv_requests := requests\<rparr>)))"

definition memcache_socket_new :: "nat \<Rightarrow> nat \<Rightarrow> server \<Rightarrow> server" where
  "memcache_socket_new x fd s =
     put x (resource_ctor fd (sock_of Memcache_sock (sv_now s)))
       (s\<lparr>sv_stats := (sv_stats s)\<lparr>curr_connections := curr_connections (sv_stats s) + 1, total_connections := total_connections (sv_stats s) + 1\<rparr>\<rparr>)"

text \<open>The wrappers of the listening sockets; the new socket is allocated at \<open>x\<close>.  None is the null pointer.\<close>

definition make_memcache_socket :: "cfg \<Rightarrow> nat \<Rightarrow> nat \<Rightarrow> server \<Rightarrow> (fault + server) option" where
  "make_memcache_socket cfg x fd s =
     (if sv_is_slave s then None
      else if max_connections cfg \<noteq> 0 \<and> unat (curr_connections (sv_stats s)) \<ge> max_connections cfg then None
      else Some (Inr (memcache_socket_new x fd s)))"

definition make_repl_socket :: "nat \<Rightarrow> nat \<Rightarrow> server \<Rightarrow> (fault + server) option" where
  "make_repl_socket x fd s =
     (if length (sv_slaves s) = MAX_SLAVES then None
      else Some (post_request (New_slave x)
             ((put x (resource_ctor fd (sock_of Repl_sock (sv_now s))) s)\<lparr>sv_slaves := sv_slaves s @ [x]\<rparr>)))"

definition make_counter_sock :: "cfg \<Rightarrow> nat \<Rightarrow> nat \<Rightarrow> server \<Rightarrow> (fault + server) option" where
  "make_counter_sock cfg x fd s =
     (case make_counter_socket (counter cfg) (sv_counter_stats s) of
        None \<Rightarrow> None
      | Some c \<Rightarrow> Some (Inr (put x (resource_ctor fd (sock_of Counter_sock (sv_now s))) (s\<lparr>sv_counter_stats := cs_stats c\<rparr>))))"

section \<open>Listening\<close>

text \<open>The addresses to listen on; None stands for all.\<close>

definition listen_addrs :: "cfg \<Rightarrow> string option list" where
  "listen_addrs cfg = (if bind_ip cfg = [] then [None] else Some (vip cfg) # map Some (bind_ip cfg))"

text \<open>
  A descriptor and the address of the resource that is made for it.  The kernel gives a descriptor that is not open, and the
  allocator an address that is free; other answers do not occur and are skipped.
\<close>

fun new_socket :: "(nat \<times> nat) option list \<Rightarrow> server \<Rightarrow> (nat \<times> nat) option \<times> (nat \<times> nat) option list" where
  "new_socket [] s = (None, [])"
| "new_socket (None # as) s = (None, as)"
| "new_socket (Some (fd, x) # as) s = (if fd \<in> re_open s \<or> re_objs s x \<noteq> None then new_socket as s else (Some (fd, x), as))"

definition open_socket :: "string \<Rightarrow> sock_kind \<Rightarrow> (nat \<times> nat) option list \<Rightarrow> server \<Rightarrow> fault + ((nat \<times> nat) option list \<times> server)" where
  "open_socket what k answers s =
     (case new_socket answers s of
        (None, as) \<Rightarrow> Inl (Throws (Runtime_error what))
      | (Some (fd, x), as) \<Rightarrow>
          bind_res (add_resource x (put x (resource_ctor fd (sock_of k (sv_now s))) (opened fd s))) (\<lambda>s'. Inr (as, s')))"

text \<open>A listening socket for each address; \<^verbatim>\<open>bind\<close> stands for whichever call of \<^verbatim>\<open>setup_server_socket\<close> failed.\<close>

fun add_listeners :: "sock_kind \<Rightarrow> (nat \<times> nat) option list \<Rightarrow> string option list \<Rightarrow> server \<Rightarrow> fault + server" where
  "add_listeners k answers [] s = Inr s"
| "add_listeners k answers (a # addrs) s = bind_res (open_socket ''bind'' k answers s) (\<lambda>(as, s'). add_listeners k as addrs s')"

definition on_start :: "cfg \<Rightarrow> server \<Rightarrow> fault + server" where
  "on_start cfg s = bind_res (next_input s) (\<lambda>(i, s1). add_listeners Memcache_listener (in_sockets i) (listen_addrs cfg) s1)"

definition on_master_start :: "cfg \<Rightarrow> server \<Rightarrow> fault + server" where
  "on_master_start cfg s =
     bind_res (next_input (s\<lparr>sv_is_slave := False\<rparr>)) (\<lambda>(i, s1). add_listeners Repl_listener (in_sockets i) (listen_addrs cfg) s1)"

definition counter_on_master_start :: "cfg \<Rightarrow> server \<Rightarrow> fault + server" where
  "counter_on_master_start cfg s =
     bind_res (next_input s) (\<lambda>(i, s1). add_listeners Counter_listener (in_sockets i) (listen_addrs cfg) s1)"

section \<open>Slave mode\<close>

definition handler_clear :: "server \<Rightarrow> server" where
  "handler_clear s =
     s\<lparr>sv_hash := hash_map_clear (sv_hash s),
       sv_stats := (sv_stats s)\<lparr>total_objects := 0, repl_created := 0, repl_updated := 0, repl_removed := 0\<rparr>\<rparr>"

text \<open>Connecting gives a descriptor, or nothing; then the reactor polls once, and slave mode is not entered.\<close>

definition on_slave_start :: "server hooks \<Rightarrow> server \<Rightarrow> fault + (bool \<times> server)" where
  "on_slave_start hooks s =
     bind_res (next_input s) (\<lambda>(i, s1).
       case fst (new_socket (in_sockets i) s1) of
         None \<Rightarrow> bind_res (poll hooks s1) (\<lambda>s2. Inr (False, s2))
       | Some (fd, x) \<Rightarrow>
           (let s2 = put x (resource_ctor fd (sock_of Repl_client_sock (sv_now s1))) (opened fd (handler_clear s1))
            in bind_res (add_resource x (s2\<lparr>sv_repl_client := Some x, sv_client_buf := []\<rparr>)) (\<lambda>s3. Inr (True, s3))))"

text \<open>The member \<^verbatim>\<open>m_repl_client_socket\<close>, which is used without a test.\<close>

definition repl_client :: "server \<Rightarrow> fault + nat" where
  "repl_client s = (case sv_repl_client s of None \<Rightarrow> Inl Null | Some x \<Rightarrow> Inr x)"

text \<open>The heartbeat; \<open>sent\<close> is the result of the callback that sends.\<close>

definition on_slave_interval :: "bool \<Rightarrow> server \<Rightarrow> fault + server" where
  "on_slave_interval sent s =
     bind_res (repl_client s) (\<lambda>x.
     bind_res (with_fd_begin x s) (\<lambda>(ok, s1). if ok then with_fd_end sock_on_invalidate sent x s1 else Inr s1))"

definition on_slave_end :: "server \<Rightarrow> fault + server" where
  "on_slave_end s =
     bind_res (repl_client s) (\<lambda>x.
     bind_res (valid x s) (\<lambda>v. if v then bind_res (deref x s) (\<lambda>r. remove_resource (rs_fd r) s) else Inr s))"

end
