(* ===== verification/Server.thy ===== *)
theory Server
  imports Memcache_Handler
begin

text \<open>
  Models the hooks of the resources on the reactor thread (\<^verbatim>\<open>src/memcache/sockets.cpp\<close>, \<^verbatim>\<open>src/counter/sockets.cpp\<close>, the
  accept loop of \<^verbatim>\<open>cybozu/tcp.cpp\<close>, \<^verbatim>\<open>cybozu/signal.hpp\<close>) and \<^verbatim>\<open>src/server.cpp\<close>: slave mode, master mode and the change between them.
\<close>

section \<open>Dispatching jobs\<close>

definition find_idle :: "server \<Rightarrow> nat option \<times> server" where
  "find_idle s =
     (let (w, index) = finder (map (\<lambda>t. th_job t \<noteq> None) (sv_workers s)) (sv_worker_index s) in (w, s\<lparr>sv_worker_index := index\<rparr>))"

definition post_job :: "nat \<Rightarrow> job \<Rightarrow> server \<Rightarrow> server" where
  "post_job w j s = set_worker w \<lparr>th_job = Some j, th_held = None\<rparr> s"

definition again :: "nat \<Rightarrow> server \<Rightarrow> fault + (bool \<times> server)" where
  "again x s = bind_res (add_readable x s) (\<lambda>s'. Inr (True, s'))"

definition memcache_on_readable :: "server hook" where
  "memcache_on_readable x s =
     bind_res (sub_of x s) (\<lambda>k.
       if so_busy k then again x s
       else (case find_idle s of
               (None, s1) \<Rightarrow> again x s1
             | (Some w, s1) \<Rightarrow>
                 bind_res (set_sub x (\<lambda>k. k\<lparr>so_slaves := sv_slaves s1, so_busy := True\<rparr>) s1) (\<lambda>s2.
                   Inr (True, post_job w (Recv_job x) s2))))"

definition counter_on_readable :: "server hook" where
  "counter_on_readable x s =
     bind_res (sub_of x s) (\<lambda>k.
       if so_busy k then again x s
       else (case find_idle s of
               (None, s1) \<Rightarrow> again x s1
             | (Some w, s1) \<Rightarrow>
                 bind_res (set_sub x (\<lambda>k. k\<lparr>so_busy := True\<rparr>) s1) (\<lambda>s2. Inr (True, post_job w (Recv_job x) s2))))"

text \<open>The three \<^verbatim>\<open>on_writable\<close> are alike; \<open>sent\<close> is the result of \<^verbatim>\<open>write_pending_data\<close>.\<close>

definition sock_on_writable :: "bool \<Rightarrow> server hook" where
  "sock_on_writable sent x s =
     (case find_idle s of
        (None, s1) \<Rightarrow> if sent then Inr (True, s1) else resource_invalidate sock_on_invalidate x s1
      | (Some w, s1) \<Rightarrow> Inr (True, post_job w (Send_job x) s1))"

fun repl_on_readable :: "recv_answer list \<Rightarrow> server hook" where
  "repl_on_readable [] x s = Inr (True, s)"
| "repl_on_readable (a # as) x s =
     (case a of
        Recv_again \<Rightarrow> Inr (True, s)
      | Recv_intr \<Rightarrow> repl_on_readable as x s
      | Recv_reset \<Rightarrow> resource_invalidate sock_on_invalidate x s
      | Recv_error \<Rightarrow> Inl (Throws (Runtime_error ''recv''))
      | Recv_data d \<Rightarrow>
          if d = [] then resource_invalidate sock_on_invalidate x s
          else bind_res (set_sub x (\<lambda>k. k\<lparr>so_last_heartbeat := sv_now s\<rparr>) s) (repl_on_readable as x))"

section \<open>Accepting connections\<close>

definition make_socket :: "cfg \<Rightarrow> sock_kind \<Rightarrow> nat \<Rightarrow> nat \<Rightarrow> server \<Rightarrow> (fault + server) option" where
  "make_socket cfg k x fd s =
     (case k of
        Memcache_listener \<Rightarrow> make_memcache_socket cfg x fd s
      | Repl_listener \<Rightarrow> make_repl_socket x fd s
      | _ \<Rightarrow> make_counter_sock cfg x fd s)"

text \<open>
  The kernel gives a descriptor that is not open, and the allocator an address that is free; other answers do
  not occur and are skipped.
\<close>

fun accept_loop :: "cfg \<Rightarrow> sock_kind \<Rightarrow> accept_answer list \<Rightarrow> server hook" where
  "accept_loop cfg k [] y s = Inr (True, s)"
| "accept_loop cfg k (a # as) y s =
     (case a of
        Accept_intr \<Rightarrow> accept_loop cfg k as y s
      | Accept_too_many \<Rightarrow> again y s
      | Accept_again \<Rightarrow> Inr (True, s)
      | Accept_error \<Rightarrow> Inl (Throws (Runtime_error ''accept''))
      | Accepted fd x \<Rightarrow>
          if fd \<in> re_open s \<or> re_objs s x \<noteq> None then accept_loop cfg k as y s
          else (case make_socket cfg k x fd (opened fd s) of
                  None \<Rightarrow> accept_loop cfg k as y (close_fd fd (opened fd s))
                | Some res \<Rightarrow> bind_res res (\<lambda>s1. bind_res (add_resource x s1) (accept_loop cfg k as y))))"

section \<open>Signals\<close>

definition signal_handler :: "signal \<Rightarrow> server \<Rightarrow> server" where
  "signal_handler sig s = (if sig = SIGUSR1 \<or> sig = SIGHUP then s else quit (s\<lparr>sv_signaled := True\<rparr>))"

fun signal_on_readable :: "read_answer list \<Rightarrow> server hook" where
  "signal_on_readable [] x s = Inr (True, s)"
| "signal_on_readable (a # as) x s =
     (case a of
        Read_intr \<Rightarrow> signal_on_readable as x s
      | Read_again \<Rightarrow> Inr (True, s)
      | Read_error \<Rightarrow> Inl (Throws (Runtime_error ''read''))
      | Read_short \<Rightarrow> Inl (Throws (Runtime_error ''<signal_reader::on_readable> bug?''))
      | Read_signal sig \<Rightarrow> signal_on_readable as x (signal_handler sig s))"

section \<open>The connection to the master\<close>

text \<open>The objects change as \<open>repl_client_on_readable\<close> says; once the master is lost, the loop is left.\<close>

definition client_on_readable :: "(string \<Rightarrow> u64) \<Rightarrow> cfg \<Rightarrow> recv_answer list \<Rightarrow> server hook" where
  "client_on_readable hf cfg as x s =
     (case repl_client_on_readable hf cfg (sv_now s) as (sv_client_buf s) (sv_hash s) (sv_stats s) of
        Inl e \<Rightarrow> Inl (Throws e)
      | Inr (res, buf, m, st) \<Rightarrow>
          (let s1 = s\<lparr>sv_client_buf := buf, sv_hash := m, sv_stats := st\<rparr>
           in case res of
                Keep_open \<Rightarrow> Inr (True, s1)
              | Call_again \<Rightarrow> again x s1
              | Master_lost \<Rightarrow> resource_invalidate sock_on_invalidate x (quit s1)))"

section \<open>The hooks\<close>

definition server_on_readable :: "(string \<Rightarrow> u64) \<Rightarrow> cfg \<Rightarrow> server hook" where
  "server_on_readable hf cfg x s =
     bind_res (next_input s) (\<lambda>(i, s1).
     bind_res (sub_of x s1) (\<lambda>k.
       case so_kind k of
         Memcache_sock \<Rightarrow> memcache_on_readable x s1
       | Counter_sock \<Rightarrow> counter_on_readable x s1
       | Repl_sock \<Rightarrow> repl_on_readable (in_recv i) x s1
       | Repl_client_sock \<Rightarrow> client_on_readable hf cfg (in_recv i) x s1
       | Signal_fd \<Rightarrow> signal_on_readable (in_signals i) x s1
       | _ \<Rightarrow> accept_loop cfg (so_kind k) (in_accept i) x s1))"

definition server_on_writable :: "server hook" where
  "server_on_writable x s =
     bind_res (next_input s) (\<lambda>(i, s1).
     bind_res (sub_of x s1) (\<lambda>k.
       if so_kind k \<in> {Memcache_sock, Counter_sock, Repl_sock} then sock_on_writable (in_sent i) x s1
       else if so_kind k = Repl_client_sock \<and> \<not> in_sent i then resource_invalidate sock_on_invalidate x s1
       else Inr (True, s1)))"

text \<open>\<^verbatim>\<open>on_hangup\<close> and \<^verbatim>\<open>on_error\<close> do the same.\<close>

definition server_on_failure :: "server hook" where
  "server_on_failure x s =
     bind_res (next_input s) (\<lambda>(i, s1).
     bind_res (sub_of x s1) (\<lambda>k.
       resource_invalidate sock_on_invalidate x (if so_kind k = Repl_client_sock then quit s1 else s1)))"

text \<open>\<^verbatim>\<open>epoll_wait\<close> reports each registered descriptor at most once; other events do not occur.\<close>

fun sane_events :: "nat set \<Rightarrow> epoll_event list \<Rightarrow> epoll_event list" where
  "sane_events fds [] = []"
| "sane_events fds (ev # evs) =
     (if ev_fd ev \<in> fds then ev # sane_events (fds - {ev_fd ev}) evs else sane_events fds evs)"

definition sane_answer :: "nat set \<Rightarrow> wait_answer \<Rightarrow> wait_answer" where
  "sane_answer fds got = (case got of Events evs \<Rightarrow> Events (sane_events fds evs) | _ \<Rightarrow> Wait_intr)"

definition server_wait :: "nat \<Rightarrow> server \<Rightarrow> wait_answer \<times> server" where
  "server_wait timeout s =
     (case next_input s of
        Inl e \<Rightarrow> (Wait_error, s)
      | Inr (i, s1) \<Rightarrow> (sane_answer (re_epoll s1) (in_events i), s1))"

definition server_hooks :: "(string \<Rightarrow> u64) \<Rightarrow> cfg \<Rightarrow> server hooks" where
  "server_hooks hf cfg =
     \<lparr>on_readable = server_on_readable hf cfg, on_writable = server_on_writable, on_hangup = server_on_failure,
      on_error = server_on_failure, epoll_wait = server_wait\<rparr>"

section \<open>Master mode\<close>

definition server_gc_ready :: "server \<Rightarrow> bool" where
  "server_gc_ready s \<longleftrightarrow> has_garbage s \<and> syncer_empty (sv_requests s) \<and> handler_reactor_gc_ready s"

definition collect :: "server \<Rightarrow> fault + server" where
  "collect s =
     (if server_gc_ready s then bind_res (fix_garbage s) (\<lambda>(ok, s1). post_request Collect_garbage s1) else Inr s)"

definition counter_interval :: "cfg \<Rightarrow> server \<Rightarrow> server" where
  "counter_interval cfg s =
     (if cc_enable (counter cfg) then s\<lparr>sv_counter := counter_on_master_interval (counter cfg) (sv_now s) (sv_counter s)\<rparr> else s)"

definition master_callback :: "cfg \<Rightarrow> server \<Rightarrow> fault + server" where
  "master_callback cfg s =
     bind_res (next_input s) (\<lambda>(i, s1).
     bind_res (let s2 = s1\<lparr>sv_now := in_time i\<rparr> in if \<not> syncer_empty (sv_requests s2) then check_syncer s2 else Inr s2) (\<lambda>s3.
     bind_res (next_input s3) (\<lambda>(_, s4).
     bind_res (on_master_interval cfg s4) (\<lambda>s5.
     bind_res (next_input (counter_interval cfg s5)) (\<lambda>(_, s6). collect s6)))))"

definition start_workers :: "cfg \<Rightarrow> server \<Rightarrow> server" where
  "start_workers cfg s = s\<lparr>sv_workers := sv_workers s @ replicate (workers cfg) \<lparr>th_job = None, th_held = None\<rparr>\<rparr>"

definition master_start :: "cfg \<Rightarrow> server \<Rightarrow> fault + server" where
  "master_start cfg s =
     bind_res (on_master_start cfg s) (\<lambda>s1.
     bind_res (if cc_enable (counter cfg) then counter_on_master_start cfg s1 else Inr s1) (\<lambda>s2.
       Inr ((start_workers cfg s2)\<lparr>re_running := True\<rparr>)))"

definition master_loop :: "nat \<Rightarrow> (string \<Rightarrow> u64) \<Rightarrow> cfg \<Rightarrow> server \<Rightarrow> fault + server" where
  "master_loop n hf cfg s = run_rounds n (server_hooks hf cfg) (\<lambda>s. in_elapsed (input_of s)) (master_callback cfg) s"

text \<open>At most \<open>n\<close> rounds of the loop.  Once it is left, the process stops the workers and exits.\<close>

definition serve_master :: "nat \<Rightarrow> (string \<Rightarrow> u64) \<Rightarrow> cfg \<Rightarrow> server \<Rightarrow> fault + server" where
  "serve_master n hf cfg s = bind_res (master_start cfg s) (master_loop n hf cfg)"

section \<open>Slave mode\<close>

definition slave_callback :: "server \<Rightarrow> fault + server" where
  "slave_callback s =
     bind_res (next_input s) (\<lambda>(i, s1).
       if in_is_master i then Inr (quit s1)
       else
         bind_res (on_slave_interval (in_sent i) (s1\<lparr>sv_now := in_time i\<rparr>)) (\<lambda>s2.
         bind_res (fix_garbage s2) (\<lambda>(ok, s3). reactor_gc s3)))"

definition counter_slave_start :: "cfg \<Rightarrow> server \<Rightarrow> server" where
  "counter_slave_start cfg s =
     (if cc_enable (counter cfg) then
        (case counter_on_slave_start (sv_counter s) (sv_counter_stats s) of (ok, h, st) \<Rightarrow> s\<lparr>sv_counter := h, sv_counter_stats := st\<rparr>)
      else s)"

definition slave_loop :: "nat \<Rightarrow> (string \<Rightarrow> u64) \<Rightarrow> cfg \<Rightarrow> server \<Rightarrow> fault + server" where
  "slave_loop n hf cfg s = run_rounds n (server_hooks hf cfg) (\<lambda>s. in_elapsed (input_of s)) slave_callback s"

text \<open>The result tells whether \<^verbatim>\<open>serve_slave\<close> has returned within \<open>n\<close> rounds.\<close>

definition serve_slave :: "nat \<Rightarrow> (string \<Rightarrow> u64) \<Rightarrow> cfg \<Rightarrow> server \<Rightarrow> fault + (bool \<times> server)" where
  "serve_slave n hf cfg s =
     bind_res (on_slave_start (server_hooks hf cfg) s) (\<lambda>(ok, s1).
       if \<not> ok then Inr (True, s1)
       else
         bind_res (slave_loop n hf cfg ((counter_slave_start cfg s1)\<lparr>re_running := True\<rparr>)) (\<lambda>s2.
           if re_running s2 then Inr (False, s2) else bind_res (on_slave_end s2) (\<lambda>s3. Inr (True, s3))))"

section \<open>The server\<close>

definition MASTER_CHECKS :: nat where "MASTER_CHECKS = 50"

fun promoted :: "nat \<Rightarrow> server \<Rightarrow> fault + (bool \<times> server)" where
  "promoted 0 s = Inr (False, s)"
| "promoted (Suc k) s = bind_res (next_input s) (\<lambda>(i, s1). if in_is_master i then Inr (True, s1) else promoted k s1)"

text \<open>At most \<open>m\<close> phases as a slave, each mode for at most \<open>n\<close> rounds.\<close>

fun serve_loop :: "nat \<Rightarrow> nat \<Rightarrow> (string \<Rightarrow> u64) \<Rightarrow> cfg \<Rightarrow> server \<Rightarrow> fault + server" where
  "serve_loop 0 n hf cfg s = Inr s"
| "serve_loop (Suc m) n hf cfg s =
     bind_res (serve_slave n hf cfg s) (\<lambda>(returned, s1).
       if \<not> returned \<or> sv_signaled s1 then Inr s1
       else bind_res (promoted MASTER_CHECKS s1) (\<lambda>(ok, s2). if ok then serve_master n hf cfg s2 else serve_loop m n hf cfg s2))"

definition signal_setup :: "server \<Rightarrow> fault + server" where
  "signal_setup s = bind_res (next_input s) (\<lambda>(i, s1). bind_res (open_socket ''signalfd'' Signal_fd (in_sockets i) s1) (\<lambda>(as, s2). Inr s2))"

text \<open>Up to the first question whether this machine is the master; the answer is in the input.\<close>

definition serve_start :: "cfg \<Rightarrow> server \<Rightarrow> fault + (input \<times> server)" where
  "serve_start cfg s = bind_res (signal_setup s) (\<lambda>s1. bind_res (on_start cfg s1) next_input)"

definition serve :: "nat \<Rightarrow> nat \<Rightarrow> (string \<Rightarrow> u64) \<Rightarrow> cfg \<Rightarrow> server \<Rightarrow> fault + server" where
  "serve m n hf cfg s =
     bind_res (serve_start cfg s) (\<lambda>(i, s1). if in_is_master i then serve_master n hf cfg s1 else serve_loop m n hf cfg s1)"

end
