(* ===== verification/Server_View.thy ===== *)
theory Server_View
  imports Server
begin

text \<open>
  The part of the server's state on which the threads have to agree, and its invariant:
  who refers to which socket, who holds which socket, and which workers a request of the syncer still waits for.
  Each step of the program is a step on this view.
\<close>

section \<open>The view\<close>

record view =
  v_subs :: "nat \<rightharpoonup> sock"
  v_readers :: "nat \<rightharpoonup> nat"
  v_workers :: "worker_thread list"
  v_index :: nat
  v_requests :: "sync_callback sync_request list"
  v_gc :: "collector option"
  v_slaves :: "nat list"
  v_new :: "nat list"
  v_copy :: "nat list"
  v_is_slave :: bool
  v_client :: "nat option"

definition view_of :: "server \<Rightarrow> view" where
  "view_of s =
     \<lparr>v_subs = map_option rs_sub \<circ> seen (re_objs s), v_readers = map_option rs_readers \<circ> seen (re_objs s), v_workers = sv_workers s,
      v_index = sv_worker_index s, v_requests = sv_requests s, v_gc = sv_gc_thread s, v_slaves = sv_slaves s,
      v_new = sv_new_slaves s, v_copy = re_garbage_copy s, v_is_slave = sv_is_slave s, v_client = sv_repl_client s\<rparr>"

definition refs_of :: "(nat \<rightharpoonup> sock) \<Rightarrow> job \<Rightarrow> nat set" where
  "refs_of subs j =
     (case j of
        Recv_job x \<Rightarrow> insert x (case subs x of None \<Rightarrow> {} | Some k \<Rightarrow> set (so_slaves k))
      | Send_job x \<Rightarrow> {x}
      | Leaving \<Rightarrow> {})"

definition worker_refs :: "(nat \<rightharpoonup> sock) \<Rightarrow> worker_thread \<Rightarrow> nat set" where
  "worker_refs subs t = (case th_job t of None \<Rightarrow> {} | Some j \<Rightarrow> refs_of subs j)"

definition gc_refs :: "view \<Rightarrow> nat set" where
  "gc_refs v = (case v_gc v of None \<Rightarrow> {} | Some c \<Rightarrow> set (collector_refs c))"

definition gc_new :: "view \<Rightarrow> nat set" where
  "gc_new v = (case v_gc v of None \<Rightarrow> {} | Some c \<Rightarrow> if cl_done c then {} else set (gt_new_slaves (cl_thread c)))"

definition gc_held :: "view \<Rightarrow> nat option" where
  "gc_held v = (case v_gc v of None \<Rightarrow> None | Some c \<Rightarrow> cl_held c)"

definition pending :: "view \<Rightarrow> nat set" where
  "pending v = {x. \<exists>req \<in> set (v_requests v). sr_callback req = New_slave x}"

definition holders :: "view \<Rightarrow> nat \<Rightarrow> nat" where
  "holders v x = length (filter (\<lambda>t. th_held t = Some x) (v_workers v)) + (if gc_held v = Some x then 1 else 0)"

text \<open>A job that serves a client of the memcache protocol knows the slave \<open>x\<close>.\<close>

definition covers :: "(nat \<rightharpoonup> sock) \<Rightarrow> nat \<Rightarrow> worker_thread \<Rightarrow> bool" where
  "covers subs x t \<longleftrightarrow>
     (\<forall>y k. th_job t = Some (Recv_job y) \<longrightarrow> subs y = Some k \<longrightarrow> so_kind k = Memcache_sock \<longrightarrow> x \<in> set (so_slaves k))"

section \<open>The invariant\<close>

text \<open>
  A socket is busy exactly while one worker receives from it; a thread holds only what it may
  refer to, and the read lock counts the threads that hold a socket.
\<close>

definition threads_ok :: "view \<Rightarrow> bool" where
  "threads_ok v \<longleftrightarrow>
     length (v_workers v) \<le> MAX_WORKERS \<and> v_index v < length (v_workers v) \<and>
     (\<forall>x k. v_subs v x = Some k \<longrightarrow> so_busy k = (\<exists>w < length (v_workers v). th_job (v_workers v ! w) = Some (Recv_job x))) \<and>
     (\<forall>w < length (v_workers v). \<forall>w' < length (v_workers v). \<forall>x.
        th_job (v_workers v ! w) = Some (Recv_job x) \<longrightarrow> th_job (v_workers v ! w') = Some (Recv_job x) \<longrightarrow> w = w') \<and>
     (\<forall>t \<in> set (v_workers v). \<forall>x. th_held t = Some x \<longrightarrow> x \<in> worker_refs (v_subs v) t) \<and>
     (\<forall>x. gc_held v = Some x \<longrightarrow> x \<in> gc_refs v) \<and>
     (\<forall>x n. v_readers v x = Some n \<longrightarrow> n = holders v x)"

text \<open>Everything that is referred to is alive.\<close>

definition refs_ok :: "view \<Rightarrow> bool" where
  "refs_ok v \<longleftrightarrow>
     dom (v_readers v) = dom (v_subs v) \<and>
     (\<forall>t \<in> set (v_workers v). worker_refs (v_subs v) t \<subseteq> dom (v_subs v)) \<and>
     gc_refs v \<union> set (v_slaves v) \<union> set (v_new v) \<union> pending v \<subseteq> dom (v_subs v) \<and> distinct (v_slaves v) \<and>
     (\<forall>x k. v_subs v x = Some k \<longrightarrow> so_kind k \<noteq> Memcache_sock \<longrightarrow> so_slaves k = [])"

text \<open>
  The garbage that was fixed is referred to by nobody but workers whose current job is older; for these
  the pending request to collect it still waits.
\<close>

definition fixed_ok :: "view \<Rightarrow> bool" where
  "fixed_ok v \<longleftrightarrow>
     (\<forall>req \<in> set (v_requests v). flags_ok req) \<and>
     set (v_copy v) \<inter> (gc_refs v \<union> set (v_slaves v) \<union> set (v_new v) \<union> pending v) = {} \<and>
     (v_copy v \<noteq> [] \<longrightarrow> (\<exists>req \<in> set (v_requests v). sr_callback req = Collect_garbage)) \<and>
     (\<forall>req \<in> set (v_requests v). sr_callback req = Collect_garbage \<longrightarrow>
        (\<forall>w < length (v_workers v). sr_flags req ! w \<longrightarrow> worker_refs (v_subs v) (v_workers v ! w) \<inter> set (v_copy v) = {}))"

text \<open>
  A slave that waits for its initial replication, or is receiving it, is known to every job; while its request
  is pending, it is known to the jobs of the workers that were seen idle.
\<close>

definition cover_ok :: "view \<Rightarrow> bool" where
  "cover_ok v \<longleftrightarrow>
     (\<forall>x \<in> set (v_slaves v).
        (x \<in> set (v_new v) \<union> gc_new v \<longrightarrow> (\<forall>t \<in> set (v_workers v). covers (v_subs v) x t)) \<and>
        (\<forall>req \<in> set (v_requests v). sr_callback req = New_slave x \<longrightarrow>
           (\<forall>w < length (v_workers v). sr_flags req ! w \<longrightarrow> covers (v_subs v) x (v_workers v ! w))))"

definition view_ok :: "view \<Rightarrow> bool" where
  "view_ok v \<longleftrightarrow> threads_ok v \<and> refs_ok v \<and> fixed_ok v \<and> cover_ok v"

lemmas view_defs = threads_ok_def refs_ok_def fixed_ok_def cover_ok_def

section \<open>Updating one worker\<close>

text \<open>A worker whose references do not grow: it begins or ends a use, clears the busy flag, or leaves.\<close>

lemma worker_refs_held [simp]: "worker_refs subs (t\<lparr>th_held := h\<rparr>) = worker_refs subs t"
  by (simp add: worker_refs_def)

lemma covers_held [simp]: "covers subs x (t\<lparr>th_held := h\<rparr>) = covers subs x t"
  by (simp add: covers_def)

lemma all_update: "\<forall>t \<in> set ts. P t \<Longrightarrow> P t' \<Longrightarrow> \<forall>t \<in> set (ts[w := t']). P t"
  using set_update_subset_insert [of ts w t'] by auto

lemma nth_update: "w < length ts \<Longrightarrow> i < length ts \<Longrightarrow> ts[w := t'] ! i = (if i = w then t' else ts ! i)"
  by simp

lemma length_filter_update:
  "w < length ts \<Longrightarrow> length (filter P (ts[w := t'])) + (if P (ts ! w) then 1 else 0) = length (filter P ts) + (if P t' then 1 else 0)"
proof (induction ts arbitrary: w)
  case (Cons t ts)
  then show ?case using Cons.IH [of "w - 1"] by (cases w) auto
qed simp

text \<open>Changing the worker \<open>w\<close> to one with fewer references keeps everything but the agreement of the threads.\<close>

definition with_worker :: "nat \<Rightarrow> worker_thread \<Rightarrow> view \<Rightarrow> view" where
  "with_worker w t v = v\<lparr>v_workers := (v_workers v)[w := t]\<rparr>"

lemma with_worker_sel [simp]:
  "v_subs (with_worker w t v) = v_subs v" "v_readers (with_worker w t v) = v_readers v" "v_workers (with_worker w t v) = (v_workers v)[w := t]"
  "v_index (with_worker w t v) = v_index v" "v_requests (with_worker w t v) = v_requests v" "v_gc (with_worker w t v) = v_gc v"
  "v_slaves (with_worker w t v) = v_slaves v" "v_new (with_worker w t v) = v_new v" "v_copy (with_worker w t v) = v_copy v"
  "gc_refs (with_worker w t v) = gc_refs v" "gc_new (with_worker w t v) = gc_new v" "gc_held (with_worker w t v) = gc_held v"
  "pending (with_worker w t v) = pending v"
  by (simp_all add: with_worker_def gc_refs_def gc_new_def gc_held_def pending_def)

lemma with_worker_refs:
  assumes "refs_ok v" "worker_refs (v_subs v) t \<subseteq> dom (v_subs v)"
  shows "refs_ok (with_worker w t v)"
  using assms all_update [of "v_workers v" "\<lambda>t. worker_refs (v_subs v) t \<subseteq> dom (v_subs v)" t w] by (simp add: refs_ok_def)

lemma with_worker_fixed:
  assumes "fixed_ok v" "worker_refs (v_subs v) t \<inter> set (v_copy v) \<subseteq> worker_refs (v_subs v) (v_workers v ! w)"
  shows "fixed_ok (with_worker w t v)"
proof -
  have "worker_refs (v_subs v) ((v_workers v)[w := t] ! i) \<inter> set (v_copy v) = {}"
    if "worker_refs (v_subs v) (v_workers v ! i) \<inter> set (v_copy v) = {}" "i < length (v_workers v)" for i
    using that assms(2) by (cases "i = w") auto
  then show ?thesis using assms(1) by (simp add: fixed_ok_def)
qed

lemma with_worker_cover:
  assumes "cover_ok v" "\<And>x. x \<in> set (v_slaves v) \<Longrightarrow> covers (v_subs v) x (v_workers v ! w) \<Longrightarrow> covers (v_subs v) x t" "w < length (v_workers v)"
  shows "cover_ok (with_worker w t v)"
proof -
  have at: "covers (v_subs v) x ((v_workers v)[w := t] ! i)"
    if "x \<in> set (v_slaves v)" "covers (v_subs v) x (v_workers v ! i)" "i < length (v_workers v)" for x i
    using that assms(2,3) by (cases "i = w") auto
  have "\<forall>t' \<in> set ((v_workers v)[w := t]). covers (v_subs v) x t'"
    if "x \<in> set (v_slaves v)" "\<forall>t' \<in> set (v_workers v). covers (v_subs v) x t'" for x
    using that assms(2,3) by (intro all_update) auto
  then show ?thesis using assms(1) at by (simp add: cover_ok_def)
qed


section \<open>Using a socket\<close>

lemma view_okD: "view_ok v \<Longrightarrow> threads_ok v" "view_ok v \<Longrightarrow> refs_ok v" "view_ok v \<Longrightarrow> fixed_ok v" "view_ok v \<Longrightarrow> cover_ok v"
  by (simp_all add: view_ok_def)

lemma threads_okD:
  assumes "threads_ok v"
  shows "length (v_workers v) \<le> MAX_WORKERS" "v_index v < length (v_workers v)"
    "v_subs v x = Some k \<Longrightarrow> so_busy k = (\<exists>w < length (v_workers v). th_job (v_workers v ! w) = Some (Recv_job x))"
    "w < length (v_workers v) \<Longrightarrow> w' < length (v_workers v) \<Longrightarrow> th_job (v_workers v ! w) = Some (Recv_job x) \<Longrightarrow>
       th_job (v_workers v ! w') = Some (Recv_job x) \<Longrightarrow> w = w'"
    "t \<in> set (v_workers v) \<Longrightarrow> th_held t = Some x \<Longrightarrow> x \<in> worker_refs (v_subs v) t"
    "gc_held v = Some x \<Longrightarrow> x \<in> gc_refs v" "v_readers v x = Some n \<Longrightarrow> n = holders v x"
  using assms by (auto simp: threads_ok_def)

lemma threads_okI:
  assumes "length (v_workers v) \<le> MAX_WORKERS" "v_index v < length (v_workers v)"
    "\<And>x k. v_subs v x = Some k \<Longrightarrow> so_busy k = (\<exists>w < length (v_workers v). th_job (v_workers v ! w) = Some (Recv_job x))"
    "\<And>w w' x. w < length (v_workers v) \<Longrightarrow> w' < length (v_workers v) \<Longrightarrow> th_job (v_workers v ! w) = Some (Recv_job x) \<Longrightarrow>
       th_job (v_workers v ! w') = Some (Recv_job x) \<Longrightarrow> w = w'"
    "\<And>t x. t \<in> set (v_workers v) \<Longrightarrow> th_held t = Some x \<Longrightarrow> x \<in> worker_refs (v_subs v) t"
    "\<And>x. gc_held v = Some x \<Longrightarrow> x \<in> gc_refs v" "\<And>x n. v_readers v x = Some n \<Longrightarrow> n = holders v x"
  shows "threads_ok v"
  unfolding threads_ok_def using assms by blast

lemma holders_with_worker:
  assumes "w < length (v_workers v)"
  shows "holders (with_worker w t v) x + (if th_held (v_workers v ! w) = Some x then 1 else 0) = holders v x + (if th_held t = Some x then 1 else 0)"
  using length_filter_update [OF assms, of "\<lambda>t. th_held t = Some x" t] by (simp add: holders_def)

lemma job_update: "w < length ts \<Longrightarrow> th_job t' = th_job (ts ! w) \<Longrightarrow> i < length ts \<Longrightarrow> th_job (ts[w := t'] ! i) = th_job (ts ! i)"
  by (cases "i = w") simp_all

text \<open>A worker begins or ends the use of a socket.\<close>

lemma set_held_ok:
  assumes "view_ok v" "w < length (v_workers v)" "\<And>x. h = Some x \<Longrightarrow> x \<in> worker_refs (v_subs v) (v_workers v ! w)"
    "dom rd = dom (v_subs v)" "\<And>x n. rd x = Some n \<Longrightarrow> n = holders (with_worker w ((v_workers v ! w)\<lparr>th_held := h\<rparr>) v) x"
  shows "view_ok ((with_worker w ((v_workers v ! w)\<lparr>th_held := h\<rparr>) v)\<lparr>v_readers := rd\<rparr>)"
proof -
  let ?t = "(v_workers v ! w)\<lparr>th_held := h\<rparr>"
  let ?v = "with_worker w ?t v"
  note o = view_okD [OF assms(1)]
  have sel: "gc_refs (u\<lparr>v_readers := rd\<rparr>) = gc_refs u" "gc_new (u\<lparr>v_readers := rd\<rparr>) = gc_new u" "gc_held (u\<lparr>v_readers := rd\<rparr>) = gc_held u"
    "pending (u\<lparr>v_readers := rd\<rparr>) = pending u" "holders (u\<lparr>v_readers := rd\<rparr>) = holders u" for u
    by (simp_all add: gc_refs_def gc_new_def gc_held_def pending_def holders_def fun_eq_iff)
  have mem: "v_workers v ! w \<in> set (v_workers v)" using assms(2) by simp
  have "threads_ok (?v\<lparr>v_readers := rd\<rparr>)"
  proof (rule threads_okI, goal_cases)
    case (3 x k)
    then show ?case using threads_okD(3) [OF o(1), of x k] job_update [OF assms(2), of ?t] by auto
  next
    case (4 i i' x)
    then show ?case using threads_okD(4) [OF o(1), of i i' x] job_update [OF assms(2), of ?t] by auto
  next
    case (5 t x)
    then show ?case using threads_okD(5) [OF o(1)] assms(3) set_update_subset_insert [of "v_workers v" w ?t] by auto
  next
    case (7 x n)
    then show ?case using assms(5) by (simp add: sel)
  qed (use threads_okD(1,2,6) [OF o(1)] in \<open>simp_all add: sel\<close>)
  moreover have "worker_refs (v_subs v) (v_workers v ! w) \<subseteq> dom (v_subs v)" using o(2) mem by (simp add: refs_ok_def)
  then have "refs_ok ?v" using with_worker_refs [OF o(2)] by simp
  then have "refs_ok (?v\<lparr>v_readers := rd\<rparr>)" using assms(4) by (simp add: refs_ok_def sel)
  moreover have "fixed_ok ?v" using with_worker_fixed [OF o(3), of ?t w] by simp
  then have "fixed_ok (?v\<lparr>v_readers := rd\<rparr>)" by (simp add: fixed_ok_def sel)
  moreover have "cover_ok ?v" using with_worker_cover [OF o(4), of w ?t] assms(2) by simp
  then have "cover_ok (?v\<lparr>v_readers := rd\<rparr>)" by (simp add: cover_ok_def sel)
  ultimately show ?thesis by (simp add: view_ok_def)
qed


text \<open>The collector begins or ends the use of a socket, and ends.\<close>

lemma set_collector_ok:
  assumes "view_ok v" "gc_refs (v\<lparr>v_gc := g\<rparr>) \<subseteq> gc_refs v" "gc_new (v\<lparr>v_gc := g\<rparr>) \<subseteq> gc_new v"
    "\<And>x. gc_held (v\<lparr>v_gc := g\<rparr>) = Some x \<Longrightarrow> x \<in> gc_refs (v\<lparr>v_gc := g\<rparr>)" "dom rd = dom (v_subs v)"
    "\<And>x n. rd x = Some n \<Longrightarrow> n = holders (v\<lparr>v_gc := g\<rparr>) x"
  shows "view_ok (v\<lparr>v_gc := g, v_readers := rd\<rparr>)"
proof -
  note o = view_okD [OF assms(1)]
  let ?v = "v\<lparr>v_gc := g, v_readers := rd\<rparr>"
  have sel: "gc_refs ?v = gc_refs (v\<lparr>v_gc := g\<rparr>)" "gc_new ?v = gc_new (v\<lparr>v_gc := g\<rparr>)" "gc_held ?v = gc_held (v\<lparr>v_gc := g\<rparr>)"
    "pending ?v = pending v" "holders ?v = holders (v\<lparr>v_gc := g\<rparr>)"
    by (simp_all add: gc_refs_def gc_new_def gc_held_def pending_def holders_def fun_eq_iff)
  have "threads_ok ?v"
  proof (rule threads_okI, goal_cases)
    case (3 x k) then show ?case using threads_okD(3) [OF o(1), of x k] by simp
  next
    case (4 i i' x) then show ?case using threads_okD(4) [OF o(1), of i i' x] by simp
  next
    case (5 t x) then show ?case using threads_okD(5) [OF o(1)] by simp
  next
    case (6 x) then show ?case using assms(4) by (simp add: sel)
  next
    case (7 x n) then show ?case using assms(6) by (simp add: sel)
  qed (use threads_okD(1,2) [OF o(1)] in simp_all)
  moreover have "refs_ok ?v" using o(2) assms(2,5) by (auto simp: refs_ok_def sel)
  moreover have "fixed_ok ?v" using o(3) assms(2) by (auto simp: fixed_ok_def sel)
  moreover have "cover_ok ?v" using o(4) assms(3) by (auto simp: cover_ok_def sel)
  ultimately show ?thesis by (simp add: view_ok_def)
qed

section \<open>Jobs\<close>

text \<open>Two sets of sockets with the same references.\<close>

definition same_refs :: "(nat \<rightharpoonup> sock) \<Rightarrow> (nat \<rightharpoonup> sock) \<Rightarrow> bool" where
  "same_refs subs subs' \<longleftrightarrow> (\<forall>x. map_option (\<lambda>k. (so_kind k, so_slaves k)) (subs' x) = map_option (\<lambda>k. (so_kind k, so_slaves k)) (subs x))"

lemma same_refsD:
  assumes "same_refs subs subs'"
  shows "dom subs' = dom subs" "worker_refs subs' t = worker_refs subs t" "covers subs' x t = covers subs x t"
    "subs' y = Some k' \<Longrightarrow> \<exists>k. subs y = Some k \<and> so_kind k = so_kind k' \<and> so_slaves k = so_slaves k'"
proof -
  have eq: "map_option (\<lambda>k. (so_kind k, so_slaves k)) (subs' y) = map_option (\<lambda>k. (so_kind k, so_slaves k)) (subs y)" for y
    using assms by (simp add: same_refs_def)
  have none: "subs' y = None \<longleftrightarrow> subs y = None" for y using eq [of y] by (cases "subs y"; cases "subs' y") auto
  then show "dom subs' = dom subs" by (auto simp: dom_def)
  have fwd: "\<exists>k'. subs' y = Some k' \<and> so_kind k = so_kind k' \<and> so_slaves k = so_slaves k'" if "subs y = Some k" for y k
    using eq [of y] that by (cases "subs' y") auto
  show bwd: "\<exists>k. subs y = Some k \<and> so_kind k = so_kind k' \<and> so_slaves k = so_slaves k'" if "subs' y = Some k'" for y k'
    using eq [of y] that by (cases "subs y") auto
  have "refs_of subs' j = refs_of subs j" for j
  proof (cases j)
    case (Recv_job y)
    then show ?thesis using eq [of y] by (cases "subs y"; cases "subs' y") (auto simp: refs_of_def)
  qed (simp_all add: refs_of_def)
  then show "worker_refs subs' t = worker_refs subs t" by (simp add: worker_refs_def split: option.split)
  show "covers subs' x t = covers subs x t" unfolding covers_def using fwd bwd by metis
qed

lemma same_refs_upd: "subs x = Some k \<Longrightarrow> so_kind k' = so_kind k \<Longrightarrow> so_slaves k' = so_slaves k \<Longrightarrow> same_refs subs (subs(x \<mapsto> k'))"
  by (simp add: same_refs_def)

lemma subs_sel:
  "gc_refs (v\<lparr>v_subs := subs\<rparr>) = gc_refs v" "gc_new (v\<lparr>v_subs := subs\<rparr>) = gc_new v" "gc_held (v\<lparr>v_subs := subs\<rparr>) = gc_held v"
  "pending (v\<lparr>v_subs := subs\<rparr>) = pending v" "holders (v\<lparr>v_subs := subs\<rparr>) = holders v"
  by (simp_all add: gc_refs_def gc_new_def gc_held_def pending_def holders_def fun_eq_iff)

lemma same_refs_ok:
  assumes "same_refs (v_subs v) subs"
  shows "refs_ok v \<Longrightarrow> refs_ok (v\<lparr>v_subs := subs\<rparr>)" "fixed_ok v \<Longrightarrow> fixed_ok (v\<lparr>v_subs := subs\<rparr>)" "cover_ok v \<Longrightarrow> cover_ok (v\<lparr>v_subs := subs\<rparr>)"
proof -
  note d = same_refsD [OF assms]
  show "refs_ok (v\<lparr>v_subs := subs\<rparr>)" if "refs_ok v"
  proof -
    have "so_slaves k = []" if "subs x = Some k" "so_kind k \<noteq> Memcache_sock" for x k
      using d(4) [OF that(1)] that(2) \<open>refs_ok v\<close> unfolding refs_ok_def by metis
    then show ?thesis using that by (simp add: refs_ok_def subs_sel d(1,2))
  qed
  show "fixed_ok (v\<lparr>v_subs := subs\<rparr>)" if "fixed_ok v" using that by (simp add: fixed_ok_def subs_sel d(2))
  show "cover_ok (v\<lparr>v_subs := subs\<rparr>)" if "cover_ok v" using that by (simp add: cover_ok_def subs_sel d(3))
qed

text \<open>A job that has received clears the busy flag.\<close>

lemma clear_busy_ok:
  assumes "view_ok v" "w < length (v_workers v)" "v_workers v ! w = t" "th_job t = Some (Recv_job x)" "th_held t = None" "v_subs v x = Some k"
  shows "view_ok ((with_worker w (t\<lparr>th_job := Some Leaving\<rparr>) v)\<lparr>v_subs := (v_subs v)(x \<mapsto> k\<lparr>so_busy := False\<rparr>)\<rparr>)"
proof -
  note o = view_okD [OF assms(1)]
  let ?t = "t\<lparr>th_job := Some Leaving\<rparr>" and ?subs = "(v_subs v)(x \<mapsto> k\<lparr>so_busy := False\<rparr>)"
  let ?u = "with_worker w ?t v"
  let ?v = "?u\<lparr>v_subs := ?subs\<rparr>"
  have same: "same_refs (v_subs ?u) ?subs" using same_refs_upd [of "v_subs v" x k "k\<lparr>so_busy := False\<rparr>"] assms(6) by simp
  have none: "worker_refs (v_subs v) ?t = {}" by (simp add: worker_refs_def refs_of_def)
  have job: "th_job ((v_workers v)[w := ?t] ! i) = Some (Recv_job y) \<longleftrightarrow> i \<noteq> w \<and> th_job (v_workers v ! i) = Some (Recv_job y)"
    if "i < length (v_workers v)" for i y using that assms(2) by (cases "i = w") simp_all
  have jw: "th_job (v_workers v ! w) = Some (Recv_job x)" using assms(3,4) by simp
  have "threads_ok ?v"
  proof (rule threads_okI, goal_cases)
    case (3 y k')
    have ex: "(\<exists>i < length (v_workers v). th_job ((v_workers v)[w := ?t] ! i) = Some (Recv_job y)) \<longleftrightarrow>
      (\<exists>i < length (v_workers v). i \<noteq> w \<and> th_job (v_workers v ! i) = Some (Recv_job y))" using job by blast
    show ?case
    proof (cases "y = x")
      case True
      then show ?thesis using 3 threads_okD(4) [OF o(1) _ assms(2) _ jw] ex by auto
    next
      case False
      then have "(\<exists>i < length (v_workers v). i \<noteq> w \<and> th_job (v_workers v ! i) = Some (Recv_job y)) \<longleftrightarrow>
        (\<exists>i < length (v_workers v). th_job (v_workers v ! i) = Some (Recv_job y))" using jw by auto
      then show ?thesis using False 3 threads_okD(3) [OF o(1), of y k'] ex by simp
    qed
  next
    case (4 i i' y) then show ?case using threads_okD(4) [OF o(1), of i i' y] by (simp add: job)
  next
    case (5 t' y)
    then have "t' \<in> set (v_workers v)" using set_update_subset_insert [of "v_workers v" w ?t] assms(5) by auto
    then show ?case using 5 threads_okD(5) [OF o(1)] same_refsD(2) [OF same] by simp
  next
    case (7 y n) then show ?case using threads_okD(7) [OF o(1), of y n] holders_with_worker [OF assms(2), of ?t y] assms(3,5) by (simp add: subs_sel)
  qed (use threads_okD(1,2,6) [OF o(1)] in \<open>simp_all add: subs_sel\<close>)
  moreover have "refs_ok ?u" using with_worker_refs [OF o(2), of ?t] none by simp
  moreover have "fixed_ok ?u" using with_worker_fixed [OF o(3), of ?t w] none by simp
  moreover have "cover_ok ?u" using with_worker_cover [OF o(4), of w ?t] assms(2) by (simp add: covers_def)
  ultimately show ?thesis using same_refs_ok [OF same] by (simp add: view_ok_def)
qed

text \<open>A worker leaves a job that does not receive any more.\<close>

lemma leave_ok:
  assumes "view_ok v" "w < length (v_workers v)" "v_workers v ! w = t" "\<And>x. th_job t \<noteq> Some (Recv_job x)" "th_held t = None"
  shows "view_ok (with_worker w (t\<lparr>th_job := None\<rparr>) v)"
proof -
  note o = view_okD [OF assms(1)]
  let ?t = "t\<lparr>th_job := None\<rparr>"
  let ?v = "with_worker w ?t v"
  have none: "worker_refs (v_subs v) ?t = {}" by (simp add: worker_refs_def)
  have job: "th_job ((v_workers v)[w := ?t] ! i) = Some (Recv_job y) \<longleftrightarrow> th_job (v_workers v ! i) = Some (Recv_job y)"
    if "i < length (v_workers v)" for i y using that assms(2,3,4) by (cases "i = w") auto
  have "threads_ok ?v"
  proof (rule threads_okI, goal_cases)
    case (3 y k) then show ?case using threads_okD(3) [OF o(1), of y k] by (auto simp: job)
  next
    case (4 i i' y) then show ?case using threads_okD(4) [OF o(1), of i i' y] by (simp add: job)
  next
    case (5 t' y)
    then have "t' \<in> set (v_workers v)" using set_update_subset_insert [of "v_workers v" w ?t] assms(5) by auto
    then show ?case using 5 threads_okD(5) [OF o(1)] by simp
  next
    case (7 y n) then show ?case using threads_okD(7) [OF o(1), of y n] holders_with_worker [OF assms(2), of ?t y] assms(3,5) by simp
  qed (use threads_okD(1,2,6) [OF o(1)] in simp_all)
  moreover have "refs_ok ?v" using with_worker_refs [OF o(2), of ?t] none by simp
  moreover have "fixed_ok ?v" using with_worker_fixed [OF o(3), of ?t w] none by simp
  moreover have "cover_ok ?v" using with_worker_cover [OF o(4), of w ?t] assms(2) by (simp add: covers_def)
  ultimately show ?thesis by (simp add: view_ok_def)
qed


text \<open>The reactor gives a job to an idle worker.\<close>

lemma idle_not_held: "threads_ok v \<Longrightarrow> w < length (v_workers v) \<Longrightarrow> th_job (v_workers v ! w) = None \<Longrightarrow> th_held (v_workers v ! w) = None"
  using threads_okD(5) [of v "v_workers v ! w"] by (cases "th_held (v_workers v ! w)") (auto simp: worker_refs_def)

lemma other_job:
  assumes "th_job t \<noteq> Some (Recv_job x)"
  shows "worker_refs (subs(x := k)) t = worker_refs subs t" "covers (subs(x := k)) y t = covers subs y t"
proof -
  have "refs_of (subs(x := k)) j = refs_of subs j" if "j \<noteq> Recv_job x" for j
    using that by (cases j) (auto simp: refs_of_def)
  then show "worker_refs (subs(x := k)) t = worker_refs subs t" using assms by (auto simp: worker_refs_def split: option.split)
  show "covers (subs(x := k)) y t = covers subs y t" using assms by (auto simp: covers_def split: if_splits)
qed

lemma recv_job_ok:
  assumes "view_ok v" "w < length (v_workers v)" "th_job (v_workers v ! w) = None" "v_subs v x = Some k" "\<not> so_busy k" "x \<notin> set (v_copy v)"
    "k' = k\<lparr>so_busy := True, so_slaves := sl\<rparr>" "if so_kind k = Memcache_sock then sl = v_slaves v else sl = so_slaves k"
  shows "view_ok ((with_worker w \<lparr>th_job = Some (Recv_job x), th_held = None\<rparr> v)\<lparr>v_subs := (v_subs v)(x \<mapsto> k')\<rparr>)"
proof -
  note o = view_okD [OF assms(1)]
  let ?t = "\<lparr>th_job = Some (Recv_job x), th_held = None\<rparr>" and ?subs = "(v_subs v)(x \<mapsto> k')"
  let ?ws = "v_workers v" let ?v = "(with_worker w ?t v)\<lparr>v_subs := ?subs\<rparr>"
  have no: "th_job (?ws ! i) \<noteq> Some (Recv_job x)" if "i < length ?ws" for i
    using threads_okD(3) [OF o(1) assms(4)] assms(5) that by blast
  then have no': "th_job t \<noteq> Some (Recv_job x)" if "t \<in> set ?ws" for t using that by (metis in_set_conv_nth)
  have refs: "worker_refs ?subs t = worker_refs (v_subs v) t" "covers ?subs y t = covers (v_subs v) y t" if "t \<in> set ?ws" for t y
    using other_job [OF no' [OF that]] by auto
  have sl: "set sl \<subseteq> set (v_slaves v)" using assms(4,8) o(2) unfolding refs_ok_def by (metis empty_subsetI list.set(1) subset_refl)
  have new: "worker_refs ?subs ?t = insert x (set sl)" by (simp add: worker_refs_def refs_of_def assms(7))
  have dom: "insert x (dom (v_subs v)) = dom (v_subs v)" using assms(4) by auto
  have at: "?ws[w := ?t] ! i = (if i = w then ?t else ?ws ! i)" if "i < length ?ws" for i using that assms(2) by simp
  have "threads_ok ?v"
  proof (rule threads_okI, goal_cases)
    case (3 y q)
    show ?case
    proof (cases "y = x")
      case True
      then show ?thesis using 3 assms(2,7) by auto
    next
      case False
      have "th_job (?ws[w := ?t] ! i) = Some (Recv_job y) \<longleftrightarrow> th_job (?ws ! i) = Some (Recv_job y)" if "i < length ?ws" for i
        using at [OF that] assms(3) False by auto
      then show ?thesis using False 3 threads_okD(3) [OF o(1), of y q] by auto
    qed
  next
    case (4 i i' y)
    then show ?case using threads_okD(4) [OF o(1), of i i' y] at [of i] at [of i'] no [of i] no [of i'] by (auto split: if_splits)
  next
    case (5 t y)
    then have "t \<in> set ?ws" using set_update_subset_insert [of ?ws w ?t] by auto
    then show ?case using 5 threads_okD(5) [OF o(1)] refs(1) by simp
  next
    case (7 y n)
    then show ?case using threads_okD(7) [OF o(1), of y n] holders_with_worker [OF assms(2), of ?t y] idle_not_held [OF o(1) assms(2,3)]
      by (simp add: subs_sel)
  qed (use threads_okD(1,2,6) [OF o(1)] in \<open>simp_all add: subs_sel\<close>)
  moreover have "refs_ok ?v"
  proof -
    have "\<forall>t \<in> set (?ws[w := ?t]). worker_refs ?subs t \<subseteq> dom (v_subs v)"
      using o(2) refs(1) new sl assms(4) by (intro all_update) (auto simp: refs_ok_def)
    moreover have "so_slaves q = []" if "?subs y = Some q" "so_kind q \<noteq> Memcache_sock" for y q
      using that assms(4,7,8) o(2) by (auto simp: refs_ok_def split: if_splits)
    ultimately show ?thesis using o(2) by (simp add: refs_ok_def dom subs_sel)
  qed
  moreover have "fixed_ok ?v"
  proof -
    have "insert x (set sl) \<inter> set (v_copy v) = {}" using sl assms(6) o(3) by (auto simp: fixed_ok_def)
    then have "worker_refs ?subs (?ws[w := ?t] ! i) \<inter> set (v_copy v) = {}"
      if "worker_refs (v_subs v) (?ws ! i) \<inter> set (v_copy v) = {}" "i < length ?ws" for i
      using that refs(1) [of "?ws ! i"] new assms(2) by (cases "i = w") simp_all
    then show ?thesis using o(3) by (simp add: fixed_ok_def subs_sel)
  qed
  moreover have "cover_ok ?v"
  proof -
    have c: "covers ?subs y ?t" if "y \<in> set (v_slaves v)" for y using that assms(7,8) by (auto simp: covers_def split: if_splits)
    have "covers ?subs y (?ws[w := ?t] ! i)" if "y \<in> set (v_slaves v)" "covers (v_subs v) y (?ws ! i)" "i < length ?ws" for y i
      using that refs(2) [of "?ws ! i" y] c assms(2) by (cases "i = w") simp_all
    moreover have "\<forall>t \<in> set (?ws[w := ?t]). covers ?subs y t" if "y \<in> set (v_slaves v)" "\<forall>t \<in> set ?ws. covers (v_subs v) y t" for y
      using that c refs(2) by (intro all_update) auto
    ultimately show ?thesis using o(4) by (simp add: cover_ok_def subs_sel)
  qed
  ultimately show ?thesis by (simp add: view_ok_def)
qed

lemma send_job_ok:
  assumes "view_ok v" "w < length (v_workers v)" "th_job (v_workers v ! w) = None" "x \<in> dom (v_subs v)" "x \<notin> set (v_copy v)"
  shows "view_ok (with_worker w \<lparr>th_job = Some (Send_job x), th_held = None\<rparr> v)"
proof -
  note o = view_okD [OF assms(1)]
  let ?t = "\<lparr>th_job = Some (Send_job x), th_held = None\<rparr>"
  let ?v = "with_worker w ?t v"
  have new: "worker_refs (v_subs v) ?t = {x}" by (simp add: worker_refs_def refs_of_def)
  have job: "th_job ((v_workers v)[w := ?t] ! i) = Some (Recv_job y) \<longleftrightarrow> th_job (v_workers v ! i) = Some (Recv_job y)"
    if "i < length (v_workers v)" for i y using that assms(2,3) by (cases "i = w") auto
  have "threads_ok ?v"
  proof (rule threads_okI, goal_cases)
    case (3 y k) then show ?case using threads_okD(3) [OF o(1), of y k] by (auto simp: job)
  next
    case (4 i i' y) then show ?case using threads_okD(4) [OF o(1), of i i' y] by (simp add: job)
  next
    case (5 t y)
    then have "t \<in> set (v_workers v)" using set_update_subset_insert [of "v_workers v" w ?t] by auto
    then show ?case using 5 threads_okD(5) [OF o(1)] by simp
  next
    case (7 y n)
    then show ?case using threads_okD(7) [OF o(1), of y n] holders_with_worker [OF assms(2), of ?t y] idle_not_held [OF o(1) assms(2,3)] by simp
  qed (use threads_okD(1,2,6) [OF o(1)] in simp_all)
  moreover have "refs_ok ?v" using with_worker_refs [OF o(2), of ?t] new assms(4) by simp
  moreover have "fixed_ok ?v" using with_worker_fixed [OF o(3), of ?t w] new assms(5) by simp
  moreover have "cover_ok ?v" using with_worker_cover [OF o(4), of w ?t] assms(2) by (simp add: covers_def)
  ultimately show ?thesis by (simp add: view_ok_def)
qed

text \<open>A heartbeat.\<close>

lemma touch_ok:
  assumes "view_ok v" "v_subs v x = Some k" "so_kind k' = so_kind k" "so_slaves k' = so_slaves k" "so_busy k' = so_busy k"
  shows "view_ok (v\<lparr>v_subs := (v_subs v)(x \<mapsto> k')\<rparr>)"
proof -
  note o = view_okD [OF assms(1)]
  have same: "same_refs (v_subs v) ((v_subs v)(x \<mapsto> k'))" using same_refs_upd [of "v_subs v" x k k'] assms(2-4) by simp
  have "threads_ok (v\<lparr>v_subs := (v_subs v)(x \<mapsto> k')\<rparr>)"
  proof (rule threads_okI, goal_cases)
    case (3 y q)
    then show ?case using threads_okD(3) [OF o(1), of y q] threads_okD(3) [OF o(1), of x k] assms(2,5) by (auto split: if_splits)
  next
    case (4 i i' y) then show ?case using threads_okD(4) [OF o(1), of i i' y] by simp
  next
    case (5 t y) then show ?case using threads_okD(5) [OF o(1), of t y] same_refsD(2) [OF same] by simp
  next
    case (7 y n) then show ?case using threads_okD(7) [OF o(1), of y n] by (simp add: subs_sel)
  qed (use threads_okD(1,2,6) [OF o(1)] in \<open>simp_all add: subs_sel\<close>)
  then show ?thesis using same_refs_ok [OF same] o by (simp add: view_ok_def)
qed


section \<open>New sockets\<close>

lemma new_socket_ok:
  assumes "view_ok v" "x \<notin> dom (v_subs v)" "so_slaves k = []" "\<not> so_busy k"
  shows "view_ok (v\<lparr>v_subs := (v_subs v)(x \<mapsto> k), v_readers := (v_readers v)(x \<mapsto> 0)\<rparr>)"
proof -
  note o = view_okD [OF assms(1)]
  let ?subs = "(v_subs v)(x \<mapsto> k)" let ?v = "v\<lparr>v_subs := ?subs, v_readers := (v_readers v)(x \<mapsto> 0)\<rparr>"
  have sel: "gc_refs ?v = gc_refs v" "gc_new ?v = gc_new v" "gc_held ?v = gc_held v" "pending ?v = pending v" "holders ?v = holders v"
    by (simp_all add: gc_refs_def gc_new_def gc_held_def pending_def holders_def fun_eq_iff)
  have dom: "worker_refs (v_subs v) t \<subseteq> dom (v_subs v)" if "t \<in> set (v_workers v)" for t using o(2) that by (simp add: refs_ok_def)
  have no: "th_job t \<noteq> Some (Recv_job x)" if "t \<in> set (v_workers v)" for t
    using dom [OF that] assms(2) by (auto simp: worker_refs_def refs_of_def)
  have refs: "worker_refs ?subs t = worker_refs (v_subs v) t" "covers ?subs y t = covers (v_subs v) y t" if "t \<in> set (v_workers v)" for t y
    using other_job [OF no [OF that]] by auto
  have "th_held t \<noteq> Some x" if "t \<in> set (v_workers v)" for t using threads_okD(5) [OF o(1) that, of x] dom [OF that] assms(2) by blast
  moreover have "gc_held v \<noteq> Some x" using threads_okD(6) [OF o(1), of x] o(2) assms(2) by (auto simp: refs_ok_def)
  ultimately have zero: "holders v x = 0" by (simp add: holders_def filter_empty_conv)
  have "threads_ok ?v"
  proof (rule threads_okI, goal_cases)
    case (3 y q)
    then show ?case using threads_okD(3) [OF o(1), of y q] assms(4) no by (auto split: if_splits)
  next
    case (4 i i' y) then show ?case using threads_okD(4) [OF o(1), of i i' y] by simp
  next
    case (5 t y) then show ?case using threads_okD(5) [OF o(1), of t y] refs(1) by simp
  next
    case (7 y n) then show ?case using threads_okD(7) [OF o(1), of y n] zero by (auto simp: sel split: if_splits)
  qed (use threads_okD(1,2,6) [OF o(1)] in \<open>simp_all add: sel\<close>)
  moreover have "refs_ok ?v"
    using o(2) refs(1) assms(3) by (auto simp: refs_ok_def sel split: if_splits)
  moreover have "fixed_ok ?v" using o(3) refs(1) by (simp add: fixed_ok_def sel)
  moreover have "cover_ok ?v" using o(4) refs(2) by (simp add: cover_ok_def sel)
  ultimately show ?thesis by (simp add: view_ok_def)
qed

text \<open>The list of slaves.\<close>

lemma slaves_sel:
  "gc_refs (v\<lparr>v_slaves := xs\<rparr>) = gc_refs v" "gc_new (v\<lparr>v_slaves := xs\<rparr>) = gc_new v" "gc_held (v\<lparr>v_slaves := xs\<rparr>) = gc_held v"
  "pending (v\<lparr>v_slaves := xs\<rparr>) = pending v" "holders (v\<lparr>v_slaves := xs\<rparr>) = holders v"
  by (simp_all add: gc_refs_def gc_new_def gc_held_def pending_def holders_def fun_eq_iff)

lemma threads_slaves: "threads_ok v \<Longrightarrow> threads_ok (v\<lparr>v_slaves := xs\<rparr>)"
  by (simp add: threads_ok_def slaves_sel)

lemma fewer_slaves_ok:
  assumes "view_ok v" "set xs \<subseteq> set (v_slaves v)" "distinct xs"
  shows "view_ok (v\<lparr>v_slaves := xs\<rparr>)"
proof -
  note o = view_okD [OF assms(1)]
  have "refs_ok (v\<lparr>v_slaves := xs\<rparr>)" using o(2) assms(2,3) by (auto simp: refs_ok_def slaves_sel)
  moreover have "fixed_ok (v\<lparr>v_slaves := xs\<rparr>)" using o(3) assms(2) by (auto simp: fixed_ok_def slaves_sel)
  moreover have "cover_ok (v\<lparr>v_slaves := xs\<rparr>)" using o(4) assms(2) unfolding cover_ok_def by (simp add: slaves_sel) blast
  ultimately show ?thesis using threads_slaves [OF o(1)] by (simp add: view_ok_def)
qed

lemma new_slave_ok:
  assumes "view_ok v" "x \<in> dom (v_subs v)" "x \<notin> gc_refs v \<union> set (v_slaves v) \<union> set (v_new v) \<union> pending v \<union> set (v_copy v)"
  shows "view_ok (v\<lparr>v_slaves := v_slaves v @ [x]\<rparr>)"
proof -
  note o = view_okD [OF assms(1)]
  have "gc_new v \<subseteq> gc_refs v" by (auto simp: gc_new_def gc_refs_def collector_refs_def split: option.split)
  then have x: "x \<notin> set (v_new v) \<union> gc_new v" "\<And>req. req \<in> set (v_requests v) \<Longrightarrow> sr_callback req \<noteq> New_slave x"
    using assms(3) by (auto simp: pending_def)
  have "refs_ok (v\<lparr>v_slaves := v_slaves v @ [x]\<rparr>)" using o(2) assms(2,3) by (auto simp: refs_ok_def slaves_sel)
  moreover have "fixed_ok (v\<lparr>v_slaves := v_slaves v @ [x]\<rparr>)" using o(3) assms(3) by (auto simp: fixed_ok_def slaves_sel)
  moreover have "cover_ok (v\<lparr>v_slaves := v_slaves v @ [x]\<rparr>)" using o(4) x by (auto simp: cover_ok_def slaves_sel)
  ultimately show ?thesis using threads_slaves [OF o(1)] by (simp add: view_ok_def)
qed


section \<open>Requests\<close>

definition idle_of :: "worker_thread list \<Rightarrow> bool list" where
  "idle_of ws = map (\<lambda>t. th_job t = None) ws"

lemma requests_sel:
  "gc_refs (v\<lparr>v_requests := reqs\<rparr>) = gc_refs v" "gc_new (v\<lparr>v_requests := reqs\<rparr>) = gc_new v" "gc_held (v\<lparr>v_requests := reqs\<rparr>) = gc_held v"
  "holders (v\<lparr>v_requests := reqs\<rparr>) = holders v"
  by (simp_all add: gc_refs_def gc_new_def gc_held_def holders_def fun_eq_iff)

lemma pending_append: "pending (v\<lparr>v_requests := xs @ ys\<rparr>) = pending (v\<lparr>v_requests := xs\<rparr>) \<union> pending (v\<lparr>v_requests := ys\<rparr>)"
  by (auto simp: pending_def)

lemma pending_single: "pending (v\<lparr>v_requests := [req]\<rparr>) = (case sr_callback req of New_slave x \<Rightarrow> {x} | Collect_garbage \<Rightarrow> {})"
  by (auto simp: pending_def split: sync_callback.splits)

lemma threads_requests: "threads_ok v \<Longrightarrow> threads_ok (v\<lparr>v_requests := reqs\<rparr>)"
  by (simp add: threads_ok_def requests_sel)

lemma idle_worker: "th_job t = None \<Longrightarrow> worker_refs subs t = {} \<and> covers subs x t"
  by (simp add: worker_refs_def covers_def)

text \<open>Marking the idle workers.\<close>

lemma set_idle_ok:
  assumes "view_ok v"
  shows "view_ok (v\<lparr>v_requests := map (set_idle (idle_of (v_workers v))) (v_requests v)\<rparr>)"
proof -
  note o = view_okD [OF assms]
  let ?f = "set_idle (idle_of (v_workers v))"
  let ?v = "v\<lparr>v_requests := map ?f (v_requests v)\<rparr>"
  have flag: "th_job (v_workers v ! w) = None \<or> sr_flags req ! w"
    if "req \<in> set (v_requests v)" "w < length (v_workers v)" "sr_flags (?f req) ! w" for req w
  proof -
    have "w < length (sr_flags req)" using that(1,2) o(3) threads_okD(1) [OF o(1)] by (auto simp: fixed_ok_def flags_ok_def)
    then show ?thesis using that by (auto simp: idle_of_def)
  qed
  have p: "pending ?v = pending v" by (simp add: pending_def)
  have "refs_ok ?v" using o(2) by (simp add: refs_ok_def requests_sel p)
  moreover have "fixed_ok ?v"
  proof -
    have "worker_refs (v_subs v) (v_workers v ! w) \<inter> set (v_copy v) = {}"
      if "req \<in> set (v_requests v)" "sr_callback req = Collect_garbage" "w < length (v_workers v)" "sr_flags (?f req) ! w" for req w
      using flag [OF that(1,3,4)] that o(3) idle_worker [of "v_workers v ! w" "v_subs v"] unfolding fixed_ok_def by blast
    then show ?thesis using o(3) by (simp add: fixed_ok_def requests_sel p)
  qed
  moreover have "cover_ok ?v"
  proof -
    have "covers (v_subs v) x (v_workers v ! w)"
      if "x \<in> set (v_slaves v)" "req \<in> set (v_requests v)" "sr_callback req = New_slave x" "w < length (v_workers v)" "sr_flags (?f req) ! w" for req w x
      using flag [OF that(2,4,5)] that o(4) idle_worker [of "v_workers v ! w" "v_subs v"] unfolding cover_ok_def by blast
    then show ?thesis using o(4) by (simp add: cover_ok_def requests_sel)
  qed
  ultimately show ?thesis using threads_requests [OF o(1)] by (simp add: view_ok_def)
qed

text \<open>A new request.\<close>

lemma fresh_flag: "length ws \<le> MAX_WORKERS \<Longrightarrow> w < length ws \<Longrightarrow> sr_flags (fresh_request (idle_of ws) cb) ! w \<longleftrightarrow> th_job (ws ! w) = None"
  by (simp add: idle_of_def)

lemma new_slave_request_ok:
  assumes "view_ok v" "x \<in> dom (v_subs v)" "x \<notin> set (v_copy v)"
  shows "view_ok (v\<lparr>v_requests := v_requests v @ [fresh_request (idle_of (v_workers v)) (New_slave x)]\<rparr>)"
proof -
  note o = view_okD [OF assms(1)]
  let ?req = "fresh_request (idle_of (v_workers v)) (New_slave x)"
  let ?v = "v\<lparr>v_requests := v_requests v @ [?req]\<rparr>"
  have p: "pending ?v = insert x (pending v)" by (simp add: pending_append pending_single)
  have "refs_ok ?v" using o(2) assms(2) by (simp add: refs_ok_def requests_sel p)
  moreover have "fixed_ok ?v" using o(3) assms(3) by (auto simp: fixed_ok_def requests_sel p)
  moreover have "covers (v_subs v) y (v_workers v ! w)" if "w < length (v_workers v)" "sr_flags ?req ! w" for y w
    using fresh_flag [OF threads_okD(1) [OF o(1)] that(1), of "New_slave x"] that(2) idle_worker [of "v_workers v ! w" "v_subs v" y] by metis
  then have "cover_ok ?v" using o(4) by (auto simp: cover_ok_def requests_sel)
  ultimately show ?thesis using threads_requests [OF o(1)] by (simp add: view_ok_def)
qed

text \<open>The garbage is fixed and a request to collect it is made.\<close>

lemma fix_ok:
  assumes "view_ok v" "v_requests v = []" "v_gc v = None" "v_new v = []" "set g \<inter> set (v_slaves v) = {}"
  shows "view_ok (v\<lparr>v_copy := g, v_requests := [fresh_request (idle_of (v_workers v)) Collect_garbage]\<rparr>)"
proof -
  note o = view_okD [OF assms(1)]
  let ?req = "fresh_request (idle_of (v_workers v)) Collect_garbage"
  let ?v = "v\<lparr>v_copy := g, v_requests := [?req]\<rparr>"
  have sel: "gc_refs ?v = {}" "gc_new ?v = {}" "gc_held ?v = gc_held v" "pending ?v = {}" "holders ?v = holders v"
    using assms(3) by (simp_all add: gc_refs_def gc_new_def gc_held_def pending_def holders_def fun_eq_iff)
  have "threads_ok ?v" using o(1) assms(3) by (simp add: threads_ok_def sel) (simp add: gc_held_def)
  moreover have "refs_ok ?v" using o(2) assms(4) by (simp add: refs_ok_def sel)
  moreover have "worker_refs (v_subs v) (v_workers v ! w) = {}" if "w < length (v_workers v)" "sr_flags ?req ! w" for w
    using fresh_flag [OF threads_okD(1) [OF o(1)] that(1), of Collect_garbage] that(2) idle_worker [of "v_workers v ! w" "v_subs v"] by metis
  then have "fixed_ok ?v" using assms(4,5) by (simp add: fixed_ok_def sel)
  moreover have "cover_ok ?v" using assms(4) by (simp add: cover_ok_def sel)
  ultimately show ?thesis by (simp add: view_ok_def)
qed

text \<open>The callbacks: every flag of the request is set.\<close>

lemma run_new_slave_ok:
  assumes "view_ok v" "v_requests v = kept @ req # reqs" "sr_callback req = New_slave x" "list_all id (sr_flags req)"
  shows "view_ok (v\<lparr>v_requests := kept @ reqs, v_new := v_new v @ [x]\<rparr>)"
proof -
  note o = view_okD [OF assms(1)]
  let ?v = "v\<lparr>v_requests := kept @ reqs, v_new := v_new v @ [x]\<rparr>"
  have sel: "gc_refs ?v = gc_refs v" "gc_new ?v = gc_new v" "gc_held ?v = gc_held v" "holders ?v = holders v" "pending ?v \<subseteq> pending v"
    using assms(2) by (auto simp: gc_refs_def gc_new_def gc_held_def holders_def pending_def fun_eq_iff)
  have x: "x \<in> pending v" using assms(2,3) by (auto simp: pending_def)
  have flags: "\<forall>w < length (v_workers v). sr_flags req ! w"
    using assms(2,4) o(3) threads_okD(1) [OF o(1)] all_flags [of req] by (auto simp: fixed_ok_def)
  have "threads_ok ?v" using o(1) by (simp add: threads_ok_def sel)
  moreover have "refs_ok ?v" using o(2) sel(5) x by (auto simp: refs_ok_def sel(1-4))
  moreover have "fixed_ok ?v"
  proof -
    have "set (v_copy v) \<inter> (gc_refs v \<union> set (v_slaves v) \<union> insert x (set (v_new v)) \<union> pending ?v) = {}"
      using o(3) sel(5) x unfolding fixed_ok_def by blast
    then show ?thesis using o(3) assms(2,3) by (auto simp: fixed_ok_def sel(1-4))
  qed
  moreover have "cover_ok ?v"
  proof -
    have "covers (v_subs v) x t" if "x \<in> set (v_slaves v)" "t \<in> set (v_workers v)" for t
    proof -
      obtain w where w: "w < length (v_workers v)" "t = v_workers v ! w" using \<open>t \<in> _\<close> by (metis in_set_conv_nth)
      then show ?thesis using that(1) flags o(4) assms(2,3) by (simp add: cover_ok_def)
    qed
    then show ?thesis using o(4) assms(2) by (auto simp: cover_ok_def sel(1-4))
  qed
  ultimately show ?thesis by (simp add: view_ok_def)
qed

lemma run_collect_ok:
  assumes "view_ok v" "v_requests v = kept @ req # reqs" "sr_callback req = Collect_garbage" "list_all id (sr_flags req)"
  shows "view_ok (v\<lparr>v_requests := kept @ reqs, v_copy := [], v_subs := v_subs v |` (- set (v_copy v)), v_readers := v_readers v |` (- set (v_copy v))\<rparr>)"
proof -
  note o = view_okD [OF assms(1)]
  let ?c = "set (v_copy v)"
  let ?subs = "v_subs v |` (- ?c)"
  let ?v = "v\<lparr>v_requests := kept @ reqs, v_copy := [], v_subs := ?subs, v_readers := v_readers v |` (- ?c)\<rparr>"
  have sel: "gc_refs ?v = gc_refs v" "gc_new ?v = gc_new v" "gc_held ?v = gc_held v" "holders ?v = holders v" "pending ?v \<subseteq> pending v"
    using assms(2) by (auto simp: gc_refs_def gc_new_def gc_held_def holders_def pending_def fun_eq_iff)
  have flags: "\<forall>w < length (v_workers v). sr_flags req ! w"
    using assms(2,4) o(3) threads_okD(1) [OF o(1)] all_flags [of req] by (auto simp: fixed_ok_def)
  have free: "worker_refs (v_subs v) t \<inter> ?c = {}" if "t \<in> set (v_workers v)" for t
  proof -
    obtain w where w: "w < length (v_workers v)" "t = v_workers v ! w" using \<open>t \<in> _\<close> by (metis in_set_conv_nth)
    then show ?thesis using flags o(3) assms(2,3) by (simp add: fixed_ok_def)
  qed
  have refs: "worker_refs ?subs t = worker_refs (v_subs v) t" "covers ?subs y t = covers (v_subs v) y t" if "t \<in> set (v_workers v)" for t y
  proof -
    have "th_job t = Some (Recv_job z) \<Longrightarrow> z \<notin> ?c" for z using free [OF that] by (auto simp: worker_refs_def refs_of_def)
    then show "worker_refs ?subs t = worker_refs (v_subs v) t" "covers ?subs y t = covers (v_subs v) y t"
      by (auto simp: worker_refs_def refs_of_def covers_def restrict_map_def split: option.splits job.splits if_splits)
  qed
  have dom: "dom ?subs = dom (v_subs v) - ?c" by auto
  have "threads_ok ?v"
  proof (rule threads_okI, goal_cases)
    case (3 y k) then show ?case using threads_okD(3) [OF o(1), of y k] by (auto simp: restrict_map_def split: if_splits)
  next
    case (4 i i' y) then show ?case using threads_okD(4) [OF o(1), of i i' y] by simp
  next
    case (5 t y) then show ?case using threads_okD(5) [OF o(1), of t y] refs(1) by simp
  next
    case (7 y n)
    then have "v_readers v y = Some n" by (auto simp: restrict_map_def split: if_splits)
    then show ?case using threads_okD(7) [OF o(1), of y n] by (simp only: sel(4))
  qed (use threads_okD(1,2,6) [OF o(1)] in \<open>simp_all add: sel\<close>)
  moreover have "refs_ok ?v"
  proof -
    have "worker_refs ?subs t \<subseteq> dom ?subs" if "t \<in> set (v_workers v)" for t
      using free [OF that] refs(1) [OF that] o(2) that unfolding dom by (auto simp: refs_ok_def)
    moreover have "gc_refs v \<union> set (v_slaves v) \<union> set (v_new v) \<union> pending v \<subseteq> dom ?subs"
      using o(2,3) unfolding dom by (auto simp: refs_ok_def fixed_ok_def)
    moreover have "dom (v_readers v |` (- ?c)) = dom ?subs" using o(2) by (auto simp: refs_ok_def)
    moreover have "?subs y = Some k \<Longrightarrow> v_subs v y = Some k" for y k by (auto simp: restrict_map_def split: if_splits)
    moreover have "so_slaves k = []" if "?subs y = Some k" "so_kind k \<noteq> Memcache_sock" for y k
      using calculation(4) [OF that(1)] that(2) o(2) by (auto simp: refs_ok_def)
    ultimately show ?thesis using o(2) sel(5) by (auto simp: refs_ok_def sel(1-4))
  qed
  moreover have "fixed_ok ?v" using o(3) assms(2) by (auto simp: fixed_ok_def)
  moreover have "cover_ok ?v" using o(4) assms(2) refs(2) by (auto simp: cover_ok_def sel(1-4))
  ultimately show ?thesis by (simp add: view_ok_def)
qed

section \<open>The collector\<close>

lemma start_collector_ok:
  assumes "view_ok v" "v_gc v = None"
  shows "view_ok (v\<lparr>v_gc := Some \<lparr>cl_thread = gc_thread_ctor (v_slaves v) (v_new v), cl_done = False, cl_held = None\<rparr>, v_new := []\<rparr>)"
proof -
  note o = view_okD [OF assms(1)]
  let ?v = "v\<lparr>v_gc := Some \<lparr>cl_thread = gc_thread_ctor (v_slaves v) (v_new v), cl_done = False, cl_held = None\<rparr>, v_new := []\<rparr>"
  have sel: "gc_refs ?v = set (v_slaves v) \<union> set (v_new v)" "gc_new ?v = set (v_new v)" "gc_held ?v = None" "pending ?v = pending v"
    by (auto simp: gc_refs_def gc_new_def gc_held_def pending_def collector_refs_def gc_thread_ctor_def)
  have h: "holders ?v = holders v" "gc_held v = None" using assms(2) by (simp_all add: holders_def gc_held_def fun_eq_iff)
  have "threads_ok ?v" using o(1) by (simp add: threads_ok_def sel h)
  moreover have "refs_ok ?v" using o(2) by (auto simp: refs_ok_def sel)
  moreover have "fixed_ok ?v" using o(3) by (auto simp: fixed_ok_def sel)
  moreover have "cover_ok ?v" using o(4) by (simp add: cover_ok_def sel)
  ultimately show ?thesis by (simp add: view_ok_def)
qed

lemma join_collector_ok:
  assumes "view_ok v" "v_gc v = Some c" "cl_done c"
  shows "view_ok (v\<lparr>v_gc := None\<rparr>)"
proof -
  note o = view_okD [OF assms(1)]
  have none: "gc_refs v = {}" "gc_new v = {}" using assms(2,3) by (simp_all add: gc_refs_def gc_new_def collector_refs_def)
  then have held: "gc_held v = None" using threads_okD(6) [OF o(1)] by (cases "gc_held v") auto
  have sel: "gc_refs (v\<lparr>v_gc := None\<rparr>) = {}" "gc_new (v\<lparr>v_gc := None\<rparr>) = {}" "gc_held (v\<lparr>v_gc := None\<rparr>) = None" "holders (v\<lparr>v_gc := None\<rparr>) = holders v"
    using held by (auto simp: gc_refs_def gc_new_def gc_held_def holders_def fun_eq_iff)
  have "view_ok (v\<lparr>v_gc := None, v_readers := v_readers v\<rparr>)"
    by (rule set_collector_ok [OF assms(1)]) (use o(2) threads_okD(7) [OF o(1)] in \<open>auto simp: sel refs_ok_def\<close>)
  then show ?thesis by simp
qed

end
