(* ===== verification/Server_Threads.thy ===== *)
theory Server_Threads
  imports Server_View
begin

text \<open>
  What the workers and the collector do at any time keeps the invariant of the reactor and that of the view, and
  never uses a socket that was destroyed.
\<close>

section \<open>The invariant of the server\<close>

text \<open>An invariant of the reactor with one of the view.\<close>

definition vinv :: "(view \<Rightarrow> bool) \<Rightarrow> nat set \<Rightarrow> server \<Rightarrow> bool" where
  "vinv Q X s \<longleftrightarrow> reactor_inv X s \<and> Q (view_of s)"

abbreviation sinv :: "nat set \<Rightarrow> server \<Rightarrow> bool" where
  "sinv \<equiv> vinv view_ok"

lemma sinvD: "vinv Q X s \<Longrightarrow> reactor_inv X s" "vinv Q X s \<Longrightarrow> Q (view_of s)"
  by (simp_all add: vinv_def)

lemma view_of_sel [simp]:
  "v_subs (view_of s) x = map_option rs_sub (seen (re_objs s) x)" "v_readers (view_of s) x = map_option rs_readers (seen (re_objs s) x)"
  "v_workers (view_of s) = sv_workers s" "v_index (view_of s) = sv_worker_index s" "v_requests (view_of s) = sv_requests s"
  "v_gc (view_of s) = sv_gc_thread s" "v_slaves (view_of s) = sv_slaves s" "v_new (view_of s) = sv_new_slaves s" "v_copy (view_of s) = re_garbage_copy s"
  "v_is_slave (view_of s) = sv_is_slave s" "v_client (view_of s) = sv_repl_client s"
  "dom (v_subs (view_of s)) = dom (seen (re_objs s))" "dom (v_readers (view_of s)) = dom (seen (re_objs s))"
  by (auto simp: view_of_def)

lemma view_eq:
  assumes "\<And>x. map_option rs_sub (seen (re_objs s') x) = v_subs v x" "\<And>x. map_option rs_readers (seen (re_objs s') x) = v_readers v x"
    "sv_workers s' = v_workers v" "sv_worker_index s' = v_index v" "sv_requests s' = v_requests v" "sv_gc_thread s' = v_gc v"
    "sv_slaves s' = v_slaves v" "sv_new_slaves s' = v_new v" "re_garbage_copy s' = v_copy v" "sv_is_slave s' = v_is_slave v" "sv_repl_client s' = v_client v"
  shows "view_of s' = v"
proof -
  have "map_option rs_sub \<circ> seen (re_objs s') = v_subs v" "map_option rs_readers \<circ> seen (re_objs s') = v_readers v"
    using assms(1,2) by (auto simp: fun_eq_iff)
  then show ?thesis using assms(3-11) by (simp add: view_of_def)
qed

lemma view_same:
  assumes "\<And>x. map_option rs_sub (seen (re_objs s') x) = map_option rs_sub (seen (re_objs s) x)"
    "\<And>x. map_option rs_readers (seen (re_objs s') x) = map_option rs_readers (seen (re_objs s) x)"
    "sv_workers s' = sv_workers s" "sv_worker_index s' = sv_worker_index s" "sv_requests s' = sv_requests s" "sv_gc_thread s' = sv_gc_thread s"
    "sv_slaves s' = sv_slaves s" "sv_new_slaves s' = sv_new_slaves s" "re_garbage_copy s' = re_garbage_copy s" "sv_is_slave s' = sv_is_slave s"
    "sv_repl_client s' = sv_repl_client s"
  shows "view_of s' = view_of s"
  using assms by (intro view_eq) simp_all

lemma more_fields:
  fixes s s' :: server
  assumes "reactor.more s' = reactor.more s"
  shows "sv_workers s' = sv_workers s" "sv_worker_index s' = sv_worker_index s" "sv_requests s' = sv_requests s" "sv_gc_thread s' = sv_gc_thread s"
    "sv_slaves s' = sv_slaves s" "sv_new_slaves s' = sv_new_slaves s" "sv_now s' = sv_now s" "sv_stats s' = sv_stats s" "sv_inputs s' = sv_inputs s"
    "sv_is_slave s' = sv_is_slave s" "sv_counter_stats s' = sv_counter_stats s" "sv_counter s' = sv_counter s" "sv_repl_client s' = sv_repl_client s"
  using assms by (cases s; cases s'; simp)+

lemma view_frame:
  assumes "frame s s'"
  shows "view_of s' = view_of s"
proof -
  have "map_option rs_sub (seen (re_objs s') x) = map_option rs_sub (seen (re_objs s) x) \<and>
    map_option rs_readers (seen (re_objs s') x) = map_option rs_readers (seen (re_objs s) x)" for x
  proof -
    have "rel_option like (re_objs s x) (re_objs s' x)" using assms by (simp add: frame_def)
    then show ?thesis by (cases rule: option.rel_cases) (simp_all add: seen_def like_def)
  qed
  then show ?thesis using frameD [OF assms] more_fields [OF frameD(7) [OF assms]] by (intro view_same) simp_all
qed

lemma refs_of_view:
  assumes "refs_of (v_subs (view_of s)) j \<subseteq> dom (seen (re_objs s))"
  shows "set (job_refs s j) = refs_of (v_subs (view_of s)) j"
proof (cases j)
  case (Recv_job x)
  then obtain r where "seen (re_objs s) x = Some r" using assms by (auto simp: refs_of_def)
  then show ?thesis using Recv_job seenD(1) [of "re_objs s" x r] by (simp add: job_refs_def refs_of_def)
qed (simp_all add: job_refs_def refs_of_def)

lemma worker_refs_seen:
  assumes "view_ok (view_of s)" "t \<in> set (sv_workers s)"
  shows "worker_refs (v_subs (view_of s)) t \<subseteq> dom (seen (re_objs s))"
proof -
  have "\<forall>t \<in> set (sv_workers s). worker_refs (v_subs (view_of s)) t \<subseteq> dom (seen (re_objs s))"
    using view_okD(2) [OF assms(1)] unfolding refs_ok_def by simp
  then show ?thesis using assms(2) by (rule bspec)
qed

lemma job_refs_seen:
  assumes "view_ok (view_of s)" "t \<in> set (sv_workers s)" "th_job t = Some j"
  shows "set (job_refs s j) = worker_refs (v_subs (view_of s)) t" "set (job_refs s j) \<subseteq> dom (seen (re_objs s))"
  using worker_refs_seen [OF assms(1,2)] refs_of_view [of s j] assms(3) by (simp_all add: worker_refs_def)

lemma sock_on_invalidate_same [simp]:
  "same_reactor s (sock_on_invalidate x s)" "view_of (sock_on_invalidate x s) = view_of s"
  "re_objs (sock_on_invalidate x s) = re_objs s" "re_resources (sock_on_invalidate x s) = re_resources s" "re_garbage (sock_on_invalidate x s) = re_garbage s"
  "re_garbage_copy (sock_on_invalidate x s) = re_garbage_copy s" "re_drop_req (sock_on_invalidate x s) = re_drop_req s"
  "sv_slaves (sock_on_invalidate x s) = sv_slaves s" "sv_now (sock_on_invalidate x s) = sv_now s" "sv_inputs (sock_on_invalidate x s) = sv_inputs s"
  by (auto simp: sock_on_invalidate_def same_reactor_def view_of_def split: option.split sock_kind.split)

lemma put_fields [simp]:
  fixes s :: server
  shows "sv_workers (put x r s) = sv_workers s" "sv_worker_index (put x r s) = sv_worker_index s" "sv_requests (put x r s) = sv_requests s"
    "sv_gc_thread (put x r s) = sv_gc_thread s" "sv_slaves (put x r s) = sv_slaves s" "sv_new_slaves (put x r s) = sv_new_slaves s"
    "sv_now (put x r s) = sv_now s" "sv_stats (put x r s) = sv_stats s" "sv_inputs (put x r s) = sv_inputs s"
    "sv_is_slave (put x r s) = sv_is_slave s" "sv_repl_client (put x r s) = sv_repl_client s" "sv_signaled (put x r s) = sv_signaled s"
  by (simp_all add: put_def)

lemma neutral_sock: "neutral sock_on_invalidate"
  by (simp add: neutral_def)

text \<open>What a step of another thread cannot change.\<close>

definition quiet :: "server \<Rightarrow> server \<Rightarrow> bool" where
  "quiet s s' \<longleftrightarrow>
     re_resources s' = re_resources s \<and> re_garbage s' = re_garbage s \<and> sv_slaves s' = sv_slaves s \<and>
     (\<forall>x. map_option rs_fd (re_objs s' x) = map_option rs_fd (re_objs s x)) \<and>
     (\<forall>x. map_option (so_kind \<circ> rs_sub) (re_objs s' x) = map_option (so_kind \<circ> rs_sub) (re_objs s x))"

lemma quiet_refl [simp]: "quiet s s"
  by (simp add: quiet_def)

lemma quiet_trans: "quiet s s' \<Longrightarrow> quiet s' s'' \<Longrightarrow> quiet s s''"
  by (simp add: quiet_def)

lemma view_put:
  "\<not> stale r' \<Longrightarrow>
     view_of (put x r' s) = (view_of s)\<lparr>v_subs := (v_subs (view_of s))(x \<mapsto> rs_sub r'), v_readers := (v_readers (view_of s))(x \<mapsto> rs_readers r')\<rparr>"
  by (rule view_eq) (auto simp: put_def)

text \<open>The end of a use: the socket may become invalid, which the view does not show.\<close>

lemma with_fd_end_step:
  assumes "vinv Q X s" "seen (re_objs s) x = Some r"
  obtains s' where "with_fd_end sock_on_invalidate keep x s = Inr s'" "reactor_inv X s'" "quiet s s'"
    "view_of s' = (view_of s)\<lparr>v_readers := (v_readers (view_of s))(x \<mapsto> rs_readers r - 1)\<rparr>"
proof -
  note r0 = seenD [OF assms(2)]
  obtain s' where s': "with_fd_end sock_on_invalidate keep x s = Inr s'" "reactor_inv X s'"
    using with_fd_end_safe [OF sinvD(1) [OF assms(1)] r0(1,2) neutral_sock] by blast
  define s\<^sub>1 where "s\<^sub>1 = (if keep \<or> \<not> rs_valid r then s else (invalidated sock_on_invalidate x r s)\<lparr>re_drop_req := re_drop_req s @ [rs_fd r]\<rparr>)"
  obtain r' where r': "re_objs s\<^sub>1 x = Some r'" "rs_sub r' = rs_sub r" "rs_readers r' = rs_readers r" "rs_fd r' = rs_fd r" "\<not> stale r'"
    using r0 by (cases "keep \<or> \<not> rs_valid r") (auto simp: s\<^sub>1_def invalidated_def)
  have "s' = put x (r'\<lparr>rs_readers := rs_readers r' - 1\<rparr>) s\<^sub>1"
    using s'(1) do_invalidate_and_close_eq [OF r0(1) neutral_sock] r'(1) by (simp add: with_fd_end_def s\<^sub>1_def split: if_splits)
  moreover have "view_of s\<^sub>1 = view_of s"
  proof -
    have "view_of ((invalidated sock_on_invalidate x r s)\<lparr>re_drop_req := d\<rparr>) = view_of (put x (r\<lparr>rs_valid := False\<rparr>) s)" for d
      using sock_on_invalidate_same(2) [of x "put x (r\<lparr>rs_valid := False\<rparr>) s"] by (simp add: view_of_def invalidated_def)
    moreover have "view_of (put x (r\<lparr>rs_valid := False\<rparr>) s) = view_of s" by (rule view_same) (use assms(2) in \<open>auto simp: put_def\<close>)
    ultimately show ?thesis by (simp add: s\<^sub>1_def)
  qed
  moreover have "quiet s s\<^sub>1" using r0(1) by (auto simp: quiet_def s\<^sub>1_def invalidated_def)
  ultimately have v: "view_of s' = (view_of s)\<lparr>v_readers := (v_readers (view_of s))(x \<mapsto> rs_readers r - 1)\<rparr>" and q: "quiet s s'"
    using view_put [of "r'\<lparr>rs_readers := rs_readers r' - 1\<rparr>" x s\<^sub>1] r' r0(1) assms(2)
    by (auto simp: quiet_def fun_upd_idem)
  then show thesis using that [OF s'] by blast
qed


section \<open>Workers\<close>

lemma set_worker_view: "view_of (set_worker w t s) = with_worker w t (view_of s)"
  by (simp add: view_of_def set_worker_def with_worker_def)

lemma with_worker_upd:
  "with_worker w t (v\<lparr>v_readers := rd\<rparr>) = (with_worker w t v)\<lparr>v_readers := rd\<rparr>"
  "with_worker w t (v\<lparr>v_subs := subs\<rparr>) = (with_worker w t v)\<lparr>v_subs := subs\<rparr>"
  by (cases v; simp add: with_worker_def)+

lemma set_worker_same [simp]: "same_reactor s (set_worker w t s)"
  by (simp add: same_reactor_def set_worker_def)

lemma sinv_set_worker: "reactor_inv X s \<Longrightarrow> view_ok (with_worker w t (view_of s)) \<Longrightarrow> sinv X (set_worker w t s)"
  using reactor_inv_same [OF set_worker_same] by (simp add: vinv_def set_worker_view)

lemma quiet_set_worker [simp]: "quiet s' (set_worker w t s) = quiet s' s"
  by (simp add: quiet_def set_worker_def)

lemma worker_ref_live:
  assumes "view_ok (view_of s)" "t \<in> set (sv_workers s)" "x \<in> worker_refs (v_subs (view_of s)) t"
  obtains r where "seen (re_objs s) x = Some r"
  using worker_refs_seen [OF assms(1,2)] assms(3) by blast

lemma readers_count: "view_ok (view_of s) \<Longrightarrow> seen (re_objs s) x = Some r \<Longrightarrow> rs_readers r = holders (view_of s) x"
  using threads_okD(7) [OF view_okD(1), of "view_of s" x] by simp

lemma worker_begins_safe:
  assumes "sinv X s" "w < length (sv_workers s)" "sv_workers s ! w = t" "th_job t = Some j" "th_held t = None" "x \<in> set (job_refs s j)"
  shows "\<exists>ok s'. with_fd_begin x s = Inr (ok, s') \<and> sinv X (if ok then set_worker w (t\<lparr>th_held := Some x\<rparr>) s' else s') \<and> quiet s s'"
proof -
  note i = sinvD [OF assms(1)]
  have t: "t \<in> set (sv_workers s)" using assms(2,3) by auto
  have x: "x \<in> worker_refs (v_subs (view_of s)) t" using assms(6) job_refs_seen(1) [OF i(2) t assms(4)] by simp
  obtain r where r0: "seen (re_objs s) x = Some r" using worker_ref_live [OF i(2) t x] .
  note r = seenD [OF r0]
  show ?thesis
  proof (cases "rs_valid r")
    case False
    then show ?thesis using r assms(1) by (intro exI [of _ False] exI [of _ s]) (simp add: with_fd_begin_eq)
  next
    case True
    let ?r = "r\<lparr>rs_readers := rs_readers r + 1\<rparr>" and ?t = "t\<lparr>th_held := Some x\<rparr>"
    have b: "with_fd_begin x s = Inr (True, put x ?r s)" using r True by (simp add: with_fd_begin_eq)
    have v: "view_of (put x ?r s) = (view_of s)\<lparr>v_readers := (v_readers (view_of s))(x \<mapsto> rs_readers r + 1)\<rparr>"
      using view_put [of ?r x s] r r0 by (simp add: fun_upd_idem)
    have "view_ok ((with_worker w ((v_workers (view_of s) ! w)\<lparr>th_held := Some x\<rparr>) (view_of s))\<lparr>v_readers := (v_readers (view_of s))(x \<mapsto> rs_readers r + 1)\<rparr>)"
    proof (rule set_held_ok [OF i(2)])
      show "dom ((v_readers (view_of s))(x \<mapsto> rs_readers r + 1)) = dom (v_subs (view_of s))" using r0 by auto
      fix y n assume "((v_readers (view_of s))(x \<mapsto> rs_readers r + 1)) y = Some n"
      then show "n = holders (with_worker w ((v_workers (view_of s) ! w)\<lparr>th_held := Some x\<rparr>) (view_of s)) y"
        using holders_with_worker [of w "view_of s" ?t y] readers_count [OF i(2)] r0 assms(2,3,5) by (auto split: if_splits)
    qed (use assms(2,3) x in simp_all)
    then have "view_ok (with_worker w ?t (view_of (put x ?r s)))" using assms(3) unfolding v with_worker_upd by simp
    then have "sinv X (set_worker w ?t (put x ?r s))" using sinv_set_worker with_fd_begin_inv [OF i(1) r b] by blast
    moreover have "quiet s (put x ?r s)" using r by (auto simp: quiet_def)
    ultimately show ?thesis using b by auto
  qed
qed

lemma worker_ends_safe:
  assumes "sinv X s" "w < length (sv_workers s)" "sv_workers s ! w = t" "th_held t = Some x"
  shows "\<exists>s'. with_fd_end sock_on_invalidate keep x s = Inr s' \<and> sinv X (set_worker w (t\<lparr>th_held := None\<rparr>) s') \<and> quiet s s'"
proof -
  note i = sinvD [OF assms(1)]
  let ?t = "t\<lparr>th_held := None\<rparr>"
  have t: "t \<in> set (sv_workers s)" using assms(2,3) by auto
  have x: "x \<in> worker_refs (v_subs (view_of s)) t" using threads_okD(5) [OF view_okD(1) [OF i(2)]] t assms(4) by simp
  obtain r where r0: "seen (re_objs s) x = Some r" using worker_ref_live [OF i(2) t x] .
  note r = seenD [OF r0]
  obtain s' where s': "with_fd_end sock_on_invalidate keep x s = Inr s'" "reactor_inv X s'" "quiet s s'"
    "view_of s' = (view_of s)\<lparr>v_readers := (v_readers (view_of s))(x \<mapsto> rs_readers r - 1)\<rparr>"
    using with_fd_end_step [OF assms(1) r0] by blast
  have "view_ok ((with_worker w ((v_workers (view_of s) ! w)\<lparr>th_held := None\<rparr>) (view_of s))\<lparr>v_readers := (v_readers (view_of s))(x \<mapsto> rs_readers r - 1)\<rparr>)"
  proof (rule set_held_ok [OF i(2)])
    show "dom ((v_readers (view_of s))(x \<mapsto> rs_readers r - 1)) = dom (v_subs (view_of s))" using r0 by auto
    fix y n assume "((v_readers (view_of s))(x \<mapsto> rs_readers r - 1)) y = Some n"
    then show "n = holders (with_worker w ((v_workers (view_of s) ! w)\<lparr>th_held := None\<rparr>) (view_of s)) y"
      using holders_with_worker [of w "view_of s" ?t y] readers_count [OF i(2)] r0 assms(2,3,4) by (auto split: if_splits)
  qed (use assms(2) in simp_all)
  then have "view_ok (with_worker w ?t (view_of s'))" using assms(3) unfolding s'(4) with_worker_upd by simp
  then show ?thesis using sinv_set_worker [OF s'(2)] s'(1,3) by blast
qed

lemma worker_clears_safe:
  assumes "sinv X s" "w < length (sv_workers s)" "sv_workers s ! w = t" "th_job t = Some (Recv_job x)" "th_held t = None"
  shows "\<exists>s'. set_sub x (\<lambda>k. k\<lparr>so_busy := False\<rparr>) s = Inr s' \<and> sinv X (set_worker w (t\<lparr>th_job := Some Leaving\<rparr>) s') \<and> quiet s s'"
proof -
  note i = sinvD [OF assms(1)]
  have t: "t \<in> set (sv_workers s)" using assms(2,3) by auto
  have "x \<in> worker_refs (v_subs (view_of s)) t" using assms(4) by (simp add: worker_refs_def refs_of_def)
  then obtain r where r0: "seen (re_objs s) x = Some r" using worker_ref_live [OF i(2) t] by blast
  note r = seenD [OF r0]
  let ?r = "r\<lparr>rs_sub := (rs_sub r)\<lparr>so_busy := False\<rparr>\<rparr>"
  have v: "view_of (put x ?r s) = (view_of s)\<lparr>v_subs := (v_subs (view_of s))(x \<mapsto> (rs_sub r)\<lparr>so_busy := False\<rparr>)\<rparr>"
    using view_put [of ?r x s] r r0 by (simp add: fun_upd_idem)
  have "view_ok (with_worker w (t\<lparr>th_job := Some Leaving\<rparr>) (view_of (put x ?r s)))"
    using clear_busy_ok [OF i(2), of w t x "rs_sub r"] assms(2-5) r0 unfolding v with_worker_upd by simp
  moreover have "reactor_inv X (put x ?r s)" by (rule put_inv [OF i(1) r(1)]) (use reactor_inv_in_use(1) [OF i(1) r(1)] in simp_all)
  moreover have "quiet s (put x ?r s)" using r by (auto simp: quiet_def)
  ultimately show ?thesis using sinv_set_worker r by (fastforce simp: set_sub_def)
qed

lemma worker_act_safe:
  assumes "sinv X s"
  shows "\<exists>s'. worker_act w act s = Inr s' \<and> sinv X s' \<and> quiet s s'"
proof (cases "w < length (sv_workers s) \<and> th_job (sv_workers s ! w) \<noteq> None")
  case False
  then show ?thesis using assms by (auto simp: worker_act_def Let_def split: option.split)
next
  case True
  then obtain j where w: "w < length (sv_workers s)" and j: "th_job (sv_workers s ! w) = Some j" by auto
  let ?t = "sv_workers s ! w"
  show ?thesis
  proof (cases act)
    case (Worker_begins w' x)
    show ?thesis
    proof (cases "th_held ?t = None \<and> x \<in> set (job_refs s j)")
      case True
      then obtain ok s' where b: "with_fd_begin x s = Inr (ok, s')" "sinv X (if ok then set_worker w (?t\<lparr>th_held := Some x\<rparr>) s' else s')" "quiet s s'"
        using worker_begins_safe [OF assms w refl j, of x] by blast
      then show ?thesis using True Worker_begins w j by (cases ok) (simp_all add: worker_act_def Let_def)
    qed (use Worker_begins assms w j in \<open>auto simp: worker_act_def Let_def\<close>)
  next
    case (Worker_ends w' keep)
    then show ?thesis using worker_ends_safe [OF assms w refl, of _ keep] assms w j
      by (cases "th_held ?t") (fastforce simp: worker_act_def Let_def)+
  next
    case (Worker_clears_busy w')
    show ?thesis
    proof (cases "\<exists>x. j = Recv_job x \<and> th_held ?t = None")
      case True
      then obtain x where "j = Recv_job x" "th_held ?t = None" by blast
      then show ?thesis using worker_clears_safe [OF assms w refl, of x] w j Worker_clears_busy by (auto simp: worker_act_def Let_def)
    next
      case False
      then show ?thesis using assms w j Worker_clears_busy by (auto simp: worker_act_def Let_def split: job.split)
    qed
  next
    case (Worker_leaves w')
    have "sinv X (set_worker w (?t\<lparr>th_job := None\<rparr>) s)" if "\<And>x. j \<noteq> Recv_job x" "th_held ?t = None"
      using leave_ok [OF sinvD(2) [OF assms], of w ?t] that w j sinv_set_worker [OF sinvD(1) [OF assms]] by simp
    then show ?thesis using assms w j Worker_leaves by (cases j) (auto simp: worker_act_def Let_def)
  qed (use assms w j in \<open>auto simp: worker_act_def Let_def\<close>)
qed


section \<open>The collector\<close>

lemma gc_upd:
  fixes s :: server
  shows "view_of (s\<lparr>sv_gc_thread := g\<rparr>) = (view_of s)\<lparr>v_gc := g\<rparr>" "same_reactor s (s\<lparr>sv_gc_thread := g\<rparr>)" "quiet s' (s\<lparr>sv_gc_thread := g\<rparr>) = quiet s' s"
  by (simp_all add: view_of_def same_reactor_def quiet_def)

lemma gc_readers_upd: "(v\<lparr>v_readers := rd\<rparr>)\<lparr>v_gc := g\<rparr> = v\<lparr>v_gc := g, v_readers := rd\<rparr>"
  by (cases v) simp

lemma collector_ref_live:
  assumes "view_ok (view_of s)" "x \<in> gc_refs (view_of s)"
  obtains r where "seen (re_objs s) x = Some r"
  using view_okD(2) [OF assms(1)] assms(2) by (auto simp: refs_ok_def)

lemma collector_begins_safe:
  assumes "sinv X s" "sv_gc_thread s = Some c" "cl_held c = None" "x \<in> set (collector_refs c)"
  shows "\<exists>ok s'. with_fd_begin x s = Inr (ok, s') \<and> sinv X (if ok then s'\<lparr>sv_gc_thread := Some (c\<lparr>cl_held := Some x\<rparr>)\<rparr> else s') \<and> quiet s s'"
proof -
  note i = sinvD [OF assms(1)]
  have x: "x \<in> gc_refs (view_of s)" using assms(2,4) by (simp add: gc_refs_def)
  obtain r where r0: "seen (re_objs s) x = Some r" using collector_ref_live [OF i(2) x] .
  note r = seenD [OF r0]
  show ?thesis
  proof (cases "rs_valid r")
    case False
    then show ?thesis using r assms(1) by (intro exI [of _ False] exI [of _ s]) (simp add: with_fd_begin_eq)
  next
    case True
    let ?r = "r\<lparr>rs_readers := rs_readers r + 1\<rparr>" and ?c = "c\<lparr>cl_held := Some x\<rparr>" and ?rd = "(v_readers (view_of s))(x \<mapsto> rs_readers r + 1)"
    have b: "with_fd_begin x s = Inr (True, put x ?r s)" using r True by (simp add: with_fd_begin_eq)
    have v: "view_of (put x ?r s) = (view_of s)\<lparr>v_readers := ?rd\<rparr>" using view_put [of ?r x s] r r0 by (simp add: fun_upd_idem)
    have refs: "gc_refs ((view_of s)\<lparr>v_gc := Some ?c\<rparr>) = gc_refs (view_of s)" "gc_new ((view_of s)\<lparr>v_gc := Some ?c\<rparr>) = gc_new (view_of s)"
      using assms(2) by (simp_all add: gc_refs_def gc_new_def collector_refs_def)
    have hold: "holders ((view_of s)\<lparr>v_gc := Some ?c\<rparr>) y = holders (view_of s) y + (if y = x then 1 else 0)" for y
      using assms(2,3) by (simp add: holders_def gc_held_def)
    have "view_ok ((view_of s)\<lparr>v_gc := Some ?c, v_readers := ?rd\<rparr>)"
    proof (rule set_collector_ok [OF i(2)])
      show "dom ?rd = dom (v_subs (view_of s))" using r0 by auto
      show "?rd y = Some n \<Longrightarrow> n = holders ((view_of s)\<lparr>v_gc := Some ?c\<rparr>) y" for y n
        using hold [of y] readers_count [OF i(2)] r0 by (auto split: if_splits)
      show "gc_held ((view_of s)\<lparr>v_gc := Some ?c\<rparr>) = Some y \<Longrightarrow> y \<in> gc_refs ((view_of s)\<lparr>v_gc := Some ?c\<rparr>)" for y
        using x unfolding refs by (simp add: gc_held_def)
    qed (simp_all add: refs)
    then have "sinv X ((put x ?r s)\<lparr>sv_gc_thread := Some ?c\<rparr>)"
      using with_fd_begin_inv [OF i(1) r b] reactor_inv_same [OF gc_upd(2)] unfolding vinv_def gc_upd v gc_readers_upd by blast
    moreover have "quiet s (put x ?r s)" using r by (auto simp: quiet_def)
    ultimately show ?thesis using b by auto
  qed
qed

lemma collector_ends_safe:
  assumes "sinv X s" "sv_gc_thread s = Some c" "cl_held c = Some x"
  shows "\<exists>s'. with_fd_end sock_on_invalidate keep x s = Inr s' \<and> sinv X (s'\<lparr>sv_gc_thread := Some (c\<lparr>cl_held := None\<rparr>)\<rparr>) \<and> quiet s s'"
proof -
  note i = sinvD [OF assms(1)]
  let ?c = "c\<lparr>cl_held := None\<rparr>"
  have held: "gc_held (view_of s) = Some x" using assms(2,3) by (simp add: gc_held_def)
  obtain r where r0: "seen (re_objs s) x = Some r" using collector_ref_live [OF i(2) threads_okD(6) [OF view_okD(1) [OF i(2)] held]] .
  note r = seenD [OF r0]
  let ?rd = "(v_readers (view_of s))(x \<mapsto> rs_readers r - 1)"
  obtain s' where s': "with_fd_end sock_on_invalidate keep x s = Inr s'" "reactor_inv X s'" "quiet s s'" "view_of s' = (view_of s)\<lparr>v_readers := ?rd\<rparr>"
    using with_fd_end_step [OF assms(1) r0] by blast
  have hold: "holders ((view_of s)\<lparr>v_gc := Some ?c\<rparr>) y + (if y = x then 1 else 0) = holders (view_of s) y" for y
    using held by (simp add: holders_def gc_held_def)
  have "view_ok ((view_of s)\<lparr>v_gc := Some ?c, v_readers := ?rd\<rparr>)"
  proof (rule set_collector_ok [OF i(2)])
    show "dom ?rd = dom (v_subs (view_of s))" using r0 by auto
    show "?rd y = Some n \<Longrightarrow> n = holders ((view_of s)\<lparr>v_gc := Some ?c\<rparr>) y" for y n
      using hold [of y] readers_count [OF i(2)] r0 by (auto split: if_splits)
  qed (use assms(2) in \<open>simp_all add: gc_refs_def gc_new_def gc_held_def collector_refs_def\<close>)
  then have "sinv X (s'\<lparr>sv_gc_thread := Some ?c\<rparr>)"
    using s'(2) reactor_inv_same [OF gc_upd(2)] unfolding vinv_def gc_upd s'(4) gc_readers_upd by blast
  then show ?thesis using s'(1,3) by blast
qed

lemma collector_done_safe:
  assumes "sinv X s" "sv_gc_thread s = Some c" "cl_held c = None"
  shows "sinv X (s\<lparr>sv_gc_thread := Some (c\<lparr>cl_done := True\<rparr>)\<rparr>)"
proof -
  note i = sinvD [OF assms(1)]
  let ?g = "Some (c\<lparr>cl_done := True\<rparr>)"
  have hold: "holders ((view_of s)\<lparr>v_gc := ?g\<rparr>) = holders (view_of s)" using assms(2,3) by (simp add: holders_def gc_held_def fun_eq_iff)
  have "view_ok ((view_of s)\<lparr>v_gc := ?g, v_readers := v_readers (view_of s)\<rparr>)"
    by (rule set_collector_ok [OF i(2)])
      (use assms(3) threads_okD(7) [OF view_okD(1) [OF i(2)]] in \<open>auto simp: gc_refs_def gc_new_def gc_held_def collector_refs_def hold\<close>)
  then have "view_ok ((view_of s)\<lparr>v_gc := ?g\<rparr>)" by simp
  then show ?thesis using i(1) reactor_inv_same [OF gc_upd(2)] unfolding vinv_def gc_upd by blast
qed

lemma collector_act_safe:
  assumes "sinv X s"
  shows "\<exists>s'. collector_act act s = Inr s' \<and> sinv X s' \<and> quiet s s'"
proof (cases "sv_gc_thread s")
  case None
  then show ?thesis using assms by (simp add: collector_act_def)
next
  case (Some c)
  show ?thesis
  proof (cases act)
    case (Collector_begins x)
    show ?thesis
    proof (cases "cl_held c = None \<and> x \<in> set (collector_refs c)")
      case True
      then obtain ok s' where "with_fd_begin x s = Inr (ok, s')" "sinv X (if ok then s'\<lparr>sv_gc_thread := Some (c\<lparr>cl_held := Some x\<rparr>)\<rparr> else s')" "quiet s s'"
        using collector_begins_safe [OF assms Some] by blast
      then show ?thesis using True Some Collector_begins by (cases ok) (simp_all add: collector_act_def gc_upd)
    qed (use Collector_begins Some assms in \<open>auto simp: collector_act_def\<close>)
  next
    case (Collector_ends keep)
    show ?thesis
    proof (cases "cl_held c")
      case (Some x)
      then show ?thesis using collector_ends_safe [OF assms \<open>sv_gc_thread s = Some c\<close> Some, of keep] Collector_ends \<open>sv_gc_thread s = Some c\<close>
        by (auto simp: collector_act_def gc_upd)
    qed (use Collector_ends Some assms in \<open>simp add: collector_act_def\<close>)
  next
    case Collector_done
    then show ?thesis using collector_done_safe [OF assms Some] assms Some by (cases "cl_held c") (simp_all add: collector_act_def gc_upd)
  qed (use assms Some in \<open>simp_all add: collector_act_def\<close>)
qed

section \<open>Any steps of the other threads\<close>

lemma stats_upd:
  fixes s :: server
  shows "view_of (s\<lparr>sv_stats := st\<rparr>) = view_of s" "same_reactor s (s\<lparr>sv_stats := st\<rparr>)" "quiet s' (s\<lparr>sv_stats := st\<rparr>) = quiet s' s"
  by (simp_all add: view_of_def same_reactor_def quiet_def)

lemma hash_upd:
  fixes s :: server
  shows "view_of (s\<lparr>sv_hash := m\<rparr>) = view_of s" "same_reactor s (s\<lparr>sv_hash := m\<rparr>)" "quiet s' (s\<lparr>sv_hash := m\<rparr>) = quiet s' s"
  by (simp_all add: view_of_def same_reactor_def quiet_def)

lemma sinv_same: "same_reactor s s' \<Longrightarrow> view_of s' = view_of s \<Longrightarrow> vinv Q X s' = vinv Q X s"
  using reactor_inv_same [of s s' X] by (simp add: vinv_def)

lemma thread_step_safe:
  assumes "sinv X s"
  shows "\<exists>s'. thread_step act s = Inr s' \<and> sinv X s' \<and> quiet s s'"
  using worker_act_safe [OF assms] collector_act_safe [OF assms] sinv_same [OF stats_upd(2,1)] sinv_same [OF hash_upd(2,1)] assms
  by (cases act) (simp_all add: thread_step_def stats_upd hash_upd)

lemma thread_steps_safe:
  assumes "sinv X s"
  shows "\<exists>s'. thread_steps acts s = Inr s' \<and> sinv X s' \<and> quiet s s'"
  using assms
proof (induction acts arbitrary: s)
  case (Cons act acts)
  obtain s\<^sub>1 where s1: "thread_step act s = Inr s\<^sub>1" "sinv X s\<^sub>1" "quiet s s\<^sub>1" using thread_step_safe [OF Cons.prems] by blast
  then show ?case using Cons.IH [OF s1(2)] quiet_trans by fastforce
qed simp

lemma next_input_safe:
  assumes "sinv X s"
  obtains i s' where "next_input s = Inr (i, s')" "sinv X s'" "quiet s s'"
proof -
  let ?s = "s\<lparr>sv_inputs := tl (sv_inputs s)\<rparr>"
  have "sinv X ?s" using sinv_same [of s ?s view_ok X] assms by (simp add: same_reactor_def view_of_def)
  then obtain s' where "thread_steps (in_threads (input_of s)) ?s = Inr s'" "sinv X s'" "quiet ?s s'"
    using thread_steps_safe by blast
  moreover have "quiet s ?s" by (simp add: quiet_def)
  ultimately show thesis using that quiet_trans by (simp add: next_input_def Let_def)
qed

end
