(* ===== verification/Server_Safety.thy ===== *)
theory Server_Safety
  imports Server_Threads
begin

text \<open>
  The hooks of the sockets meet the contract of the reactor, and the work at each interval keeps the invariant: the master loop
  never uses a destroyed socket, whatever the clients, the slaves, the kernel and the other threads do.
\<close>

section \<open>Sockets of the reactor thread\<close>

text \<open>The exceptions that a failing system call causes, and the one for a master that does not keep to the protocol.\<close>

definition env_fault :: "fault \<Rightarrow> bool" where
  "env_fault e \<longleftrightarrow>
     (\<exists>what \<in> {''recv'', ''accept'', ''read'', ''<signal_reader::on_readable> bug?'', ''Invalid replication data'', ''bind'', ''signalfd''}.
        e = Throws (Runtime_error what))"

lemma env_fault_simps [simp]:
  "env_fault (Throws (Runtime_error ''recv''))" "env_fault (Throws (Runtime_error ''accept''))" "env_fault (Throws (Runtime_error ''read''))"
  "env_fault (Throws (Runtime_error ''<signal_reader::on_readable> bug?''))" "env_fault (Throws (Runtime_error ''Invalid replication data''))"
  "env_fault (Throws (Runtime_error ''bind''))" "env_fault (Throws (Runtime_error ''signalfd''))"
  by (simp_all add: env_fault_def)

text \<open>What the contract asks of the result of a hook on the descriptor \<open>fd\<close>.\<close>

definition hook_res :: "(view \<Rightarrow> bool) \<Rightarrow> nat \<Rightarrow> server \<Rightarrow> bool \<times> server \<Rightarrow> bool" where
  "hook_res Q fd s = (\<lambda>(ok, s'). vinv Q (if ok then {} else {fd}) s' \<and> re_resources s \<subseteq>\<^sub>m re_resources s')"

lemma hook_resI: "vinv Q {} s' \<Longrightarrow> re_resources s' = re_resources s \<Longrightarrow> hook_res Q fd s (True, s')"
  by (simp add: hook_res_def)

lemma hook_res_mono: "safe E (hook_res Q fd s') r \<Longrightarrow> re_resources s \<subseteq>\<^sub>m re_resources s' \<Longrightarrow> safe E (hook_res Q fd s) r"
  by (erule safe_mono) (auto simp: hook_res_def intro: map_le_trans)

lemma registered_live:
  assumes "vinv Q X s" "re_resources s fd = Some x"
  obtains r where "seen (re_objs s) x = Some r" "re_objs s x = Some r" "rs_fd r = fd" "x \<notin> set (re_garbage s)" "x \<notin> set (re_garbage_copy s)"
proof -
  obtain r where "re_objs s x = Some r" "rs_fd r = fd" "\<not> rs_closed r" "x \<notin> set (re_garbage s @ re_garbage_copy s)"
    using reactor_inv_registered [OF sinvD(1) [OF assms(1)] assms(2)] by blast
  then show thesis using that by (simp add: seen_Some stale_def)
qed

lemma quiet_registered: "quiet s s' \<Longrightarrow> re_resources s fd = Some x \<Longrightarrow> re_resources s' fd = Some x"
  by (simp add: quiet_def)

lemma invalidate_safe:
  assumes "vinv Q {} s" "re_resources s fd = Some x"
  shows "safe E (hook_res Q fd s) (resource_invalidate sock_on_invalidate x s)"
proof -
  obtain r where r0: "seen (re_objs s) x = Some r" "re_objs s x = Some r" "rs_fd r = fd" using registered_live [OF assms] by blast
  note r = r0(2,3)
  show ?thesis
  proof (cases "rs_valid r")
    case True
    let ?s = "invalidated sock_on_invalidate x r s"
    have "view_of (put x (r\<lparr>rs_valid := False\<rparr>) s) = view_of s" by (rule view_same) (use r0(1) in \<open>auto simp: put_def\<close>)
    then have "view_of ?s = view_of s" by (simp add: invalidated_def)
    moreover have "reactor_inv {fd} ?s" using invalidated_inv [OF sinvD(1) [OF assms(1)] r(1) True seenD(2) [OF r0(1)] neutral_sock] r(2) by simp
    ultimately show ?thesis using True r(1) sinvD(2) [OF assms(1)]
      by (simp add: resource_invalidate_eq hook_res_def vinv_def) (simp add: invalidated_def)
  qed (use r(1) assms(1) in \<open>simp add: resource_invalidate_eq hook_res_def\<close>)
qed

lemma view_removed: "view_of (removed fd x s) = view_of s"
  by (simp add: view_of_def removed_def)

lemma removal_sinv:
  assumes "vinv Q X s" "fd \<in> X" "remove_resource fd s = Inr s'"
  shows "vinv Q (X - {fd}) s'"
proof -
  obtain x r s'' where "remove_resource fd s = Inr s''" "reactor_inv (X - {fd}) s''" "frame (removed fd x s) s''"
    using remove_resource_safe [OF sinvD(1) [OF assms(1)] assms(2)] by blast
  then show ?thesis using assms(3) sinvD(2) [OF assms(1)] view_frame by (fastforce simp: vinv_def view_removed)
qed

section \<open>Dispatching jobs\<close>

lemma index_upd:
  fixes s :: server
  shows "view_of (s\<lparr>sv_worker_index := n\<rparr>) = (view_of s)\<lparr>v_index := n\<rparr>" "same_reactor s (s\<lparr>sv_worker_index := n\<rparr>)"
  by (simp_all add: view_of_def same_reactor_def)

lemma view_index_ok:
  assumes "view_ok v" "n < length (v_workers v)"
  shows "view_ok (v\<lparr>v_index := n\<rparr>)"
proof -
  have "gc_refs (v\<lparr>v_index := n\<rparr>) = gc_refs v" "gc_new (v\<lparr>v_index := n\<rparr>) = gc_new v" "gc_held (v\<lparr>v_index := n\<rparr>) = gc_held v"
    "pending (v\<lparr>v_index := n\<rparr>) = pending v" "holders (v\<lparr>v_index := n\<rparr>) = holders v"
    by (simp_all add: gc_refs_def gc_new_def gc_held_def pending_def holders_def fun_eq_iff)
  then show ?thesis using assms by (simp add: view_ok_def view_defs)
qed

lemma find_idle_safe:
  assumes "sinv X s" "find_idle s = (wo, s')"
  shows "sinv X s'" "re_objs s' = re_objs s" "re_resources s' = re_resources s" "re_garbage s' = re_garbage s" "re_garbage_copy s' = re_garbage_copy s"
    "sv_workers s' = sv_workers s" "sv_slaves s' = sv_slaves s"
    "wo = Some w \<Longrightarrow> w < length (sv_workers s) \<and> th_job (sv_workers s ! w) = None"
proof -
  let ?busy = "map (\<lambda>t. th_job t \<noteq> None) (sv_workers s)"
  have idx: "sv_worker_index s < length ?busy" using threads_okD(2) [OF view_okD(1) [OF sinvD(2) [OF assms(1)]]] by simp
  note f = finder_correct [OF idx]
  have s': "wo = fst (finder ?busy (sv_worker_index s))" "s' = s\<lparr>sv_worker_index := snd (finder ?busy (sv_worker_index s))\<rparr>"
    using assms(2) by (auto simp: find_idle_def Let_def split: prod.splits)
  show "sinv X s'"
    using view_index_ok [OF sinvD(2) [OF assms(1)]] f(3) sinvD(1) [OF assms(1)] reactor_inv_same [OF index_upd(2)]
    unfolding vinv_def s'(2) index_upd(1) by simp
  show "w < length (sv_workers s) \<and> th_job (sv_workers s ! w) = None" if "wo = Some w" using f(2) [of w] that s'(1) by auto
qed (use assms(2) in \<open>auto simp: find_idle_def Let_def split: prod.splits\<close>)

lemma again_safe:
  assumes "vinv Q {} s" "re_resources s fd = Some x"
  shows "safe E (hook_res Q fd s) (again x s)"
proof -
  note a = add_readable_safe [OF sinvD(1) [OF assms(1)] assms(2)]
  have "view_of (s\<lparr>re_readables := re_readables s @ [fd]\<rparr>) = view_of s" by (simp add: view_of_def)
  then show ?thesis using a sinvD(2) [OF assms(1)] by (simp add: again_def hook_res_def vinv_def)
qed

text \<open>Giving the job of receiving to a worker; \<open>f\<close> is what happens to the members of the socket.\<close>

lemma dispatch_safe:
  assumes "sinv {} s" "re_resources s fd = Some x" "seen (re_objs s) x = Some r" "\<not> so_busy (rs_sub r)" "w < length (sv_workers s)" "th_job (sv_workers s ! w) = None"
    "f (rs_sub r) = (rs_sub r)\<lparr>so_busy := True, so_slaves := sl\<rparr>"
    "if so_kind (rs_sub r) = Memcache_sock then sl = sv_slaves s else sl = so_slaves (rs_sub r)"
  shows "safe E (hook_res view_ok fd s) (bind_res (set_sub x f s) (\<lambda>s2. Inr (True, post_job w (Recv_job x) s2)))"
proof -
  note i = sinvD [OF assms(1)]
  let ?r = "r\<lparr>rs_sub := f (rs_sub r)\<rparr>" and ?t = "\<lparr>th_job = Some (Recv_job x), th_held = None\<rparr>"
  have x: "x \<notin> set (re_garbage_copy s)" using registered_live [OF assms(1,2)] by blast
  have v: "view_of (put x ?r s) = (view_of s)\<lparr>v_subs := (v_subs (view_of s))(x \<mapsto> f (rs_sub r))\<rparr>"
    using view_put [of ?r x s] assms(3) seenD(2) [OF assms(3)] by (simp add: fun_upd_idem)
  have "view_ok ((with_worker w ?t (view_of s))\<lparr>v_subs := (v_subs (view_of s))(x \<mapsto> f (rs_sub r))\<rparr>)"
    by (rule recv_job_ok [OF i(2), of w x "rs_sub r" "f (rs_sub r)" sl]) (use assms(3-8) x in simp_all)
  then have "view_ok (with_worker w ?t (view_of (put x ?r s)))" unfolding v with_worker_upd .
  moreover have "reactor_inv {} (put x ?r s)" by (rule put_inv [OF i(1) seenD(1) [OF assms(3)]]) (use reactor_inv_in_use(1) [OF i(1) seenD(1) [OF assms(3)]] in simp_all)
  ultimately have "sinv {} (post_job w (Recv_job x) (put x ?r s))" using sinv_set_worker unfolding post_job_def by blast
  then show ?thesis using seenD(1) [OF assms(3)] by (simp add: set_sub_def hook_res_def post_job_def set_worker_def)
qed

lemma memcache_on_readable_safe:
  assumes "sinv {} s" "re_resources s fd = Some x" "seen (re_objs s) x = Some r" "so_kind (rs_sub r) = Memcache_sock"
  shows "safe E (hook_res view_ok fd s) (memcache_on_readable x s)"
proof (cases "so_busy (rs_sub r)")
  case True
  then show ?thesis using again_safe [OF assms(1,2)] seenD(1) [OF assms(3)] by (simp add: memcache_on_readable_def sub_of_def)
next
  case False
  obtain wo s\<^sub>1 where f: "find_idle s = (wo, s\<^sub>1)" by (metis surj_pair)
  note i = find_idle_safe [OF assms(1) f]
  have "safe E (hook_res view_ok fd s\<^sub>1) (case wo of None \<Rightarrow> again x s\<^sub>1 | Some w \<Rightarrow>
      bind_res (set_sub x (\<lambda>k. k\<lparr>so_slaves := sv_slaves s\<^sub>1, so_busy := True\<rparr>) s\<^sub>1) (\<lambda>s2. Inr (True, post_job w (Recv_job x) s2)))"
    using again_safe [of view_ok s\<^sub>1 fd x E] dispatch_safe [of s\<^sub>1 fd x r _ "\<lambda>k. k\<lparr>so_slaves := sv_slaves s\<^sub>1, so_busy := True\<rparr>" "sv_slaves s\<^sub>1" E] i assms False
    by (cases wo) (auto simp: i(2,3))
  then show ?thesis using False seenD(1) [OF assms(3)] f i(3) by (simp add: memcache_on_readable_def sub_of_def hook_res_def split: option.split)
qed

lemma counter_on_readable_safe:
  assumes "sinv {} s" "re_resources s fd = Some x" "seen (re_objs s) x = Some r" "so_kind (rs_sub r) = Counter_sock"
  shows "safe E (hook_res view_ok fd s) (counter_on_readable x s)"
proof (cases "so_busy (rs_sub r)")
  case True
  then show ?thesis using again_safe [OF assms(1,2)] seenD(1) [OF assms(3)] by (simp add: counter_on_readable_def sub_of_def)
next
  case False
  obtain wo s\<^sub>1 where f: "find_idle s = (wo, s\<^sub>1)" by (metis surj_pair)
  note i = find_idle_safe [OF assms(1) f]
  have "safe E (hook_res view_ok fd s\<^sub>1) (case wo of None \<Rightarrow> again x s\<^sub>1 | Some w \<Rightarrow>
      bind_res (set_sub x (\<lambda>k. k\<lparr>so_busy := True\<rparr>) s\<^sub>1) (\<lambda>s2. Inr (True, post_job w (Recv_job x) s2)))"
    using again_safe [of view_ok s\<^sub>1 fd x E] dispatch_safe [of s\<^sub>1 fd x r _ "\<lambda>k. k\<lparr>so_busy := True\<rparr>" "so_slaves (rs_sub r)" E] i assms False
    by (cases wo) (auto simp: i(2,3))
  then show ?thesis using False seenD(1) [OF assms(3)] f i(3) by (simp add: counter_on_readable_def sub_of_def hook_res_def split: option.split)
qed

lemma sock_on_writable_safe:
  assumes "sinv {} s" "re_resources s fd = Some x"
  shows "safe E (hook_res view_ok fd s) (sock_on_writable sent x s)"
proof -
  obtain wo s\<^sub>1 where f: "find_idle s = (wo, s\<^sub>1)" by (metis surj_pair)
  note i = find_idle_safe [OF assms(1) f]
  show ?thesis
  proof (cases wo)
    case None
    have "safe E (hook_res view_ok fd s\<^sub>1) (resource_invalidate sock_on_invalidate x s\<^sub>1)" using invalidate_safe [OF i(1)] assms(2) i(3) by simp
    then have "safe E (hook_res view_ok fd s) (resource_invalidate sock_on_invalidate x s\<^sub>1)" by (rule hook_res_mono) (simp add: i(3))
    then show ?thesis using None f i(1,3) by (simp add: sock_on_writable_def hook_res_def)
  next
    case (Some w)
    note w = i(8) [OF Some]
    obtain r where r: "seen (re_objs s) x = Some r" "x \<notin> set (re_garbage_copy s)" using registered_live [OF assms] by blast
    have "view_ok (with_worker w \<lparr>th_job = Some (Send_job x), th_held = None\<rparr> (view_of s\<^sub>1))"
      by (rule send_job_ok [OF sinvD(2) [OF i(1)]]) (use w r i in auto)
    then have "sinv {} (post_job w (Send_job x) s\<^sub>1)" using sinv_set_worker [OF sinvD(1) [OF i(1)]] unfolding post_job_def by blast
    then show ?thesis using Some f i(3) by (simp add: sock_on_writable_def hook_res_def post_job_def set_worker_def)
  qed
qed

lemma heartbeat_safe:
  assumes "sinv X s" "seen (re_objs s) x = Some r"
  shows "sinv X (put x (r\<lparr>rs_sub := (rs_sub r)\<lparr>so_last_heartbeat := t\<rparr>\<rparr>) s)"
proof -
  note i = sinvD [OF assms(1)] and r = seenD [OF assms(2)]
  let ?r = "r\<lparr>rs_sub := (rs_sub r)\<lparr>so_last_heartbeat := t\<rparr>\<rparr>"
  have "view_of (put x ?r s) = (view_of s)\<lparr>v_subs := (v_subs (view_of s))(x \<mapsto> (rs_sub r)\<lparr>so_last_heartbeat := t\<rparr>)\<rparr>"
    using view_put [of ?r x s] assms(2) r(2) by (simp add: fun_upd_idem)
  moreover have "reactor_inv X (put x ?r s)" by (rule put_inv [OF i(1) r(1)]) (use reactor_inv_in_use(1) [OF i(1) r(1)] in simp_all)
  ultimately show ?thesis using touch_ok [OF i(2), of x "rs_sub r"] assms(2) by (simp add: vinv_def)
qed

lemma repl_on_readable_safe:
  assumes "sinv {} s" "re_resources s fd = Some x"
  shows "safe env_fault (hook_res view_ok fd s) (repl_on_readable as x s)"
  using assms
proof (induction as arbitrary: s)
  case Nil
  then show ?case by (simp add: hook_resI)
next
  case (Cons a as)
  obtain r where r0: "seen (re_objs s) x = Some r" using registered_live [OF Cons.prems] by blast
  note r = seenD(1) [OF r0]
  have inv: "safe env_fault (hook_res view_ok fd s) (resource_invalidate sock_on_invalidate x s)" using invalidate_safe [OF Cons.prems] .
  show ?case
  proof (cases a)
    case (Recv_data d)
    let ?s = "put x (r\<lparr>rs_sub := (rs_sub r)\<lparr>so_last_heartbeat := sv_now s\<rparr>\<rparr>) s"
    have "safe env_fault (hook_res view_ok fd ?s) (repl_on_readable as x ?s)" using Cons.IH [of ?s] heartbeat_safe [OF Cons.prems(1) r0] Cons.prems(2) by simp
    then have "safe env_fault (hook_res view_ok fd s) (repl_on_readable as x ?s)" by (rule hook_res_mono) simp
    then show ?thesis using Recv_data inv r by (simp add: set_sub_def)
  qed (use Cons inv in \<open>simp_all add: hook_resI\<close>)
qed


section \<open>Accepting\<close>

lemma opened_fields [simp]:
  fixes s :: server
  shows "sv_workers (opened fd s) = sv_workers s" "sv_requests (opened fd s) = sv_requests s" "sv_new_slaves (opened fd s) = sv_new_slaves s"
    "sv_slaves (opened fd s) = sv_slaves s" "sv_now (opened fd s) = sv_now s" "sv_stats (opened fd s) = sv_stats s"
    "sv_counter_stats (opened fd s) = sv_counter_stats s"
  by (simp_all add: opened_def)

lemma refused_same:
  assumes "vinv Q X s" "fd \<notin> re_open s"
  shows "close_fd fd (opened fd s) = s"
proof -
  have "re_epoll s - {fd} = re_epoll s"
    using unopened_unregistered [OF sinvD(1) [OF assms(1)] assms(2)] reactor_invD(5) [OF sinvD(1) [OF assms(1)]] by auto
  then show ?thesis using assms(2) by (simp add: close_fd_def opened_def)
qed

lemma view_added: "view_of (added x fd k s) = (view_of s)\<lparr>v_subs := (v_subs (view_of s))(x \<mapsto> k), v_readers := (v_readers (view_of s))(x \<mapsto> 0)\<rparr>"
  by (rule view_eq) (auto simp: added_def resource_ctor_def stale_def)

lemma sock_of_simps [simp]: "so_slaves (sock_of k now) = []" "\<not> so_busy (sock_of k now)" "so_kind (sock_of k now) = k"
  by (simp_all add: sock_of_def)

text \<open>A socket for a client.\<close>

lemma add_socket_safe:
  assumes "sinv X s" "same_reactor s s\<^sub>0" "view_of s\<^sub>0 = view_of s" "fd \<notin> re_open s" "re_objs s x = None"
  shows "add_resource x (put x (resource_ctor fd (sock_of k now)) (opened fd s\<^sub>0)) = Inr (added x fd (sock_of k now) s\<^sub>0)"
    "sinv X (added x fd (sock_of k now) s\<^sub>0)"
proof -
  have i: "reactor_inv X s\<^sub>0" "fd \<notin> re_open s\<^sub>0" "re_objs s\<^sub>0 x = None"
    using assms reactor_inv_same [OF assms(2)] sinvD(1) [OF assms(1)] by (auto simp: same_reactor_def)
  show "add_resource x (put x (resource_ctor fd (sock_of k now)) (opened fd s\<^sub>0)) = Inr (added x fd (sock_of k now) s\<^sub>0)"
    by (rule add_resource_new [OF i(1,2)])
  show "sinv X (added x fd (sock_of k now) s\<^sub>0)"
    unfolding vinv_def view_added assms(3)
    using added_inv [OF i] new_socket_ok [OF sinvD(2) [OF assms(1)], of x "sock_of k now"] seen_None [of "re_objs s" x] assms(5) by auto
qed

text \<open>A socket for a slave: it is listed, and a request is made or already satisfied.\<close>

definition listed :: "nat \<Rightarrow> server \<Rightarrow> server" where
  "listed x s =
     (let req = fresh_request (is_idle s) (New_slave x); s' = s\<lparr>sv_slaves := sv_slaves s @ [x]\<rparr>
      in if list_all id (sr_flags req) then s'\<lparr>sv_new_slaves := sv_new_slaves s @ [x]\<rparr> else s'\<lparr>sv_requests := sv_requests s @ [req]\<rparr>)"

lemma make_repl_socket_eq:
  "make_repl_socket x fd (opened fd s) =
     (if length (sv_slaves s) = MAX_SLAVES then None
      else Some (Inr (put x (resource_ctor fd (sock_of Repl_sock (sv_now s))) (opened fd (listed x s)))))"
  by (simp add: make_repl_socket_def post_request_def add_request_eq run_callback_def listed_def is_idle_def opened_def put_def Let_def)

lemma is_idle_view: "is_idle s = idle_of (sv_workers s)"
  by (simp add: is_idle_def idle_of_def)

lemma listed_ok:
  assumes "view_ok v" "x \<in> dom (v_subs v)" "x \<notin> gc_refs v \<union> set (v_slaves v) \<union> set (v_new v) \<union> pending v \<union> set (v_copy v)"
  shows "view_ok (v\<lparr>v_slaves := v_slaves v @ [x], v_requests := v_requests v @ [fresh_request (idle_of (v_workers v)) (New_slave x)]\<rparr>)"
    "list_all id (sr_flags (fresh_request (idle_of (v_workers v)) (New_slave x))) \<Longrightarrow>
       view_ok (v\<lparr>v_slaves := v_slaves v @ [x], v_new := v_new v @ [x]\<rparr>)"
proof -
  show 1: "view_ok (v\<lparr>v_slaves := v_slaves v @ [x], v_requests := v_requests v @ [fresh_request (idle_of (v_workers v)) (New_slave x)]\<rparr>)"
    using new_slave_request_ok [OF new_slave_ok [OF assms], of x] assms(2,3) by simp
  show "view_ok (v\<lparr>v_slaves := v_slaves v @ [x], v_new := v_new v @ [x]\<rparr>)"
    if "list_all id (sr_flags (fresh_request (idle_of (v_workers v)) (New_slave x)))"
    using run_new_slave_ok [OF 1, of "v_requests v" "fresh_request (idle_of (v_workers v)) (New_slave x)" "[]" x] that by (cases v) simp
qed

lemma add_slave_safe:
  assumes "sinv X s" "fd \<notin> re_open s" "re_objs s x = None"
  shows "add_resource x (put x (resource_ctor fd (sock_of Repl_sock now)) (opened fd (listed x s))) = Inr (added x fd (sock_of Repl_sock now) (listed x s))"
    "sinv X (added x fd (sock_of Repl_sock now) (listed x s))"
proof -
  have same: "same_reactor s (listed x s)" by (simp add: same_reactor_def listed_def Let_def)
  have i: "reactor_inv X (listed x s)" "fd \<notin> re_open (listed x s)" "re_objs (listed x s) x = None"
    using assms reactor_inv_same [OF same] sinvD(1) [OF assms(1)] same by (auto simp: same_reactor_def)
  show "add_resource x (put x (resource_ctor fd (sock_of Repl_sock now)) (opened fd (listed x s))) = Inr (added x fd (sock_of Repl_sock now) (listed x s))"
    by (rule add_resource_new [OF i(1,2)])
  let ?v = "(view_of s)\<lparr>v_subs := (v_subs (view_of s))(x \<mapsto> sock_of Repl_sock now), v_readers := (v_readers (view_of s))(x \<mapsto> 0)\<rparr>"
  have v: "view_ok ?v" using new_socket_ok [OF sinvD(2) [OF assms(1)], of x "sock_of Repl_sock now"] seen_None [of "re_objs s" x] assms(3) by auto
  have "x \<notin> gc_refs (view_of s) \<union> set (sv_slaves s) \<union> set (sv_new_slaves s) \<union> pending (view_of s) \<union> set (re_garbage_copy s)"
    using view_okD(2) [OF sinvD(2) [OF assms(1)]] seen_None [of "re_objs s" x] assms(3) reactor_invD(4) [OF sinvD(1) [OF assms(1)], of x] by (auto simp: refs_ok_def)
  then have "x \<notin> gc_refs ?v \<union> set (v_slaves ?v) \<union> set (v_new ?v) \<union> pending ?v \<union> set (v_copy ?v)"
    by (simp add: gc_refs_def pending_def)
  note l = listed_ok [OF v _ this]
  have "view_ok (view_of (added x fd (sock_of Repl_sock now) (listed x s)))"
  proof (cases "list_all id (sr_flags (fresh_request (is_idle s) (New_slave x)))")
    case True
    have "view_of (added x fd (sock_of Repl_sock now) (listed x s)) = ?v\<lparr>v_slaves := v_slaves ?v @ [x], v_new := v_new ?v @ [x]\<rparr>"
      by (rule view_eq) (use True in \<open>auto simp: listed_def added_def Let_def resource_ctor_def stale_def\<close>)
    then show ?thesis using l(2) True by (simp add: is_idle_view)
  next
    case False
    have "view_of (added x fd (sock_of Repl_sock now) (listed x s)) =
      ?v\<lparr>v_slaves := v_slaves ?v @ [x], v_requests := v_requests ?v @ [fresh_request (idle_of (v_workers ?v)) (New_slave x)]\<rparr>"
      by (rule view_eq) (use False in \<open>auto simp: listed_def added_def Let_def resource_ctor_def stale_def is_idle_view\<close>)
    then show ?thesis using l(1) by simp
  qed
  then show "sinv X (added x fd (sock_of Repl_sock now) (listed x s))" using added_inv [OF i] by (simp add: vinv_def)
qed

text \<open>One connection, whatever the listening socket.\<close>

lemma opened_upd:
  fixes s :: server
  shows "opened fd (s\<lparr>sv_stats := st\<rparr>) = (opened fd s)\<lparr>sv_stats := st\<rparr>" "opened fd (s\<lparr>sv_counter_stats := ct\<rparr>) = (opened fd s)\<lparr>sv_counter_stats := ct\<rparr>"
  by (cases s; simp add: opened_def)+

lemma accepted_safe:
  assumes "sinv {} s" "fd \<notin> re_open s" "re_objs s x = None" "make_socket cfg k x fd (opened fd s) = Some res"
  shows "\<exists>s'. bind_res res (add_resource x) = Inr s' \<and> sinv {} s' \<and> re_resources s \<subseteq>\<^sub>m re_resources s'"
proof -
  have none: "re_resources s fd = None" using unopened_unregistered [OF sinvD(1) [OF assms(1)] assms(2)] .
  have added: "re_resources s \<subseteq>\<^sub>m re_resources (added x fd sub s\<^sub>0)" if "re_resources s\<^sub>0 = re_resources s" for sub s\<^sub>0
    using that none by (auto simp: added_def map_le_def)
  have client: ?thesis if "same_reactor s s\<^sub>0" "view_of s\<^sub>0 = view_of s" "res = Inr (put x (resource_ctor fd (sock_of kind now)) (opened fd s\<^sub>0))" for s\<^sub>0 kind now
    using that(3) add_socket_safe [OF assms(1) that(1,2) assms(2,3), of kind now] added [of s\<^sub>0] that(1) by (simp add: same_reactor_def)
  show ?thesis
  proof (cases "k = Repl_listener")
    case True
    then have "res = Inr (put x (resource_ctor fd (sock_of Repl_sock (sv_now s))) (opened fd (listed x s)))"
      using assms(4) by (simp add: make_socket_def make_repl_socket_eq split: if_splits)
    moreover have "re_resources (listed x s) = re_resources s" by (simp add: listed_def Let_def)
    ultimately show ?thesis using add_slave_safe [OF assms(1-3)] added [of "listed x s"] by simp
  next
    case False
    show ?thesis
    proof (cases "k = Memcache_listener")
      case True
      then obtain st where "res = Inr (put x (resource_ctor fd (sock_of Memcache_sock (sv_now s))) (opened fd (s\<lparr>sv_stats := st\<rparr>)))"
        using assms(4) by (auto simp: make_socket_def make_memcache_socket_def memcache_socket_new_def opened_upd split: if_splits)
      then show ?thesis using client [of "s\<lparr>sv_stats := st\<rparr>"] by (simp add: stats_upd)
    next
      case False
      then obtain st where "res = Inr (put x (resource_ctor fd (sock_of Counter_sock (sv_now s))) (opened fd (s\<lparr>sv_counter_stats := st\<rparr>)))"
        using assms(4) \<open>k \<noteq> Repl_listener\<close> by (cases k) (auto simp: make_socket_def make_counter_sock_def opened_upd split: option.splits)
      then show ?thesis using client [of "s\<lparr>sv_counter_stats := st\<rparr>"] by (simp add: view_of_def same_reactor_def)
    qed
  qed
qed

lemma accept_loop_safe:
  assumes "sinv {} s" "re_resources s fd = Some y"
  shows "safe env_fault (hook_res view_ok fd s) (accept_loop cfg k as y s)"
  using assms
proof (induction as arbitrary: s)
  case Nil
  then show ?case by (simp add: hook_resI)
next
  case (Cons a as)
  have ag: "safe env_fault (hook_res view_ok fd s) (again y s)" using again_safe [OF Cons.prems] .
  show ?case
  proof (cases a)
    case (Accepted c x)
    show ?thesis
    proof (cases "c \<in> re_open s \<or> re_objs s x \<noteq> None")
      case True
      then show ?thesis using Accepted Cons by simp
    next
      case False
      then have new: "c \<notin> re_open s" "re_objs s x = None" by simp_all
      show ?thesis
      proof (cases "make_socket cfg k x c (opened c s)")
        case None
        then show ?thesis using Accepted False Cons refused_same [OF Cons.prems(1) new(1)] by simp
      next
        case (Some res)
        obtain s' where s': "bind_res res (add_resource x) = Inr s'" "sinv {} s'" "re_resources s \<subseteq>\<^sub>m re_resources s'"
          using accepted_safe [OF Cons.prems(1) new Some] by blast
        then have "re_resources s' fd = Some y" using Cons.prems(2) by (metis domI map_le_def)
        then have "safe env_fault (hook_res view_ok fd s) (accept_loop cfg k as y s')" using Cons.IH [OF s'(2)] hook_res_mono s'(3) by blast
        moreover have "bind_res res (\<lambda>s1. bind_res (add_resource x s1) (accept_loop cfg k as y)) = bind_res (bind_res res (add_resource x)) (accept_loop cfg k as y)"
          by (cases res) simp_all
        ultimately show ?thesis using Accepted False Some s'(1) by simp
      qed
    qed
  qed (use Cons ag in \<open>simp_all add: hook_resI\<close>)
qed


section \<open>The contract of the reactor\<close>

lemma bucket_find_handle_total:
  assumes "\<And>k v s. \<exists>p. f k v s = Inr p"
  shows "pred_option (\<lambda>res. \<exists>p. res = Inr p) (bucket_find_handle key (Some f) b s)"
proof (induction b)
  case (Cons a b)
  obtain k v where a: "a = (k, v)" by (metis surj_pair)
  show ?case using Cons assms [of k v s] by (cases "bucket_find_handle key (Some f) b s") (auto simp: a)
qed simp

lemma bucket_remove_total: "\<exists>p. bucket_remove_nolock key None b s = Inr p"
  by (induction b) auto

lemma repl_apply_total: "\<exists>m' st'. repl_apply hf g r m st = Inr (m', st')"
proof -
  let ?b = "get_bucket hf m (br_key r)"
  have "pred_option (\<lambda>res. \<exists>p. res = Inr p) (bucket_find_handle (br_key r) (Some (slave_set_handler g r)) ?b st)"
    "pred_option (\<lambda>res. \<exists>p. res = Inr p) (bucket_find_handle (br_key r) (Some (slave_touch_handler r)) ?b st)"
    using bucket_find_handle_total [of "slave_set_handler g r"] bucket_find_handle_total [of "slave_touch_handler r"]
    unfolding slave_set_handler_def slave_touch_handler_def by blast+
  moreover have "\<exists>p. bucket_remove_nolock (br_key r) None ?b (st\<lparr>repl_removed := repl_removed st + 1\<rparr>) = Inr p" by (rule bucket_remove_total)
  ultimately show ?thesis
    by (cases "bucket_find_handle (br_key r) (Some (slave_set_handler g r)) ?b st";
        cases "bucket_find_handle (br_key r) (Some (slave_touch_handler r)) ?b st")
      (auto simp: repl_apply_def hash_map_apply_def hash_map_remove_def bucket_apply_nolock_def slave_set_creator_def)
qed

lemma repl_recv_fault: "repl_recv hf g now p m st = Inl e \<Longrightarrow> e = Runtime_error ''Invalid replication data''"
proof (induction hf g now p m st rule: repl_recv.induct)
  case (1 hf g now p m st)
  obtain m' st' where a: "repl_apply hf g (parse_binary now p) m st = Inr (m', st')" using repl_apply_total by blast
  show ?case
  proof (cases "p = [] \<or> \<not> is_binary_request p \<or> br_length (parse_binary now p) = 0")
    case True
    then show ?thesis using "1.prems" unfolding repl_recv.simps [of hf g now p m st] Let_def by (auto split: if_splits)
  next
    case False
    then have "repl_recv hf g now (drop (br_length (parse_binary now p)) p) m' st' = Inl e"
      using "1.prems" a by (cases "repl_recv hf g now (drop (br_length (parse_binary now p)) p) m' st'")
        (auto simp: repl_recv.simps [of hf g now p m st] Let_def split: prod.splits)
    then show ?thesis using "1.IH" [OF _ _ refl refl _ a refl] False by simp
  qed
qed

lemma repl_client_loop_fault:
  "repl_client_loop hf g now as n buf m st = Inl e \<Longrightarrow> env_fault (Throws e)"
proof (induction as arbitrary: n buf m st)
  case (Cons a as)
  show ?case
  proof (cases a)
    case (Recv_data d)
    then show ?thesis using Cons repl_recv_fault [of hf g now "buf @ d" m st e]
      by (cases "repl_recv hf g now (buf @ d) m st") (auto split: if_splits prod.splits)
  qed (use Cons in auto)
qed simp

lemma client_upd:
  fixes s :: server
  shows "view_of (s\<lparr>sv_client_buf := buf, sv_hash := m, sv_stats := st\<rparr>) = view_of s"
    "same_reactor s (s\<lparr>sv_client_buf := buf, sv_hash := m, sv_stats := st\<rparr>)"
  by (simp_all add: view_of_def same_reactor_def)

lemma quit_vinv: "vinv Q X (quit s) = vinv Q X s"
proof -
  have "unique_fds (quit s) = unique_fds s" "invalid_fds (quit s) = invalid_fds s" "obj_inv (quit s) = obj_inv s"
    using unique_fds_cong [of "quit s" s] invalid_fds_cong [of "quit s" s] by (simp_all add: quit_def obj_inv_def fun_eq_iff)
  then have "reactor_inv X (quit s) = reactor_inv X s" by (simp add: reactor_inv_def) (simp add: quit_def)
  moreover have "view_of (quit s) = view_of s" by (simp add: view_of_def quit_def)
  ultimately show ?thesis by (simp add: vinv_def)
qed

lemma quit_resources [simp]: "re_resources (quit s) = re_resources s" "re_objs (quit s) = re_objs s"
  by (simp_all add: quit_def)

lemma client_on_readable_safe:
  assumes "vinv Q {} s" "re_resources s fd = Some x"
  shows "safe env_fault (hook_res Q fd s) (client_on_readable hf cfg as x s)"
proof (cases "repl_client_on_readable hf cfg (sv_now s) as (sv_client_buf s) (sv_hash s) (sv_stats s)")
  case (Inl e)
  then show ?thesis using repl_client_loop_fault by (simp add: client_on_readable_def repl_client_on_readable_def)
next
  case (Inr p)
  obtain res buf m st where p: "p = (res, buf, m, st)" by (metis surj_pair)
  let ?s = "s\<lparr>sv_client_buf := buf, sv_hash := m, sv_stats := st\<rparr>"
  have s: "vinv Q {} ?s" using sinv_same [OF client_upd(2,1)] assms(1) by blast
  have "safe env_fault (hook_res Q fd ?s) (again x ?s)" using again_safe [OF s] assms(2) by simp
  moreover have "safe env_fault (hook_res Q fd (quit ?s)) (resource_invalidate sock_on_invalidate x (quit ?s))"
    using invalidate_safe [of Q "quit ?s" fd x] s assms(2) by (simp add: quit_vinv)
  ultimately show ?thesis using Inr s by (cases res) (simp_all add: client_on_readable_def p hook_res_def)
qed

lemma signal_on_readable_safe:
  assumes "vinv Q {} s" "re_resources s fd = Some x"
  shows "safe env_fault (hook_res Q fd s) (signal_on_readable as x s)"
  using assms
proof (induction as arbitrary: s)
  case (Cons a as)
  have "vinv Q {} (signal_handler sig s) \<and> re_resources (signal_handler sig s) = re_resources s" for sig
    using Cons.prems(1) sinv_same [of s "s\<lparr>sv_signaled := True\<rparr>" Q "{}"]
    by (simp add: signal_handler_def quit_vinv) (simp add: same_reactor_def view_of_def)
  then have "safe env_fault (hook_res Q fd s) (signal_on_readable as x (signal_handler sig s))" for sig
    using hook_res_mono [OF Cons.IH, of "signal_handler sig s" s] Cons.prems(2) by simp
  then show ?case using Cons by (cases a) (simp_all add: hook_resI)
qed (simp add: hook_resI)

lemma server_on_readable_safe:
  assumes "sinv {} s" "re_resources s fd = Some x"
  shows "safe env_fault (hook_res view_ok fd s) (server_on_readable hf cfg x s)"
proof -
  obtain i s\<^sub>1 where s1: "next_input s = Inr (i, s\<^sub>1)" "sinv {} s\<^sub>1" "quiet s s\<^sub>1" using next_input_safe [OF assms(1)] by blast
  have reg: "re_resources s\<^sub>1 fd = Some x" using quiet_registered [OF s1(3) assms(2)] .
  obtain r where r: "seen (re_objs s\<^sub>1) x = Some r" "re_objs s\<^sub>1 x = Some r" using registered_live [OF s1(2) reg] by blast
  have "safe env_fault (hook_res view_ok fd s\<^sub>1) (case so_kind (rs_sub r) of
         Memcache_sock \<Rightarrow> memcache_on_readable x s\<^sub>1
       | Counter_sock \<Rightarrow> counter_on_readable x s\<^sub>1
       | Repl_sock \<Rightarrow> repl_on_readable (in_recv i) x s\<^sub>1
       | Repl_client_sock \<Rightarrow> client_on_readable hf cfg (in_recv i) x s\<^sub>1
       | Signal_fd \<Rightarrow> signal_on_readable (in_signals i) x s\<^sub>1
       | _ \<Rightarrow> accept_loop cfg (so_kind (rs_sub r)) (in_accept i) x s\<^sub>1)"
    using memcache_on_readable_safe [OF s1(2) reg r(1)] counter_on_readable_safe [OF s1(2) reg r(1)] repl_on_readable_safe [OF s1(2) reg]
      accept_loop_safe [OF s1(2) reg] client_on_readable_safe [OF s1(2) reg] signal_on_readable_safe [OF s1(2) reg]
    by (simp split: sock_kind.split)
  then have "safe env_fault (hook_res view_ok fd s\<^sub>1) (bind_res (sub_of x s\<^sub>1) (\<lambda>k. case so_kind k of
         Memcache_sock \<Rightarrow> memcache_on_readable x s\<^sub>1
       | Counter_sock \<Rightarrow> counter_on_readable x s\<^sub>1
       | Repl_sock \<Rightarrow> repl_on_readable (in_recv i) x s\<^sub>1
       | Repl_client_sock \<Rightarrow> client_on_readable hf cfg (in_recv i) x s\<^sub>1
       | Signal_fd \<Rightarrow> signal_on_readable (in_signals i) x s\<^sub>1
       | _ \<Rightarrow> accept_loop cfg (so_kind k) (in_accept i) x s\<^sub>1))"
    using r(2) by (simp add: sub_of_def)
  from hook_res_mono [OF this, of s] show ?thesis using s1(1,3) by (simp add: server_on_readable_def quiet_def)
qed

lemma server_on_writable_safe:
  assumes "sinv {} s" "re_resources s fd = Some x"
  shows "safe env_fault (hook_res view_ok fd s) (server_on_writable x s)"
proof -
  obtain i s\<^sub>1 where s1: "next_input s = Inr (i, s\<^sub>1)" "sinv {} s\<^sub>1" "quiet s s\<^sub>1" using next_input_safe [OF assms(1)] by blast
  have reg: "re_resources s\<^sub>1 fd = Some x" using quiet_registered [OF s1(3) assms(2)] .
  obtain r where r: "re_objs s\<^sub>1 x = Some r" using registered_live [OF s1(2) reg] by blast
  have "safe env_fault (hook_res view_ok fd s) (sock_on_writable (in_sent i) x s\<^sub>1)"
    "safe env_fault (hook_res view_ok fd s) (resource_invalidate sock_on_invalidate x s\<^sub>1)"
    using hook_res_mono [OF sock_on_writable_safe [OF s1(2) reg], of s] hook_res_mono [OF invalidate_safe [OF s1(2) reg], of s] s1(3) by (simp_all add: quiet_def)
  then show ?thesis using s1 r by (simp add: server_on_writable_def sub_of_def hook_res_def quiet_def)
qed

lemma server_on_failure_safe:
  assumes "sinv {} s" "re_resources s fd = Some x"
  shows "safe env_fault (hook_res view_ok fd s) (server_on_failure x s)"
proof -
  obtain i s\<^sub>1 where s1: "next_input s = Inr (i, s\<^sub>1)" "sinv {} s\<^sub>1" "quiet s s\<^sub>1" using next_input_safe [OF assms(1)] by blast
  have reg: "re_resources s\<^sub>1 fd = Some x" using quiet_registered [OF s1(3) assms(2)] .
  obtain r where r: "re_objs s\<^sub>1 x = Some r" using registered_live [OF s1(2) reg] by blast
  let ?s = "if so_kind (rs_sub r) = Repl_client_sock then quit s\<^sub>1 else s\<^sub>1"
  have "vinv view_ok {} ?s" "re_resources ?s = re_resources s\<^sub>1" using s1(2) by (simp_all add: quit_vinv)
  then have "safe env_fault (hook_res view_ok fd ?s) (resource_invalidate sock_on_invalidate x ?s)" using invalidate_safe reg by metis
  from hook_res_mono [OF this, of s] show ?thesis
    using s1(1,3) r \<open>re_resources ?s = re_resources s\<^sub>1\<close> by (simp add: server_on_failure_def sub_of_def quiet_def)
qed

lemma sane_events_ok: "distinct (map ev_fd (sane_events fds evs)) \<and> ev_fd ` set (sane_events fds evs) \<subseteq> fds"
proof (induction evs arbitrary: fds)
  case (Cons ev evs)
  then show ?case using Cons.IH [of "fds - {ev_fd ev}"] Cons.IH [of fds] by auto
qed simp

interpretation srv: reactor_client "server_hooks hf cfg" sinv env_fault for hf cfg
proof
  fix X and s s' :: server and h fd x timeout answer
  show "reactor_inv X s" if "sinv X s" using that by (rule sinvD(1))
  show "safe env_fault (\<lambda>(ok, s'). sinv (if ok then {} else {fd}) s' \<and> re_resources s \<subseteq>\<^sub>m re_resources s') (h x s)"
    if "h \<in> {on_readable (server_hooks hf cfg), on_writable (server_hooks hf cfg), on_hangup (server_hooks hf cfg), on_error (server_hooks hf cfg)}"
      "sinv {} s" "re_resources s fd = Some x"
    using that(1) server_on_readable_safe [OF that(2,3), of hf cfg] server_on_writable_safe [OF that(2,3)] server_on_failure_safe [OF that(2,3)]
    by (auto simp: server_hooks_def hook_res_def)
  show "sinv {} s' \<and> answer \<noteq> Wait_error \<and> (\<forall>evs. answer = Events evs \<longrightarrow> distinct (map ev_fd evs) \<and> ev_fd ` set evs \<subseteq> re_epoll s')"
    if h: "sinv {} s" "epoll_wait (server_hooks hf cfg) timeout s = (answer, s')"
  proof -
    obtain i s\<^sub>1 where s1: "next_input s = Inr (i, s\<^sub>1)" "sinv {} s\<^sub>1" using next_input_safe [OF h(1)] by blast
    then have "answer = sane_answer (re_epoll s\<^sub>1) (in_events i)" "s' = s\<^sub>1" using h(2) by (auto simp: server_hooks_def server_wait_def)
    then show ?thesis using s1(2) sane_events_ok by (cases "in_events i") (simp_all add: sane_answer_def)
  qed
  show "sinv (X - {fd}) s'" if "sinv X s" "fd \<in> X" "remove_resource fd s = Inr s'" using removal_sinv [OF that] .
  show "sinv (set (re_drop_req s)) (s\<lparr>re_drop_req := []\<rparr>)" if "sinv {} s"
    using that drops_taken [of s] by (simp add: vinv_def view_of_def)
  show "sinv {} (s\<lparr>re_readables := []\<rparr>)" if "sinv {} s"
    using that readables_taken [of "{}" s] by (simp add: vinv_def view_of_def)
qed

section \<open>The interval\<close>

lemma frame_restrict_view:
  assumes "frame (s\<lparr>re_objs := re_objs s |` (- set (re_garbage_copy s)), re_garbage_copy := []\<rparr>) s'"
  shows "view_of s' = (view_of s)\<lparr>v_copy := [], v_subs := v_subs (view_of s) |` (- set (re_garbage_copy s)),
    v_readers := v_readers (view_of s) |` (- set (re_garbage_copy s))\<rparr>"
  unfolding view_frame [OF assms] by (rule view_eq) (auto simp: restrict_map_def seen_def)

lemma check_requests_safe:
  assumes "reactor_inv X s" "view_ok ((view_of s)\<lparr>v_requests := kept @ reqs\<rparr>)"
  shows "\<exists>reqs' s'. check_requests run_callback reqs (Inr s) = (reqs', Inr s') \<and> reactor_inv X s' \<and> view_ok ((view_of s')\<lparr>v_requests := kept @ reqs'\<rparr>)"
  using assms
proof (induction reqs arbitrary: s kept)
  case (Cons req reqs)
  let ?v = "(view_of s)\<lparr>v_requests := kept @ req # reqs\<rparr>"
  show ?case
  proof (cases "list_all id (sr_flags req)")
    case False
    then show ?thesis using Cons.IH [of s "kept @ [req]"] Cons.prems by (auto simp: sync_check_def)
  next
    case True
    show ?thesis
    proof (cases "sr_callback req")
      case Collect_garbage
      obtain s\<^sub>1 where s1: "reactor_gc s = Inr s\<^sub>1" "reactor_inv X s\<^sub>1"
        "frame (s\<lparr>re_objs := re_objs s |` (- set (re_garbage_copy s)), re_garbage_copy := []\<rparr>) s\<^sub>1"
        using gc_safe [OF Cons.prems(1)] by blast
      have "view_ok ((view_of s\<^sub>1)\<lparr>v_requests := kept @ reqs\<rparr>)"
        using run_collect_ok [OF Cons.prems(2), of kept req reqs] Collect_garbage True unfolding frame_restrict_view [OF s1(3)]
        by (cases "view_of s") (simp add: view_of_def)
      then show ?thesis using Cons.IH [OF s1(2), of kept] s1(1) True Collect_garbage by (auto simp: sync_check_def run_callback_def)
    next
      case (New_slave x)
      let ?s = "s\<lparr>sv_new_slaves := sv_new_slaves s @ [x]\<rparr>"
      have "view_ok ((view_of ?s)\<lparr>v_requests := kept @ reqs\<rparr>)"
        using run_new_slave_ok [OF Cons.prems(2), of kept req reqs x] New_slave True by (simp add: view_of_def)
      moreover have "reactor_inv X ?s" using reactor_inv_same [of s ?s X] Cons.prems(1) by (simp add: same_reactor_def)
      ultimately show ?thesis using Cons.IH [of ?s kept] True New_slave by (auto simp: sync_check_def run_callback_def)
    qed
  qed
qed auto

lemma check_syncer_safe:
  assumes "sinv X s"
  shows "\<exists>s'. check_syncer s = Inr s' \<and> sinv X s'"
proof -
  note i = sinvD [OF assms]
  let ?reqs = "map (set_idle (is_idle s)) (sv_requests s)"
  have "view_ok ((view_of s)\<lparr>v_requests := [] @ ?reqs\<rparr>)" using set_idle_ok [OF i(2)] by (simp add: is_idle_view)
  then obtain reqs' s' where c: "check_requests run_callback ?reqs (Inr s) = (reqs', Inr s')" "reactor_inv X s'" "view_ok ((view_of s')\<lparr>v_requests := [] @ reqs'\<rparr>)"
    using check_requests_safe [OF i(1), of "[]" ?reqs] by blast
  let ?s = "s'\<lparr>sv_requests := reqs'\<rparr>"
  have "view_of ?s = (view_of s')\<lparr>v_requests := reqs'\<rparr>" by (simp add: view_of_def)
  moreover have "reactor_inv X ?s" using reactor_inv_same [of s' ?s X] c(2) by (simp add: same_reactor_def)
  ultimately have "sinv X ?s" using c(3) by (simp add: vinv_def)
  then show ?thesis using c(1) by (simp add: check_syncer_def syncer_check_def)
qed


text \<open>The loop over the slaves keeps only slaves that are not garbage.\<close>

lemma check_slaves_safe:
  assumes "sinv {} s" "set xs \<subseteq> dom (seen (re_objs s))" "distinct xs"
  shows "\<exists>ys s'. check_slaves cfg xs s = Inr (ys, s') \<and> sinv {} s' \<and> view_of s' = view_of s \<and> set ys \<subseteq> set xs \<and> distinct ys \<and>
    set ys \<inter> set (re_garbage s') = {} \<and> set (re_garbage s') \<subseteq> set (re_garbage s) \<union> set xs"
  using assms
proof (induction xs arbitrary: s)
  case (Cons x xs)
  obtain r where r0: "seen (re_objs s) x = Some r" using Cons.prems(2) by auto
  note r = seenD(1) [OF r0]
  note i = sinvD [OF Cons.prems(1)]
  show ?case
  proof (cases "rs_valid r")
    case False
    then obtain ys s' where "check_slaves cfg xs s = Inr (ys, s')" "sinv {} s'" "view_of s' = view_of s" "set ys \<subseteq> set xs" "distinct ys"
      "set ys \<inter> set (re_garbage s') = {}" "set (re_garbage s') \<subseteq> set (re_garbage s) \<union> set xs"
      using Cons.IH [OF Cons.prems(1)] Cons.prems(2,3) by auto
    then show ?thesis using False r by (auto simp: valid_def)
  next
    case True
    have reg: "re_resources s (rs_fd r) = Some x" using reactor_inv_valid(1) [OF i(1) r True seenD(2) [OF r0]] .
    have x: "x \<notin> set (re_garbage s)" using registered_live [OF Cons.prems(1) reg] by blast
    let ?late = "so_last_heartbeat (rs_sub r) + int (slave_timeout cfg) \<le> sv_now s"
    show ?thesis
    proof (cases ?late)
      case False
      obtain ys s' where "check_slaves cfg xs s = Inr (ys, s')" "sinv {} s'" "view_of s' = view_of s" "set ys \<subseteq> set xs" "distinct ys"
        "set ys \<inter> set (re_garbage s') = {}" "set (re_garbage s') \<subseteq> set (re_garbage s) \<union> set xs"
        using Cons.IH [OF Cons.prems(1)] Cons.prems(2,3) by auto
      then show ?thesis using False True r x Cons.prems(3) by (auto simp: valid_def timed_out_def sub_of_def)
    next
      case late: True
      let ?s = "invalidated sock_on_invalidate x r s"
      have inv: "resource_invalidate sock_on_invalidate x s = Inr (False, ?s)" using r True by (simp add: resource_invalidate_eq)
      have "sinv {rs_fd r} ?s" using invalidate_safe [OF Cons.prems(1) reg, of env_fault] inv by (simp add: hook_res_def)
      moreover have v: "view_of ?s = view_of s"
        unfolding invalidated_def sock_on_invalidate_same(2) by (rule view_same) (use r0 in auto)
      have obj: "re_objs ?s x = Some (r\<lparr>rs_valid := False\<rparr>)" by (simp add: invalidated_def)
      have gar: "re_garbage ?s = re_garbage s" "re_resources ?s = re_resources s" by (simp_all add: invalidated_def)
      obtain z q s\<^sub>2 where s2: "re_resources ?s (rs_fd r) = Some z" "remove_resource (rs_fd r) ?s = Inr s\<^sub>2" "frame (removed (rs_fd r) z ?s) s\<^sub>2"
        using remove_resource_safe [OF sinvD(1) [OF calculation] singletonI] by blast
      then have z: "z = x" using gar(2) reg by simp
      have s2i: "sinv {} s\<^sub>2" using removal_sinv [OF calculation _ s2(2)] by simp
      have s2v: "view_of s\<^sub>2 = view_of s" using view_frame [OF s2(3)] v by (simp add: view_removed)
      have "re_garbage s\<^sub>2 = re_garbage s @ [x]" using frameD(5) [OF s2(3)] gar(1) z by (simp add: removed_def)
      moreover have "dom (seen (re_objs s\<^sub>2)) = dom (seen (re_objs s))" using s2v view_of_sel(12) by metis
      then obtain ys s' where "check_slaves cfg xs s\<^sub>2 = Inr (ys, s')" "sinv {} s'" "view_of s' = view_of s" "set ys \<subseteq> set xs" "distinct ys"
        "set ys \<inter> set (re_garbage s') = {}" "set (re_garbage s') \<subseteq> set (re_garbage s\<^sub>2) \<union> set xs"
        using Cons.IH [OF s2i] Cons.prems(2,3) s2v by auto
      ultimately show ?thesis using True late r inv obj s2(2) by (auto simp: valid_def timed_out_def sub_of_def)
    qed
  qed
qed simp

text \<open>No listed slave is garbage: what the interval achieves before the garbage is fixed.\<close>

definition slaves_clean :: "server \<Rightarrow> bool" where
  "slaves_clean s \<longleftrightarrow> set (sv_slaves s) \<inter> set (re_garbage s) = {}"

lemma slaves_clean_quiet: "quiet s s' \<Longrightarrow> slaves_clean s \<Longrightarrow> slaves_clean s'"
  by (simp add: quiet_def slaves_clean_def)

lemma gc_wanted_eq: "snd (gc_wanted cfg now s) = s\<lparr>sv_consecutive_gcs := sv_consecutive_gcs (snd (gc_wanted cfg now s))\<rparr>"
  by (simp add: gc_wanted_def Let_def)

lemma join_collector_safe:
  assumes "sinv X s" "\<forall>c. sv_gc_thread s = Some c \<longrightarrow> cl_done c"
  shows "sinv X (join_collector now s)"
proof (cases "sv_gc_thread s")
  case (Some c)
  let ?t = "s\<lparr>sv_last_gc := now, sv_gc_thread := None\<rparr>"
  have "view_of ?t = (view_of s)\<lparr>v_gc := None\<rparr>" by (simp add: view_of_def)
  moreover have "reactor_inv X ?t" using sinvD(1) [OF assms(1)] reactor_inv_same [of s ?t X] by (simp add: same_reactor_def)
  ultimately show ?thesis using join_collector_ok [OF sinvD(2) [OF assms(1)], of c] Some assms(2) by (simp add: vinv_def join_collector_def)
qed (use assms(1) in \<open>simp add: join_collector_def\<close>)

lemma gc_ready_safe:
  assumes "sinv X s" "gc_ready cfg now s = (go, s')"
  shows "sinv X s'" "sv_slaves s' = sv_slaves s" "re_garbage s' = re_garbage s" "go \<Longrightarrow> sv_gc_thread s' = None"
proof -
  have "sinv X s' \<and> sv_slaves s' = sv_slaves s \<and> re_garbage s' = re_garbage s \<and> (go \<longrightarrow> sv_gc_thread s' = None)"
  proof (cases "case sv_gc_thread s of None \<Rightarrow> False | Some c \<Rightarrow> \<not> cl_done c")
    case True
    then show ?thesis using assms by (simp add: gc_ready_def)
  next
    case False
    let ?j = "join_collector now s"
    have "gc_wanted cfg now ?j = (go, s')" using assms(2) False by (simp add: gc_ready_def)
    then have "s' = ?j\<lparr>sv_consecutive_gcs := sv_consecutive_gcs s'\<rparr>" using gc_wanted_eq [of cfg now ?j] by simp
    then obtain n where "s' = ?j\<lparr>sv_consecutive_gcs := n\<rparr>" ..
    moreover have "sinv X ?j" using join_collector_safe [OF assms(1)] False by (auto split: option.splits)
    moreover have "sinv X (?j\<lparr>sv_consecutive_gcs := n\<rparr>) = sinv X ?j" by (rule sinv_same) (simp_all add: view_of_def same_reactor_def)
    ultimately show ?thesis by (simp add: join_collector_def)
  qed
  then show "sinv X s'" "sv_slaves s' = sv_slaves s" "re_garbage s' = re_garbage s" "go \<Longrightarrow> sv_gc_thread s' = None" by auto
qed

lemma on_master_interval_safe:
  assumes "sinv {} s"
  shows "\<exists>s'. on_master_interval cfg s = Inr s' \<and> sinv {} s' \<and> slaves_clean s'"
proof -
  note o = view_okD [OF sinvD(2) [OF assms]]
  obtain ys s\<^sub>1 where s1: "check_slaves cfg (sv_slaves s) s = Inr (ys, s\<^sub>1)" "sinv {} s\<^sub>1" "view_of s\<^sub>1 = view_of s" "set ys \<subseteq> set (sv_slaves s)" "distinct ys"
    "set ys \<inter> set (re_garbage s\<^sub>1) = {}"
    using check_slaves_safe [OF assms, of "sv_slaves s" cfg] o(2) by (auto simp: refs_ok_def)
  let ?s2 = "s\<^sub>1\<lparr>sv_slaves := ys\<rparr>"
  have "view_of ?s2 = (view_of s)\<lparr>v_slaves := ys\<rparr>" using s1(3) by (simp add: view_of_def)
  moreover have "same_reactor s\<^sub>1 ?s2" by (simp add: same_reactor_def)
  ultimately have s2: "sinv {} ?s2"
    using fewer_slaves_ok [OF sinvD(2) [OF assms], of ys] s1(4,5) reactor_inv_same [of s\<^sub>1 ?s2 "{}"] sinvD(1) [OF s1(2)] by (simp add: vinv_def)
  obtain go s\<^sub>3 where g: "gc_ready cfg (sv_now ?s2) ?s2 = (go, s\<^sub>3)" by (metis surj_pair)
  note g' = gc_ready_safe [OF s2 g]
  have clean: "slaves_clean s\<^sub>3" using s1(6) g'(2,3) by (simp add: slaves_clean_def)
  show ?thesis
  proof (cases go)
    case False
    then show ?thesis using s1(1) g g'(1) clean by (simp add: on_master_interval_def Let_def)
  next
    case True
    let ?c = "\<lparr>cl_thread = gc_thread_ctor (sv_slaves s\<^sub>3) (sv_new_slaves s\<^sub>3), cl_done = False, cl_held = None\<rparr>"
    let ?s4 = "s\<^sub>3\<lparr>sv_gc_thread := Some ?c, sv_new_slaves := []\<rparr>"
    have "view_of ?s4 = (view_of s\<^sub>3)\<lparr>v_gc := Some ?c, v_new := []\<rparr>" by (simp add: view_of_def)
    moreover have "same_reactor s\<^sub>3 ?s4" by (simp add: same_reactor_def)
    ultimately have "sinv {} ?s4"
      using start_collector_ok [OF sinvD(2) [OF g'(1)]] g'(4) [OF True] reactor_inv_same [of s\<^sub>3 ?s4 "{}"] sinvD(1) [OF g'(1)] by (simp add: vinv_def)
    moreover have "slaves_clean ?s4" using clean by (simp add: slaves_clean_def)
    ultimately show ?thesis using True s1(1) g by (simp add: on_master_interval_def Let_def)
  qed
qed

text \<open>Fixing the garbage, and collecting it at once if every worker is idle.\<close>

lemma collect_safe:
  assumes "sinv {} s" "slaves_clean s"
  shows "\<exists>s'. collect s = Inr s' \<and> sinv {} s'"
proof (cases "server_gc_ready s")
  case False
  then show ?thesis using assms(1) by (simp add: collect_def)
next
  case True
  note i = sinvD [OF assms(1)] and o = view_okD [OF sinvD(2) [OF assms(1)]]
  have idle: "sv_requests s = []" "sv_gc_thread s = None" "sv_new_slaves s = []"
    using True by (auto simp: server_gc_ready_def syncer_empty_def handler_reactor_gc_ready_def split: if_splits)
  then have none: "re_garbage_copy s = []" using o(3) by (auto simp: fixed_ok_def)
  let ?f = "s\<lparr>re_garbage_copy := re_garbage s, re_garbage := []\<rparr>"
  obtain ok s\<^sub>1 where s1: "fix_garbage s = Inr (ok, s\<^sub>1)" "reactor_inv {} s\<^sub>1" "frame ?f s\<^sub>1" using fix_garbage_safe [OF i(1) none] by blast
  have v1: "view_of s\<^sub>1 = (view_of s)\<lparr>v_copy := re_garbage s\<rparr>" using view_frame [OF s1(3)] by (simp add: view_of_def)
  have req: "sv_requests s\<^sub>1 = []" "is_idle s\<^sub>1 = idle_of (sv_workers s)"
    using more_fields(1,3) [OF frameD(7) [OF s1(3)]] idle(1) by (simp_all add: is_idle_view)
  let ?req = "fresh_request (idle_of (sv_workers s)) Collect_garbage"
  have live: "set (re_garbage s) \<subseteq> dom (re_objs s)" using reactor_invD(4) [OF i(1)] by fastforce
  have fixed: "view_ok ((view_of s\<^sub>1)\<lparr>v_requests := [?req]\<rparr>)"
    unfolding v1 using fix_ok [OF i(2), of "re_garbage s"] idle live assms(2) by (simp add: slaves_clean_def Int_commute)
  show ?thesis
  proof (cases "list_all id (sr_flags ?req)")
    case False
    let ?s = "s\<^sub>1\<lparr>sv_requests := [?req]\<rparr>"
    have "view_of ?s = (view_of s\<^sub>1)\<lparr>v_requests := [?req]\<rparr>" by (simp add: view_of_def)
    then have "sinv {} ?s" using fixed s1(2) reactor_inv_same [of s\<^sub>1 ?s "{}"] by (simp add: vinv_def same_reactor_def)
    then show ?thesis using True s1(1) req False by (simp add: collect_def post_request_def add_request_eq)
  next
    case all: True
    obtain s\<^sub>2 where s2: "reactor_gc s\<^sub>1 = Inr s\<^sub>2" "reactor_inv {} s\<^sub>2"
      "frame (s\<^sub>1\<lparr>re_objs := re_objs s\<^sub>1 |` (- set (re_garbage_copy s\<^sub>1)), re_garbage_copy := []\<rparr>) s\<^sub>2"
      using gc_safe [OF s1(2)] by blast
    let ?s = "s\<^sub>2\<lparr>sv_requests := []\<rparr>"
    have "view_ok ((view_of s\<^sub>2)\<lparr>v_requests := []\<rparr>)"
      using run_collect_ok [OF fixed, of "[]" ?req "[]"] all unfolding frame_restrict_view [OF s2(3)] by (cases "view_of s\<^sub>1") (simp add: view_of_def)
    moreover have "view_of ?s = (view_of s\<^sub>2)\<lparr>v_requests := []\<rparr>" by (simp add: view_of_def)
    ultimately have "sinv {} ?s" using s2(2) reactor_inv_same [of s\<^sub>2 ?s "{}"] by (simp add: vinv_def same_reactor_def)
    then show ?thesis using True s1(1) req all s2(1) by (simp add: collect_def post_request_def add_request_eq run_callback_def)
  qed
qed

section \<open>The callback of the main loop\<close>

lemma time_upd:
  fixes s :: server
  shows "vinv Q X (s\<lparr>sv_now := t\<rparr>) = vinv Q X s"
  by (rule sinv_same) (simp_all add: same_reactor_def view_of_def)

lemma counter_interval_safe: "sinv X (counter_interval cfg s) = sinv X s" "slaves_clean (counter_interval cfg s) = slaves_clean s"
  using sinv_same [of s "counter_interval cfg s" view_ok X]
  by (simp_all add: counter_interval_def slaves_clean_def same_reactor_def view_of_def)

lemma master_callback_safe:
  assumes "sinv {} s"
  shows "\<exists>s'. master_callback cfg s = Inr s' \<and> sinv {} s'"
proof -
  obtain i s\<^sub>1 where s1: "next_input s = Inr (i, s\<^sub>1)" "sinv {} s\<^sub>1" using next_input_safe [OF assms] by metis
  let ?s2 = "s\<^sub>1\<lparr>sv_now := in_time i\<rparr>"
  obtain s\<^sub>3 where s3: "(if \<not> syncer_empty (sv_requests ?s2) then check_syncer ?s2 else Inr ?s2) = Inr s\<^sub>3" "sinv {} s\<^sub>3"
    using check_syncer_safe [of "{}" ?s2] s1(2) by (cases "syncer_empty (sv_requests s\<^sub>1)") (auto simp: time_upd)
  obtain j s\<^sub>4 where s4: "next_input s\<^sub>3 = Inr (j, s\<^sub>4)" "sinv {} s\<^sub>4" using next_input_safe [OF s3(2)] by metis
  obtain s\<^sub>5 where s5: "on_master_interval cfg s\<^sub>4 = Inr s\<^sub>5" "sinv {} s\<^sub>5" "slaves_clean s\<^sub>5"
    using on_master_interval_safe [OF s4(2)] by metis
  obtain k s\<^sub>6 where s6: "next_input (counter_interval cfg s\<^sub>5) = Inr (k, s\<^sub>6)" "sinv {} s\<^sub>6" "quiet (counter_interval cfg s\<^sub>5) s\<^sub>6"
    using next_input_safe [of "{}" "counter_interval cfg s\<^sub>5"] s5(2) by (metis counter_interval_safe(1))
  have "slaves_clean s\<^sub>6" using slaves_clean_quiet [OF s6(3)] s5(3) by (simp add: counter_interval_safe)
  then show ?thesis using collect_safe [OF s6(2)] s1(1) s3(1) s4(1) s5(1) s6(1) by (simp add: master_callback_def Let_def)
qed

lemma master_loop_safe:
  assumes "sinv {} s"
  shows "safe env_fault (sinv {}) (master_loop n hf cfg s)"
  unfolding master_loop_def using master_callback_safe by (intro srv.run_rounds_safe assms) (metis safe_simps(2))

end
