(* ===== verification/Server_Slave.thy ===== *)
theory Server_Slave
  imports Server_Safety
begin

text \<open>
  Slave mode: there are no workers and no collector, the clients are refused, and the only connection is that to
  the master.  Polling is safe.  The work at an interval is safe as well, but it destroys the socket of the
  connection if the socket was removed before, and leaves the handler with a pointer to it.
\<close>

section \<open>A server without threads\<close>

definition base_view :: "view \<Rightarrow> bool" where
  "base_view v \<longleftrightarrow>
     v_workers v = [] \<and> v_index v = 0 \<and> v_requests v = [] \<and> v_gc v = None \<and> v_slaves v = [] \<and> v_new v = [] \<and> v_copy v = [] \<and>
     (\<forall>x n. v_readers v x = Some n \<longrightarrow> n = 0) \<and>
     (\<forall>x k. v_subs v x = Some k \<longrightarrow> so_kind k \<notin> {Memcache_sock, Counter_sock, Repl_sock} \<and> \<not> so_busy k \<and> so_slaves k = [])"

definition idle_view :: "view \<Rightarrow> bool" where
  "idle_view v \<longleftrightarrow>
     base_view v \<and> v_is_slave v \<and> (\<forall>x k. v_subs v x = Some k \<longrightarrow> so_kind k \<notin> {Repl_listener, Counter_listener})"

text \<open>The handler's pointer to the socket of the connection is good.\<close>

definition slave_view :: "view \<Rightarrow> bool" where
  "slave_view v \<longleftrightarrow> idle_view v \<and> (\<exists>x. v_client v = Some x \<and> x \<in> dom (v_subs v))"

lemma slave_viewD: "slave_view v \<Longrightarrow> idle_view v" "idle_view v \<Longrightarrow> base_view v"
  by (simp_all add: slave_view_def idle_view_def)

lemma thread_step_alone:
  assumes "vinv Q X s" "base_view (view_of s)"
  shows "\<exists>s'. thread_step act s = Inr s' \<and> vinv Q X s' \<and> view_of s' = view_of s \<and> quiet s s' \<and> sv_inputs s' = sv_inputs s"
proof -
  have "sv_workers s = []" "sv_gc_thread s = None" using assms(2) by (simp_all add: base_view_def)
  then show ?thesis
    using assms(1) sinv_same [OF stats_upd(2,1)] sinv_same [OF hash_upd(2,1)]
    by (cases act) (simp_all add: thread_step_def worker_act_def collector_act_def stats_upd hash_upd)
qed

lemma thread_steps_alone:
  assumes "vinv Q X s" "base_view (view_of s)"
  shows "\<exists>s'. thread_steps acts s = Inr s' \<and> vinv Q X s' \<and> view_of s' = view_of s \<and> quiet s s' \<and> sv_inputs s' = sv_inputs s"
  using assms
proof (induction acts arbitrary: s)
  case (Cons act acts)
  obtain s\<^sub>1 where s1: "thread_step act s = Inr s\<^sub>1" "vinv Q X s\<^sub>1" "view_of s\<^sub>1 = view_of s" "quiet s s\<^sub>1" "sv_inputs s\<^sub>1 = sv_inputs s"
    using thread_step_alone [OF Cons.prems] by blast
  then show ?case using Cons.IH [OF s1(2)] Cons.prems(2) quiet_trans by fastforce
qed simp

lemma next_input_alone:
  assumes "vinv Q X s" "base_view (view_of s)"
  obtains s' where "next_input s = Inr (input_of s, s')" "vinv Q X s'" "view_of s' = view_of s" "quiet s s'" "sv_inputs s' = tl (sv_inputs s)"
proof -
  let ?s = "s\<lparr>sv_inputs := tl (sv_inputs s)\<rparr>"
  have v: "view_of ?s = view_of s" by (simp add: view_of_def)
  have "vinv Q X ?s" using sinv_same [of s ?s Q X] assms(1) v by (simp add: same_reactor_def)
  then obtain s' where "thread_steps (in_threads (input_of s)) ?s = Inr s'" "vinv Q X s'" "view_of s' = view_of ?s" "quiet ?s s'" "sv_inputs s' = sv_inputs ?s"
    using thread_steps_alone [of Q X ?s] assms(2) v by auto
  moreover have "quiet s ?s" by (simp add: quiet_def)
  ultimately show thesis using that v quiet_trans by (simp add: next_input_def Let_def)
qed

section \<open>Polling\<close>

lemma accept_loop_refuses:
  assumes "vinv Q {} s" "idle_view (view_of s)" "re_resources s fd = Some y"
  shows "safe env_fault (hook_res Q fd s) (accept_loop cfg Memcache_listener as y s)"
proof (induction as)
  case (Cons a as)
  have ag: "safe env_fault (hook_res Q fd s) (again y s)" using again_safe [OF assms(1,3)] .
  show ?case
  proof (cases a)
    case (Accepted c x)
    have "make_socket cfg Memcache_listener x c (opened c s) = None"
      using assms(2) by (simp add: make_socket_def make_memcache_socket_def opened_def idle_view_def)
    then show ?thesis using Accepted Cons refused_same [OF assms(1)] by simp
  qed (use Cons ag assms(1) in \<open>simp_all add: hook_resI\<close>)
qed (use assms(1) in \<open>simp add: hook_resI\<close>)

lemma slave_hook_safe:
  assumes "vinv Q {} s" "idle_view (view_of s)" "re_resources s fd = Some x"
    "h \<in> {on_readable (server_hooks hf cfg), on_writable (server_hooks hf cfg), on_hangup (server_hooks hf cfg), on_error (server_hooks hf cfg)}"
  shows "safe env_fault (hook_res Q fd s) (h x s)"
proof -
  obtain s\<^sub>1 where s1: "next_input s = Inr (input_of s, s\<^sub>1)" "vinv Q {} s\<^sub>1" "view_of s\<^sub>1 = view_of s" "quiet s s\<^sub>1"
    using next_input_alone [OF assms(1) slave_viewD(2) [OF assms(2)]] .
  have reg: "re_resources s\<^sub>1 fd = Some x" using quiet_registered [OF s1(4) assms(3)] .
  obtain r where r: "seen (re_objs s\<^sub>1) x = Some r" "re_objs s\<^sub>1 x = Some r" using registered_live [OF s1(2) reg] by blast
  have "v_subs (view_of s\<^sub>1) x = Some (rs_sub r)" using r(1) by simp
  then have kind: "so_kind (rs_sub r) \<in> {Signal_fd, Memcache_listener, Repl_client_sock}"
    using assms(2) unfolding s1(3) idle_view_def base_view_def by (cases "so_kind (rs_sub r)") auto
  have idle: "idle_view (view_of s\<^sub>1)" using assms(2) s1(3) by simp
  have inv: "safe env_fault (hook_res Q fd s\<^sub>1) (resource_invalidate sock_on_invalidate x s\<^sub>1)" using invalidate_safe [OF s1(2) reg] .
  have "safe env_fault (hook_res Q fd s\<^sub>1) (bind_res (sub_of x s\<^sub>1) (\<lambda>k. case so_kind k of
         Memcache_sock \<Rightarrow> memcache_on_readable x s\<^sub>1
       | Counter_sock \<Rightarrow> counter_on_readable x s\<^sub>1
       | Repl_sock \<Rightarrow> repl_on_readable (in_recv (input_of s)) x s\<^sub>1
       | Repl_client_sock \<Rightarrow> client_on_readable hf cfg (in_recv (input_of s)) x s\<^sub>1
       | Signal_fd \<Rightarrow> signal_on_readable (in_signals (input_of s)) x s\<^sub>1
       | _ \<Rightarrow> accept_loop cfg (so_kind k) (in_accept (input_of s)) x s\<^sub>1))"
    using kind r(2) client_on_readable_safe [OF s1(2) reg] signal_on_readable_safe [OF s1(2) reg] accept_loop_refuses [OF s1(2) idle reg]
    by (auto simp: sub_of_def)
  from hook_res_mono [OF this, of s] have 1: "safe env_fault (hook_res Q fd s) (server_on_readable hf cfg x s)"
    using s1(1,4) by (simp add: server_on_readable_def quiet_def)
  have "safe env_fault (hook_res Q fd s\<^sub>1) (bind_res (sub_of x s\<^sub>1) (\<lambda>k.
       if so_kind k \<in> {Memcache_sock, Counter_sock, Repl_sock} then sock_on_writable (in_sent (input_of s)) x s\<^sub>1
       else if so_kind k = Repl_client_sock \<and> \<not> in_sent (input_of s) then resource_invalidate sock_on_invalidate x s\<^sub>1
       else Inr (True, s\<^sub>1)))"
    using kind r(2) inv s1(2) by (auto simp: sub_of_def hook_resI)
  from hook_res_mono [OF this, of s] have 2: "safe env_fault (hook_res Q fd s) (server_on_writable x s)"
    using s1(1,4) by (simp add: server_on_writable_def quiet_def)
  have "safe env_fault (hook_res Q fd (quit s\<^sub>1)) (resource_invalidate sock_on_invalidate x (quit s\<^sub>1))"
    using invalidate_safe [of Q "quit s\<^sub>1" fd x] s1(2) reg by (simp add: quit_vinv)
  then have "safe env_fault (hook_res Q fd s\<^sub>1) (bind_res (sub_of x s\<^sub>1) (\<lambda>k.
       resource_invalidate sock_on_invalidate x (if so_kind k = Repl_client_sock then quit s\<^sub>1 else s\<^sub>1)))"
    using r(2) inv by (simp add: sub_of_def hook_res_def)
  from hook_res_mono [OF this, of s] have 3: "safe env_fault (hook_res Q fd s) (server_on_failure x s)"
    using s1(1,4) by (simp add: server_on_failure_def quiet_def)
  show ?thesis using assms(4) 1 2 3 by (auto simp: server_hooks_def)
qed

text \<open>The contract of the reactor holds for every invariant that implies that there are no threads.\<close>

lemma slave_contract:
  assumes "\<And>v. Q v \<Longrightarrow> idle_view v"
  shows "reactor_client (server_hooks hf cfg) (vinv Q) env_fault"
proof
  fix X and s s' :: server and h fd x timeout answer
  show "reactor_inv X s" if "vinv Q X s" using that by (rule sinvD(1))
  show "safe env_fault (\<lambda>(ok, s'). vinv Q (if ok then {} else {fd}) s' \<and> re_resources s \<subseteq>\<^sub>m re_resources s') (h x s)"
    if "h \<in> {on_readable (server_hooks hf cfg), on_writable (server_hooks hf cfg), on_hangup (server_hooks hf cfg), on_error (server_hooks hf cfg)}"
      "vinv Q {} s" "re_resources s fd = Some x"
    using slave_hook_safe [OF that(2) assms [OF sinvD(2) [OF that(2)]] that(3,1)] by (simp add: hook_res_def)
  show "vinv Q {} s' \<and> answer \<noteq> Wait_error \<and> (\<forall>evs. answer = Events evs \<longrightarrow> distinct (map ev_fd evs) \<and> ev_fd ` set evs \<subseteq> re_epoll s')"
    if h: "vinv Q {} s" "epoll_wait (server_hooks hf cfg) timeout s = (answer, s')"
  proof -
    obtain s\<^sub>1 where s1: "next_input s = Inr (input_of s, s\<^sub>1)" "vinv Q {} s\<^sub>1"
      using next_input_alone [OF h(1) slave_viewD(2) [OF assms [OF sinvD(2) [OF h(1)]]]] by blast
    then have "answer = sane_answer (re_epoll s\<^sub>1) (in_events (input_of s))" "s' = s\<^sub>1" using h(2) by (auto simp: server_hooks_def server_wait_def)
    then show ?thesis using s1(2) sane_events_ok by (cases "in_events (input_of s)") (simp_all add: sane_answer_def)
  qed
  show "vinv Q (X - {fd}) s'" if "vinv Q X s" "fd \<in> X" "remove_resource fd s = Inr s'" using removal_sinv [OF that] .
  show "vinv Q (set (re_drop_req s)) (s\<lparr>re_drop_req := []\<rparr>)" if "vinv Q {} s"
    using that drops_taken [of s] by (simp add: vinv_def view_of_def)
  show "vinv Q {} (s\<lparr>re_readables := []\<rparr>)" if "vinv Q {} s"
    using that readables_taken [of "{}" s] by (simp add: vinv_def view_of_def)
qed

interpretation idl: reactor_client "server_hooks hf cfg" "vinv idle_view" env_fault for hf cfg
  by (rule slave_contract)

interpretation slv: reactor_client "server_hooks hf cfg" "vinv slave_view" env_fault for hf cfg
  by (rule slave_contract) (rule slave_viewD(1))

section \<open>The interval\<close>

definition client_lost :: "server \<Rightarrow> bool" where
  "client_lost s \<longleftrightarrow> (case sv_repl_client s of None \<Rightarrow> False | Some x \<Rightarrow> x \<in> set (re_garbage s))"

definition client_dangles :: "server \<Rightarrow> bool" where
  "client_dangles s \<longleftrightarrow> (case sv_repl_client s of None \<Rightarrow> False | Some x \<Rightarrow> re_objs s x = None)"

lemma on_slave_interval_safe:
  assumes "vinv slave_view {} s"
  obtains s' where "on_slave_interval sent s = Inr s'" "vinv slave_view {} s'" "view_of s' = view_of s" "re_garbage s' = re_garbage s"
proof -
  obtain x r where x: "sv_repl_client s = Some x" and r0: "seen (re_objs s) x = Some r"
    using sinvD(2) [OF assms] by (auto simp: slave_view_def)
  note r = seenD [OF r0]
  have n: "rs_readers r = 0" using sinvD(2) [OF assms] r0 by (auto simp: slave_view_def idle_view_def base_view_def)
  show thesis
  proof (cases "rs_valid r")
    case False
    then show thesis using that assms x r by (simp add: on_slave_interval_def repl_client_def with_fd_begin_eq)
  next
    case True
    let ?r = "r\<lparr>rs_readers := rs_readers r + 1\<rparr>"
    have b: "with_fd_begin x s = Inr (True, put x ?r s)" using r True by (simp add: with_fd_begin_eq)
    have v: "view_of (put x ?r s) = (view_of s)\<lparr>v_readers := (v_readers (view_of s))(x \<mapsto> 1)\<rparr>"
      using view_put [of ?r x s] r r0 n by (simp add: fun_upd_idem)
    have "vinv (\<lambda>v. True) {} (put x ?r s)" using with_fd_begin_inv [OF sinvD(1) [OF assms] r b] by (simp add: vinv_def)
    moreover have "seen (re_objs (put x ?r s)) x = Some ?r" using r(2) by simp
    ultimately obtain s' where s': "with_fd_end sock_on_invalidate sent x (put x ?r s) = Inr s'" "reactor_inv {} s'" "quiet (put x ?r s) s'"
      "view_of s' = (view_of (put x ?r s))\<lparr>v_readers := (v_readers (view_of (put x ?r s)))(x \<mapsto> rs_readers ?r - 1)\<rparr>"
      using with_fd_end_step by blast
    have "view_of s' = view_of s" unfolding s'(4) v using n r0 by (simp add: fun_upd_idem)
    moreover from this have "vinv slave_view {} s'" using s'(2) sinvD(2) [OF assms] by (simp add: vinv_def)
    moreover have "re_garbage s' = re_garbage s" using s'(3) by (simp add: quiet_def)
    ultimately show thesis using that x b s'(1) by (simp add: on_slave_interval_def repl_client_def)
  qed
qed

text \<open>Fixing and collecting the garbage at once.\<close>

lemma collect_all_safe:
  assumes "reactor_inv {} s" "re_garbage_copy s = []"
  obtains s' where "bind_res (fix_garbage s) (\<lambda>(ok, s3). reactor_gc s3) = Inr s'" "reactor_inv {} s'"
    "view_of s' = (view_of s)\<lparr>v_subs := v_subs (view_of s) |` (- set (re_garbage s)), v_readers := v_readers (view_of s) |` (- set (re_garbage s))\<rparr>"
    "\<And>x. re_objs s' x = None \<longleftrightarrow> re_objs s x = None \<or> x \<in> set (re_garbage s)" "re_running s' = re_running s"
proof -
  let ?f = "s\<lparr>re_garbage_copy := re_garbage s, re_garbage := []\<rparr>"
  obtain ok s\<^sub>1 where s1: "fix_garbage s = Inr (ok, s\<^sub>1)" "reactor_inv {} s\<^sub>1" "frame ?f s\<^sub>1" using fix_garbage_safe [OF assms] by blast
  obtain s\<^sub>2 where s2: "reactor_gc s\<^sub>1 = Inr s\<^sub>2" "reactor_inv {} s\<^sub>2"
    "frame (s\<^sub>1\<lparr>re_objs := re_objs s\<^sub>1 |` (- set (re_garbage_copy s\<^sub>1)), re_garbage_copy := []\<rparr>) s\<^sub>2"
    using gc_safe [OF s1(2)] by blast
  have c: "re_garbage_copy s\<^sub>1 = re_garbage s" using frameD(6) [OF s1(3)] by simp
  have v1: "view_of s\<^sub>1 = (view_of s)\<lparr>v_copy := re_garbage s\<rparr>" using view_frame [OF s1(3)] by (simp add: view_of_def)
  have "v_copy (view_of s) = []" using assms(2) by simp
  then have "view_of s\<^sub>2 = (view_of s)\<lparr>v_subs := v_subs (view_of s) |` (- set (re_garbage s)), v_readers := v_readers (view_of s) |` (- set (re_garbage s))\<rparr>"
    unfolding frame_restrict_view [OF s2(3)] c v1 by (cases "view_of s") simp
  moreover have "re_objs s\<^sub>2 x = None \<longleftrightarrow> re_objs s x = None \<or> x \<in> set (re_garbage s)" for x
    using frame_obj(1) [OF s1(3), of x] frame_obj(1) [OF s2(3), of x] c by (simp add: restrict_map_def)
  moreover have "re_running s\<^sub>2 = re_running s" using frameD(1) [OF s1(3)] frameD(1) [OF s2(3)] by simp
  ultimately show thesis using that s1(1) s2(1,2) by simp
qed

lemma restrict_idle: "idle_view v \<Longrightarrow> idle_view (v\<lparr>v_subs := v_subs v |` A, v_readers := v_readers v |` A\<rparr>)"
  by (auto simp: idle_view_def base_view_def restrict_map_def)

lemma slave_callback_safe:
  assumes "vinv slave_view {} s"
  shows "\<exists>s'. slave_callback s = Inr s' \<and> vinv idle_view {} s' \<and> sv_repl_client s' = sv_repl_client s \<and>
    (if in_is_master (input_of s) \<or> \<not> client_lost s then vinv slave_view {} s' else client_dangles s')"
proof -
  have base: "base_view (view_of s)" using sinvD(2) [OF assms] by (simp add: slave_viewD)
  obtain s\<^sub>1 where s1: "next_input s = Inr (input_of s, s\<^sub>1)" "vinv slave_view {} s\<^sub>1" "view_of s\<^sub>1 = view_of s" "quiet s s\<^sub>1"
    using next_input_alone [OF assms base] .
  show ?thesis
  proof (cases "in_is_master (input_of s)")
    case True
    have "sv_repl_client (quit s\<^sub>1) = sv_repl_client s" using s1(3) view_of_sel(11) [of s\<^sub>1] view_of_sel(11) [of s] by (simp add: quit_def)
    moreover have "vinv idle_view {} s\<^sub>1" using s1(2) by (simp add: vinv_def slave_viewD)
    ultimately show ?thesis using True s1(1,2) by (simp add: slave_callback_def quit_vinv)
  next
    case False
    let ?s2 = "s\<^sub>1\<lparr>sv_now := in_time (input_of s)\<rparr>"
    have "vinv slave_view {} ?s2" using s1(2) by (simp add: time_upd)
    then obtain s\<^sub>3 where s3: "on_slave_interval (in_sent (input_of s)) ?s2 = Inr s\<^sub>3" "vinv slave_view {} s\<^sub>3" "view_of s\<^sub>3 = view_of ?s2"
      "re_garbage s\<^sub>3 = re_garbage ?s2" using on_slave_interval_safe by blast
    have v3: "view_of s\<^sub>3 = view_of s" using s3(3) s1(3) by (simp add: view_of_def)
    have g3: "re_garbage s\<^sub>3 = re_garbage s" using s3(4) s1(4) by (simp add: quiet_def)
    have "re_garbage_copy s\<^sub>3 = []" using base v3 view_of_sel(9) [of s\<^sub>3] view_of_sel(9) [of s] by (simp add: base_view_def)
    then obtain s' where s': "bind_res (fix_garbage s\<^sub>3) (\<lambda>(ok, s3). reactor_gc s3) = Inr s'" "reactor_inv {} s'"
      "view_of s' = (view_of s\<^sub>3)\<lparr>v_subs := v_subs (view_of s\<^sub>3) |` (- set (re_garbage s\<^sub>3)), v_readers := v_readers (view_of s\<^sub>3) |` (- set (re_garbage s\<^sub>3))\<rparr>"
      "\<And>x. re_objs s' x = None \<longleftrightarrow> re_objs s\<^sub>3 x = None \<or> x \<in> set (re_garbage s\<^sub>3)"
      using collect_all_safe [OF sinvD(1) [OF s3(2)]] by blast
    have idle: "idle_view (view_of s')" unfolding s'(3) by (rule restrict_idle) (use sinvD(2) [OF s3(2)] in \<open>simp add: slave_viewD\<close>)
    obtain x where x: "sv_repl_client s = Some x" "x \<in> dom (v_subs (view_of s))" using sinvD(2) [OF assms] by (auto simp: slave_view_def)
    have x': "sv_repl_client s' = Some x" using arg_cong [OF s'(3), of v_client] v3 view_of_sel(11) [of s'] view_of_sel(11) [of s] x(1) by simp
    have "slave_view (view_of s')" if "\<not> client_lost s"
    proof -
      have "x \<in> dom (v_subs (view_of s'))" unfolding s'(3) v3 g3 using that x by (simp add: client_lost_def del: view_of_sel(12))
      then show ?thesis using idle x' by (simp add: slave_view_def)
    qed
    moreover have "client_dangles s'" if "client_lost s" using that x(1) x' s'(4) [of x] g3 by (simp add: client_lost_def client_dangles_def)
    ultimately show ?thesis using False s1(1) s3(1) s'(1,2) idle x x' by (auto simp: slave_callback_def vinv_def)
  qed
qed

end
