(* ===== verification/Server_Run.thy ===== *)
theory Server_Run
  imports Server_Slave
begin

text \<open>
  Whole runs of the server: starting, slave mode and the change to master mode, and what holds whenever the master loop has run
  for some rounds.
\<close>

section \<open>Opening sockets\<close>

text \<open>An invariant of the view that a new resource of a kind does not break.\<close>

definition takes :: "(view \<Rightarrow> bool) \<Rightarrow> sock_kind \<Rightarrow> bool" where
  "takes Q k \<longleftrightarrow>
     (\<forall>v x now. Q v \<longrightarrow> x \<notin> dom (v_subs v) \<longrightarrow> Q (v\<lparr>v_subs := (v_subs v)(x \<mapsto> sock_of k now), v_readers := (v_readers v)(x \<mapsto> 0)\<rparr>))"

lemma takes_simps:
  "k \<notin> {Memcache_sock, Counter_sock, Repl_sock} \<Longrightarrow> takes base_view k"
  "k \<in> {Signal_fd, Memcache_listener, Repl_client_sock} \<Longrightarrow> takes idle_view k"
  by (auto simp: takes_def idle_view_def base_view_def split: if_splits)

lemma new_socket_free: "new_socket answers s = (Some (fd, x), as) \<Longrightarrow> fd \<notin> re_open s \<and> re_objs s x = None"
proof (induction answers)
  case (Cons a answers)
  then show ?case by (cases a) (auto split: if_splits)
qed simp

lemma added_safe:
  assumes "vinv Q X s" "takes Q k" "fd \<notin> re_open s" "re_objs s x = None"
  shows "add_resource x (put x (resource_ctor fd (sock_of k now)) (opened fd s)) = Inr (added x fd (sock_of k now) s)"
    "vinv Q X (added x fd (sock_of k now) s)"
proof -
  have i: "reactor_inv X s" "Q (view_of s)" using sinvD [OF assms(1)] by simp_all
  show "add_resource x (put x (resource_ctor fd (sock_of k now)) (opened fd s)) = Inr (added x fd (sock_of k now) s)"
    by (rule add_resource_new [OF i(1) assms(3)])
  have "x \<notin> dom (v_subs (view_of s))" using seen_None [of "re_objs s" x] assms(4) by auto
  then show "vinv Q X (added x fd (sock_of k now) s)"
    using added_inv [OF i(1) assms(3,4)] assms(2) i(2) unfolding vinv_def view_added takes_def by blast
qed

lemma open_socket_safe:
  assumes "vinv Q X s" "takes Q k" "env_fault (Throws (Runtime_error what))"
  shows "safe env_fault (\<lambda>(as, s'). vinv Q X s') (open_socket what k answers s)"
proof (cases "fst (new_socket answers s)")
  case None
  then obtain as where "new_socket answers s = (None, as)" by (metis prod.collapse)
  then show ?thesis using assms(3) by (simp add: open_socket_def)
next
  case (Some p)
  then obtain fd x as where n: "new_socket answers s = (Some (fd, x), as)" by (metis prod.collapse)
  then show ?thesis using added_safe [OF assms(1,2)] new_socket_free [OF n] by (simp add: open_socket_def)
qed

lemma add_listeners_safe:
  assumes "vinv Q X s" "takes Q k"
  shows "safe env_fault (vinv Q X) (add_listeners k answers addrs s)"
  using assms(1)
proof (induction addrs arbitrary: answers s)
  case (Cons a addrs)
  show ?case using Cons.IH by (auto intro!: safe_bind [OF open_socket_safe [OF Cons.prems assms(2)]])
qed simp

section \<open>Slave mode\<close>

text \<open>The object pointed to by the handler exists or has been removed in an orderly way.\<close>

lemma on_slave_end_safe:
  assumes "vinv slave_view {} s"
  obtains s' where "on_slave_end s = Inr s'" "vinv idle_view {} s'"
proof -
  obtain x r where x: "sv_repl_client s = Some x" and r0: "seen (re_objs s) x = Some r"
    using sinvD(2) [OF assms] by (auto simp: slave_view_def)
  note r = seenD [OF r0]
  have n: "rs_readers r = 0" using sinvD(2) [OF assms] r0 by (auto simp: slave_view_def idle_view_def base_view_def)
  have idle: "idle_view (view_of s)" using sinvD(2) [OF assms] by (simp add: slave_viewD)
  show thesis
  proof (cases "rs_valid r")
    case False
    then show thesis using that [of s] x r(1) idle sinvD(1) [OF assms] by (simp add: on_slave_end_def repl_client_def valid_def vinv_def)
  next
    case True
    have reg: "re_resources s (rs_fd r) = Some x" using reactor_inv_valid(1) [OF sinvD(1) [OF assms] r(1) True r(2)] .
    obtain s' where s': "remove_resource (rs_fd r) s = Inr s'" "reactor_inv {} s'" "re_objs s' = (re_objs s)(x \<mapsto> r\<lparr>rs_closed := True\<rparr>)"
      "re_garbage_copy s' = re_garbage_copy s" "reactor.more s' = reactor.more s"
      using remove_valid_safe [OF sinvD(1) [OF assms] reg r(1) True n] by metis
    have st: "stale (r\<lparr>rs_closed := True\<rparr>)" using True by (simp add: stale_def)
    have "view_of s' = (view_of s)\<lparr>v_subs := v_subs (view_of s) |` (- {x}), v_readers := v_readers (view_of s) |` (- {x})\<rparr>"
      by (rule view_eq) (use s'(3,4) st more_fields [OF s'(5)] in \<open>auto simp: restrict_map_def\<close>)
    then have "idle_view (view_of s')" using restrict_idle [OF idle] by simp
    then show thesis using that [of s'] x r(1) True s'(1,2) by (simp add: on_slave_end_def repl_client_def valid_def vinv_def)
  qed
qed

lemma on_slave_end_dangles: "client_dangles s \<Longrightarrow> on_slave_end s = Inl Dangling"
  by (auto simp: client_dangles_def on_slave_end_def repl_client_def valid_def deref_def split: option.splits)

lemma handler_clear_same: "view_of (handler_clear s) = view_of s" "same_reactor s (handler_clear s)"
  by (simp_all add: handler_clear_def view_of_def same_reactor_def)

lemma on_slave_start_safe:
  assumes "vinv idle_view {} s"
  shows "safe env_fault (\<lambda>(ok, s'). vinv (if ok then slave_view else idle_view) {} s') (on_slave_start (server_hooks hf cfg) s)"
proof -
  obtain s\<^sub>1 where s1: "next_input s = Inr (input_of s, s\<^sub>1)" "vinv idle_view {} s\<^sub>1"
    using next_input_alone [OF assms slave_viewD(2) [OF sinvD(2) [OF assms]]] by blast
  show ?thesis
  proof (cases "fst (new_socket (in_sockets (input_of s)) s\<^sub>1)")
    case None
    have "safe env_fault (\<lambda>(ok, s'). vinv (if ok then slave_view else idle_view) {} s') (bind_res (poll (server_hooks hf cfg) s\<^sub>1) (\<lambda>s2. Inr (False, s2)))"
      by (rule safe_bind [OF idl.poll_safe [OF s1(2)]]) simp
    then show ?thesis using None s1(1) by (simp add: on_slave_start_def)
  next
    case (Some p)
    then obtain fd x as where n: "new_socket (in_sockets (input_of s)) s\<^sub>1 = (Some (fd, x), as)" by (metis prod.collapse)
    let ?s2 = "(handler_clear s\<^sub>1)\<lparr>sv_repl_client := Some x, sv_client_buf := []\<rparr>"
    have free: "fd \<notin> re_open ?s2" "re_objs ?s2 x = None"
      using new_socket_free [OF n] handler_clear_same(2) [of s\<^sub>1] by (simp_all add: same_reactor_def)
    have v: "view_of ?s2 = (view_of s\<^sub>1)\<lparr>v_client := Some x\<rparr>" by (simp add: view_of_def handler_clear_def)
    have "idle_view (view_of ?s2)" using sinvD(2) [OF s1(2)] unfolding v by (simp add: idle_view_def base_view_def)
    moreover have "reactor_inv {} ?s2"
      using reactor_inv_same [of s\<^sub>1 ?s2 "{}"] sinvD(1) [OF s1(2)] by (simp add: same_reactor_def handler_clear_def)
    ultimately have s2: "vinv idle_view {} ?s2" by (simp add: vinv_def)
    note a = added_safe [OF s2 takes_simps(2) free, of Repl_client_sock "sv_now s\<^sub>1"]
    let ?s3 = "added x fd (sock_of Repl_client_sock (sv_now s\<^sub>1)) ?s2"
    have "v_client (view_of ?s3) = Some x" "x \<in> dom (v_subs (view_of ?s3))" unfolding view_added v by simp_all
    then have "vinv slave_view {} ?s3" using a(2) by (simp add: vinv_def slave_view_def)
    moreover have "(put x (resource_ctor fd (sock_of Repl_client_sock (sv_now s\<^sub>1))) (opened fd (handler_clear s\<^sub>1)))\<lparr>sv_repl_client := Some x, sv_client_buf := []\<rparr> =
      put x (resource_ctor fd (sock_of Repl_client_sock (sv_now s\<^sub>1))) (opened fd ?s2)" by (cases s\<^sub>1) (simp add: put_def opened_def handler_clear_def)
    ultimately show ?thesis using a(1) n s1(1) by (simp add: on_slave_start_def Let_def)
  qed
qed

text \<open>Some interval of the run comes when the connection to the master has been removed, and this machine is not the master.\<close>

fun lost_at_interval :: "nat \<Rightarrow> (string \<Rightarrow> u64) \<Rightarrow> cfg \<Rightarrow> server \<Rightarrow> bool" where
  "lost_at_interval 0 hf cfg s = False"
| "lost_at_interval (Suc n) hf cfg s =
     (re_running s \<and>
      (case poll (server_hooks hf cfg) s of
         Inl e \<Rightarrow> False
       | Inr s1 \<Rightarrow>
           if \<not> in_elapsed (input_of s1) then lost_at_interval n hf cfg s1
           else if \<not> in_is_master (input_of s1) \<and> client_lost s1 then True
           else (case slave_callback s1 of Inl e \<Rightarrow> False | Inr s2 \<Rightarrow> lost_at_interval n hf cfg s2)))"

lemma slave_loop_safe:
  assumes "vinv slave_view {} s" "\<not> lost_at_interval n hf cfg s"
  shows "safe env_fault (vinv slave_view {}) (slave_loop n hf cfg s)"
  using assms unfolding slave_loop_def
proof (induction n arbitrary: s)
  case (Suc n)
  show ?case
  proof (cases "re_running s")
    case True
    show ?thesis
    proof (cases "poll (server_hooks hf cfg) s")
      case (Inl e)
      then show ?thesis using True slv.poll_safe [OF Suc.prems(1), of hf cfg] by simp
    next
      case (Inr s\<^sub>1)
      then have s1: "vinv slave_view {} s\<^sub>1" using slv.poll_safe [OF Suc.prems(1), of hf cfg] by simp
      show ?thesis
      proof (cases "in_elapsed (input_of s\<^sub>1)")
        case False
        then show ?thesis using True Inr Suc.IH [OF s1] Suc.prems(2) by simp
      next
        case el: True
        then have "in_is_master (input_of s\<^sub>1) \<or> \<not> client_lost s\<^sub>1" using Suc.prems(2) True Inr by (auto split: if_splits)
        then obtain s\<^sub>2 where s2: "slave_callback s\<^sub>1 = Inr s\<^sub>2" "vinv slave_view {} s\<^sub>2" using slave_callback_safe [OF s1] by auto
        moreover have "\<not> lost_at_interval n hf cfg s\<^sub>2" using Suc.prems(2) True Inr el s2(1) by (auto split: if_splits)
        ultimately show ?thesis using True Inr el Suc.IH [OF s2(2)] by simp
      qed
    qed
  qed (use Suc.prems in simp)
qed simp

lemma slave_running: "vinv Q X ((counter_slave_start cfg s)\<lparr>re_running := b\<rparr>) = vinv Q X s"
proof -
  let ?s = "counter_slave_start cfg s"
  have same: "same_reactor s ?s" "view_of ?s = view_of s"
    by (auto simp: counter_slave_start_def counter_on_slave_start_def counter_clear_def same_reactor_def view_of_def)
  have "vinv Q X (?s\<lparr>re_running := b\<rparr>) = vinv Q X ?s"
  proof (cases b)
    case False
    then have "?s\<lparr>re_running := b\<rparr> = quit ?s" by (simp add: quit_def)
    then show ?thesis by (simp add: quit_vinv)
  next
    case True
    have "quit (?s\<lparr>re_running := b\<rparr>) = quit ?s" by (simp add: quit_def)
    then show ?thesis by (metis quit_vinv)
  qed
  then show ?thesis using sinv_same [OF same] by simp
qed

lemma serve_slave_safe:
  assumes "vinv idle_view {} s"
    "\<And>s1. on_slave_start (server_hooks hf cfg) s = Inr (True, s1) \<Longrightarrow> \<not> lost_at_interval n hf cfg ((counter_slave_start cfg s1)\<lparr>re_running := True\<rparr>)"
  shows "safe env_fault (\<lambda>(returned, s'). vinv idle_view {} s') (serve_slave n hf cfg s)"
proof (cases "on_slave_start (server_hooks hf cfg) s")
  case (Inl e)
  then show ?thesis using on_slave_start_safe [OF assms(1), of hf cfg] by (simp add: serve_slave_def)
next
  case (Inr p)
  obtain ok s\<^sub>1 where p: "p = (ok, s\<^sub>1)" by (metis surj_pair)
  have s1: "vinv (if ok then slave_view else idle_view) {} s\<^sub>1" using on_slave_start_safe [OF assms(1), of hf cfg] Inr p by simp
  show ?thesis
  proof (cases ok)
    case True
    let ?s = "(counter_slave_start cfg s\<^sub>1)\<lparr>re_running := True\<rparr>"
    have "safe env_fault (vinv slave_view {}) (slave_loop n hf cfg ?s)"
      by (rule slave_loop_safe) (use s1 True assms(2) Inr p in \<open>simp_all add: slave_running\<close>)
    then have "safe env_fault (\<lambda>(returned, s'). vinv idle_view {} s') (bind_res (slave_loop n hf cfg ?s) (\<lambda>s2.
        if re_running s2 then Inr (False, s2) else bind_res (on_slave_end s2) (\<lambda>s3. Inr (True, s3))))"
    proof (rule safe_bind)
      fix s\<^sub>2
      assume s2: "vinv slave_view {} s\<^sub>2"
      then have "vinv idle_view {} s\<^sub>2" by (simp add: vinv_def slave_viewD)
      moreover obtain s\<^sub>3 where "on_slave_end s\<^sub>2 = Inr s\<^sub>3" "vinv idle_view {} s\<^sub>3" using on_slave_end_safe [OF s2] .
      ultimately show "safe env_fault (\<lambda>(returned, s'). vinv idle_view {} s') (if re_running s\<^sub>2 then Inr (False, s\<^sub>2) else bind_res (on_slave_end s\<^sub>2) (\<lambda>s3. Inr (True, s3)))"
        by simp
    qed
    then show ?thesis using Inr p True by (simp add: serve_slave_def)
  qed (use s1 Inr p in \<open>simp add: serve_slave_def\<close>)
qed

section \<open>Master mode\<close>

lemma start_workers_ok:
  assumes "base_view v" "dom (v_readers v) = dom (v_subs v)" "0 < n" "n \<le> MAX_WORKERS"
  shows "view_ok (v\<lparr>v_workers := replicate n \<lparr>th_job = None, th_held = None\<rparr>\<rparr>)"
proof -
  let ?v = "v\<lparr>v_workers := replicate n \<lparr>th_job = None, th_held = None\<rparr>\<rparr>"
  have sel: "gc_refs ?v = {}" "gc_new ?v = {}" "gc_held ?v = None" "pending ?v = {}"
    using assms(1) by (simp_all add: gc_refs_def gc_new_def gc_held_def pending_def base_view_def)
  have "holders ?v x = 0" for x by (simp add: holders_def sel)
  then have "threads_ok ?v" using assms(1,3,4) by (auto simp: threads_ok_def sel base_view_def)
  moreover have "refs_ok ?v" using assms(1,2) by (auto simp: refs_ok_def sel base_view_def worker_refs_def)
  moreover have "fixed_ok ?v" "cover_ok ?v" using assms(1) by (simp_all add: fixed_ok_def cover_ok_def sel base_view_def)
  ultimately show ?thesis by (simp add: view_ok_def)
qed

lemma start_workers_safe:
  assumes "vinv base_view {} s" "workers cfg \<in> {1..MAX_WORKERS}"
  shows "sinv {} ((start_workers cfg s)\<lparr>re_running := True\<rparr>)"
proof -
  let ?s = "start_workers cfg s"
  have "sv_workers s = []" using sinvD(2) [OF assms(1)] by (simp add: base_view_def)
  then have "view_of ?s = (view_of s)\<lparr>v_workers := replicate (workers cfg) \<lparr>th_job = None, th_held = None\<rparr>\<rparr>"
    by (simp add: view_of_def start_workers_def)
  then have "view_ok (view_of ?s)" using start_workers_ok [of "view_of s" "workers cfg"] sinvD(2) [OF assms(1)] assms(2) by simp
  moreover have "reactor_inv {} ?s" using reactor_inv_same [of s ?s "{}"] sinvD(1) [OF assms(1)] by (simp add: same_reactor_def start_workers_def)
  ultimately have "sinv {} ?s" by (simp add: vinv_def)
  moreover have "quit (?s\<lparr>re_running := True\<rparr>) = quit ?s" by (simp add: quit_def)
  ultimately show ?thesis by (metis quit_vinv)
qed

lemma listen_safe:
  assumes "vinv base_view {} s" "k \<notin> {Memcache_sock, Counter_sock, Repl_sock}"
  shows "safe env_fault (vinv base_view {}) (bind_res (next_input s) (\<lambda>(i, s1). add_listeners k (in_sockets i) (listen_addrs cfg) s1))"
proof -
  obtain s\<^sub>1 where "next_input s = Inr (input_of s, s\<^sub>1)" "vinv base_view {} s\<^sub>1" using next_input_alone [OF assms(1) sinvD(2) [OF assms(1)]] by blast
  then show ?thesis using add_listeners_safe takes_simps(1) [OF assms(2)] by simp
qed

lemma master_start_safe:
  assumes "vinv base_view {} s" "workers cfg \<in> {1..MAX_WORKERS}"
  shows "safe env_fault (sinv {}) (master_start cfg s)"
proof -
  let ?s = "s\<lparr>sv_is_slave := False\<rparr>"
  have "view_of ?s = (view_of s)\<lparr>v_is_slave := False\<rparr>" by (simp add: view_of_def)
  then have "vinv base_view {} ?s"
    using sinvD [OF assms(1)] reactor_inv_same [of s ?s "{}"] by (simp add: vinv_def same_reactor_def base_view_def)
  then have 1: "safe env_fault (vinv base_view {}) (on_master_start cfg s)" unfolding on_master_start_def by (rule listen_safe) simp
  have 2: "safe env_fault (vinv base_view {}) (if cc_enable (counter cfg) then counter_on_master_start cfg s\<^sub>1 else Inr s\<^sub>1)"
    if "vinv base_view {} s\<^sub>1" for s\<^sub>1
    using listen_safe [OF that, of Counter_listener cfg] that by (simp add: counter_on_master_start_def)
  show ?thesis unfolding master_start_def by (intro safe_bind [OF 1] safe_bind [OF 2]) (simp_all only: safe_simps start_workers_safe [OF _ assms(2)])
qed

lemma serve_master_safe:
  assumes "vinv base_view {} s" "workers cfg \<in> {1..MAX_WORKERS}"
  shows "safe env_fault (sinv {}) (serve_master n hf cfg s)"
  unfolding serve_master_def by (intro safe_bind [OF master_start_safe [OF assms]] master_loop_safe)

section \<open>Starting\<close>

lemma server_ctor_idle: "vinv idle_view X (server_ctor cfg now inputs) = (X = {})"
proof -
  have "reactor_inv X (server_ctor cfg now inputs) = (X = {})"
    by (auto simp: reactor_inv_def unique_fds_def invalid_fds_def server_ctor_def)
  moreover have "idle_view (view_of (server_ctor cfg now inputs))"
    by (simp add: idle_view_def base_view_def view_of_def server_ctor_def seen_def)
  ultimately show ?thesis by (simp add: vinv_def)
qed

lemma signal_setup_safe:
  assumes "vinv idle_view {} s"
  shows "safe env_fault (vinv idle_view {}) (signal_setup s)"
proof -
  obtain s\<^sub>1 where s1: "next_input s = Inr (input_of s, s\<^sub>1)" "vinv idle_view {} s\<^sub>1"
    using next_input_alone [OF assms slave_viewD(2) [OF sinvD(2) [OF assms]]] by blast
  have "safe env_fault (vinv idle_view {}) (bind_res (open_socket ''signalfd'' Signal_fd (in_sockets (input_of s)) s\<^sub>1) (\<lambda>(as, s2). Inr s2))"
    by (rule safe_bind [OF open_socket_safe [OF s1(2) takes_simps(2)]]) auto
  then show ?thesis using s1(1) by (simp add: signal_setup_def)
qed

lemma on_start_safe:
  assumes "vinv idle_view {} s"
  shows "safe env_fault (vinv idle_view {}) (on_start cfg s)"
proof -
  obtain s\<^sub>1 where "next_input s = Inr (input_of s, s\<^sub>1)" "vinv idle_view {} s\<^sub>1"
    using next_input_alone [OF assms slave_viewD(2) [OF sinvD(2) [OF assms]]] by blast
  then show ?thesis using add_listeners_safe takes_simps(2) [of Memcache_listener] by (simp add: on_start_def)
qed

lemma serve_start_safe: "safe env_fault (\<lambda>(i, s). vinv idle_view {} s) (serve_start cfg (server_ctor cfg now inputs))"
  unfolding serve_start_def
proof (intro safe_bind [OF signal_setup_safe] safe_bind [OF on_start_safe])
  show "vinv idle_view {} (server_ctor cfg now inputs)" by (simp add: server_ctor_idle)
next
  fix s
  assume s: "vinv idle_view {} s"
  obtain s' where "next_input s = Inr (input_of s, s')" "vinv idle_view {} s'" using next_input_alone [OF s slave_viewD(2) [OF sinvD(2) [OF s]]] by blast
  then show "safe env_fault (\<lambda>(i, s). vinv idle_view {} s) (next_input s)" by simp
qed

lemma promoted_safe:
  assumes "vinv idle_view {} s"
  shows "safe env_fault (\<lambda>(ok, s'). vinv idle_view {} s') (promoted k s)"
  using assms
proof (induction k arbitrary: s)
  case (Suc k)
  obtain s' where "next_input s = Inr (input_of s, s')" "vinv idle_view {} s'"
    using next_input_alone [OF Suc.prems slave_viewD(2) [OF sinvD(2) [OF Suc.prems]]] by blast
  then show ?case using Suc.IH by simp
qed simp

section \<open>Whole runs\<close>

text \<open>Some phase as a slave has an interval after the connection to the master was removed.\<close>

fun serve_lost :: "nat \<Rightarrow> nat \<Rightarrow> (string \<Rightarrow> u64) \<Rightarrow> cfg \<Rightarrow> server \<Rightarrow> bool" where
  "serve_lost 0 n hf cfg s = False"
| "serve_lost (Suc m) n hf cfg s =
     ((case on_slave_start (server_hooks hf cfg) s of
         Inl e \<Rightarrow> False
       | Inr (ok, s1) \<Rightarrow> ok \<and> lost_at_interval n hf cfg ((counter_slave_start cfg s1)\<lparr>re_running := True\<rparr>)) \<or>
      (case serve_slave n hf cfg s of
         Inl e \<Rightarrow> False
       | Inr (returned, s1) \<Rightarrow>
           returned \<and> \<not> sv_signaled s1 \<and>
           (case promoted MASTER_CHECKS s1 of Inl e \<Rightarrow> False | Inr (ok, s2) \<Rightarrow> \<not> ok \<and> serve_lost m n hf cfg s2)))"

definition orderly :: "nat \<Rightarrow> nat \<Rightarrow> (string \<Rightarrow> u64) \<Rightarrow> cfg \<Rightarrow> server \<Rightarrow> bool" where
  "orderly m n hf cfg s \<longleftrightarrow>
     (case serve_start cfg s of Inl e \<Rightarrow> True | Inr (i, s1) \<Rightarrow> in_is_master i \<or> \<not> serve_lost m n hf cfg s1)"

definition run_inv :: "server \<Rightarrow> bool" where
  "run_inv s \<longleftrightarrow> sinv {} s \<or> vinv idle_view {} s"

lemma serve_loop_safe:
  assumes "vinv idle_view {} s" "workers cfg \<in> {1..MAX_WORKERS}" "\<not> serve_lost m n hf cfg s"
  shows "safe env_fault run_inv (serve_loop m n hf cfg s)"
  using assms(1,3)
proof (induction m arbitrary: s)
  case 0
  then show ?case by (simp add: run_inv_def)
next
  case (Suc m)
  have "safe env_fault (\<lambda>(returned, s'). vinv idle_view {} s') (serve_slave n hf cfg s)"
    by (rule serve_slave_safe [OF Suc.prems(1)]) (use Suc.prems(2) in auto)
  then consider e where "serve_slave n hf cfg s = Inl e" "env_fault e"
    | returned s\<^sub>1 where "serve_slave n hf cfg s = Inr (returned, s\<^sub>1)" "vinv idle_view {} s\<^sub>1"
    by (cases "serve_slave n hf cfg s") auto
  then show ?case
  proof cases
    case 2
    show ?thesis
    proof (cases "returned \<and> \<not> sv_signaled s\<^sub>1")
      case True
      from promoted_safe [OF 2(2), of MASTER_CHECKS] consider e where "promoted MASTER_CHECKS s\<^sub>1 = Inl e" "env_fault e"
        | ok s\<^sub>2 where "promoted MASTER_CHECKS s\<^sub>1 = Inr (ok, s\<^sub>2)" "vinv idle_view {} s\<^sub>2"
        by (cases "promoted MASTER_CHECKS s\<^sub>1") auto
      then show ?thesis
      proof cases
        case p: 2
        have "vinv base_view {} s\<^sub>2" using p(2) by (simp add: vinv_def slave_viewD)
        then have "safe env_fault (sinv {}) (serve_master n hf cfg s\<^sub>2)" using serve_master_safe [OF _ assms(2)] by blast
        then have "safe env_fault run_inv (serve_master n hf cfg s\<^sub>2)" by (rule safe_mono) (simp add: run_inv_def)
        moreover have "safe env_fault run_inv (serve_loop m n hf cfg s\<^sub>2)" if "\<not> ok"
          using Suc.IH [OF p(2)] Suc.prems(2) 2(1) True p(1) that by auto
        ultimately show ?thesis using 2(1) True p(1) by simp
      qed (use 2(1) True in simp)
    qed (use 2 in \<open>auto simp: run_inv_def\<close>)
  qed simp
qed

lemma serve_run_inv:
  assumes "workers cfg \<in> {1..MAX_WORKERS}" "orderly m n hf cfg (server_ctor cfg now inputs)"
  shows "safe env_fault run_inv (serve m n hf cfg (server_ctor cfg now inputs))"
proof (cases "serve_start cfg (server_ctor cfg now inputs)")
  case (Inl e)
  then show ?thesis using serve_start_safe [of cfg now inputs] by (simp add: serve_def)
next
  case (Inr p)
  obtain i s where p: "p = (i, s)" by (metis surj_pair)
  have s: "vinv idle_view {} s" using serve_start_safe [of cfg now inputs] Inr p by simp
  then have "vinv base_view {} s" by (simp add: vinv_def slave_viewD)
  then have "safe env_fault (sinv {}) (serve_master n hf cfg s)" using serve_master_safe [OF _ assms(1)] by blast
  then have "safe env_fault run_inv (serve_master n hf cfg s)" by (rule safe_mono) (simp add: run_inv_def)
  then show ?thesis using serve_loop_safe [OF s assms(1), of m n hf] assms(2) Inr p by (auto simp: serve_def orderly_def)
qed

section \<open>What holds in a run\<close>

text \<open>Every socket that a worker, the collector, the handler or the reactor may use exists.\<close>

definition refs_alive :: "server \<Rightarrow> bool" where
  "refs_alive s \<longleftrightarrow>
     (\<forall>t \<in> set (sv_workers s). \<forall>j. th_job t = Some j \<longrightarrow> set (job_refs s j) \<subseteq> dom (re_objs s)) \<and>
     (\<forall>c. sv_gc_thread s = Some c \<longrightarrow> set (collector_refs c) \<subseteq> dom (re_objs s)) \<and>
     set (sv_slaves s) \<union> set (sv_new_slaves s) \<subseteq> dom (re_objs s) \<and> ran (re_resources s) \<subseteq> dom (re_objs s)"

text \<open>At most one worker receives from a connection, and \<^verbatim>\<open>m_busy\<close> tells whether one does.\<close>

definition one_worker_each :: "server \<Rightarrow> bool" where
  "one_worker_each s \<longleftrightarrow>
     (\<forall>x. \<forall>w < length (sv_workers s). \<forall>w' < length (sv_workers s).
        th_job (sv_workers s ! w) = Some (Recv_job x) \<longrightarrow> th_job (sv_workers s ! w') = Some (Recv_job x) \<longrightarrow> w = w') \<and>
     (\<forall>fd x r. re_resources s fd = Some x \<longrightarrow> re_objs s x = Some r \<longrightarrow>
        so_busy (rs_sub r) = (\<exists>w < length (sv_workers s). th_job (sv_workers s ! w) = Some (Recv_job x)))"

text \<open>The descriptor that a thread uses is open, and no other resource that is not closed has it.\<close>

definition owns_descriptor :: "server \<Rightarrow> nat \<Rightarrow> bool" where
  "owns_descriptor s x \<longleftrightarrow>
     (\<exists>r. re_objs s x = Some r \<and> \<not> rs_closed r \<and> rs_fd r \<in> re_open s \<and>
        (\<forall>y q. re_objs s y = Some q \<longrightarrow> \<not> rs_closed q \<longrightarrow> rs_fd q = rs_fd r \<longrightarrow> y = x))"

definition descriptors_held :: "server \<Rightarrow> bool" where
  "descriptors_held s \<longleftrightarrow>
     (\<forall>t \<in> set (sv_workers s). \<forall>x. th_held t = Some x \<longrightarrow> owns_descriptor s x) \<and>
     (\<forall>c x. sv_gc_thread s = Some c \<longrightarrow> cl_held c = Some x \<longrightarrow> owns_descriptor s x)"

text \<open>
  A listed slave whose initial replication is due or under way is known to every job of a memcache client, so that it misses
  no change.
\<close>

definition slaves_covered :: "server \<Rightarrow> bool" where
  "slaves_covered s \<longleftrightarrow>
     (\<forall>x \<in> set (sv_slaves s).
        x \<in> set (sv_new_slaves s) \<or> (\<exists>c. sv_gc_thread s = Some c \<and> \<not> cl_done c \<and> x \<in> set (gt_new_slaves (cl_thread c))) \<longrightarrow>
        (\<forall>t \<in> set (sv_workers s). \<forall>y r.
           th_job t = Some (Recv_job y) \<longrightarrow> re_objs s y = Some r \<longrightarrow> so_kind (rs_sub r) = Memcache_sock \<longrightarrow> x \<in> set (so_slaves (rs_sub r))))"

lemma seen_dom: "dom (seen objs) \<subseteq> dom objs"
  by (auto simp: seen_Some)

lemma registered_objs: "reactor_inv X s \<Longrightarrow> ran (re_resources s) \<subseteq> dom (re_objs s)"
  using reactor_invD(3) by (fastforce simp: ran_def)

lemma idle_fields:
  assumes "vinv idle_view {} s"
  shows "sv_workers s = []" "sv_gc_thread s = None" "sv_slaves s = []" "sv_new_slaves s = []"
  using sinvD(2) [OF assms] by (simp_all add: idle_view_def base_view_def)

lemma run_refs_alive:
  assumes "run_inv s"
  shows "refs_alive s"
proof (cases "sinv {} s")
  case True
  note o = view_okD(2) [OF sinvD(2) [OF True]]
  have "set (job_refs s j) \<subseteq> dom (re_objs s)" if "t \<in> set (sv_workers s)" "th_job t = Some j" for t j
    using job_refs_seen(2) [OF sinvD(2) [OF True] that] seen_dom by blast
  moreover have "gc_refs (view_of s) \<union> set (sv_slaves s) \<union> set (sv_new_slaves s) \<subseteq> dom (re_objs s)"
  proof (rule subset_trans [OF _ seen_dom])
    show "gc_refs (view_of s) \<union> set (sv_slaves s) \<union> set (sv_new_slaves s) \<subseteq> dom (seen (re_objs s))" using o by (simp add: refs_ok_def)
  qed
  ultimately show ?thesis using registered_objs [OF sinvD(1) [OF True]] by (auto simp: refs_alive_def gc_refs_def)
next
  case False
  then have i: "vinv idle_view {} s" using assms by (simp add: run_inv_def)
  then show ?thesis using idle_fields [OF i] registered_objs [OF sinvD(1) [OF i]] by (simp add: refs_alive_def)
qed

lemma run_one_worker:
  assumes "run_inv s"
  shows "one_worker_each s"
proof (cases "sinv {} s")
  case True
  note o = view_okD(1) [OF sinvD(2) [OF True]]
  have "so_busy (rs_sub r) = (\<exists>w < length (sv_workers s). th_job (sv_workers s ! w) = Some (Recv_job x))"
    if "re_resources s fd = Some x" "re_objs s x = Some r" for fd x r
  proof -
    have "seen (re_objs s) x = Some r" using registered_live [OF True that(1)] that(2) by (metis option.inject)
    then show ?thesis using o by (simp add: threads_ok_def)
  qed
  then show ?thesis using threads_okD(4) [OF o] by (auto simp: one_worker_each_def)
next
  case False
  then have i: "vinv idle_view {} s" using assms by (simp add: run_inv_def)
  have "\<not> so_busy (rs_sub r)" if "re_resources s fd = Some x" "re_objs s x = Some r" for fd x r
  proof -
    have "seen (re_objs s) x = Some r" using registered_live [OF i that(1)] that(2) by (metis option.inject)
    then have "v_subs (view_of s) x = Some (rs_sub r)" by simp
    then show ?thesis using sinvD(2) [OF i] unfolding idle_view_def base_view_def by blast
  qed
  then show ?thesis using idle_fields [OF i] by (simp add: one_worker_each_def)
qed

lemma held_owned:
  assumes "sinv {} s" "0 < holders (view_of s) x" "x \<in> dom (seen (re_objs s))"
  shows "owns_descriptor s x"
proof -
  obtain r where r: "seen (re_objs s) x = Some r" using assms(3) by auto
  then have "0 < rs_readers r" using assms(2) readers_count [OF sinvD(2) [OF assms(1)] r] by simp
  note u = reactor_inv_in_use [OF sinvD(1) [OF assms(1)] seenD(1) [OF r] this]
  moreover have "y = x" if "re_objs s y = Some q" "\<not> rs_closed q" "rs_fd q = rs_fd r" for y q
    using unique_fdsD [OF reactor_invD(2) [OF sinvD(1) [OF assms(1)]] that(1) seenD(1) [OF r] that(2) u(1) that(3)] .
  ultimately show ?thesis using seenD(1) [OF r] unfolding owns_descriptor_def by blast
qed

lemma run_descriptors_held:
  assumes "run_inv s"
  shows "descriptors_held s"
proof (cases "sinv {} s")
  case True
  note o = view_okD [OF sinvD(2) [OF True]]
  have "owns_descriptor s x" if "t \<in> set (sv_workers s)" "th_held t = Some x" for t x
  proof (rule held_owned [OF True])
    have "t \<in> set (filter (\<lambda>t. th_held t = Some x) (sv_workers s))" using that by simp
    then have "0 < length (filter (\<lambda>t. th_held t = Some x) (sv_workers s))" by (rule length_pos_if_in_set)
    then show "0 < holders (view_of s) x" by (simp add: holders_def)
    have "x \<in> worker_refs (v_subs (view_of s)) t" using threads_okD(5) [OF o(1)] that by simp
    then show "x \<in> dom (seen (re_objs s))" using worker_refs_seen [OF sinvD(2) [OF True] that(1)] by blast
  qed
  moreover have "owns_descriptor s x" if "sv_gc_thread s = Some c" "cl_held c = Some x" for c x
  proof (rule held_owned [OF True])
    have h: "gc_held (view_of s) = Some x" using that by (simp add: gc_held_def)
    then show "0 < holders (view_of s) x" by (simp add: holders_def)
    show "x \<in> dom (seen (re_objs s))" using collector_ref_live [OF sinvD(2) [OF True] threads_okD(6) [OF o(1) h]] by blast
  qed
  ultimately show ?thesis by (simp add: descriptors_held_def)
next
  case False
  then show ?thesis using assms idle_fields by (simp add: run_inv_def descriptors_held_def)
qed

lemma run_slaves_covered:
  assumes "run_inv s"
  shows "slaves_covered s"
proof (cases "sinv {} s")
  case True
  note o = view_okD [OF sinvD(2) [OF True]]
  have "x \<in> set (so_slaves (rs_sub r))"
    if x: "x \<in> set (sv_slaves s)" "x \<in> set (sv_new_slaves s) \<or> (\<exists>c. sv_gc_thread s = Some c \<and> \<not> cl_done c \<and> x \<in> set (gt_new_slaves (cl_thread c)))"
      and t: "t \<in> set (sv_workers s)" "th_job t = Some (Recv_job y)" "re_objs s y = Some r" "so_kind (rs_sub r) = Memcache_sock" for x t y r
  proof -
    have "x \<in> set (v_new (view_of s)) \<union> gc_new (view_of s)" using x(2) by (auto simp: gc_new_def)
    then have "covers (v_subs (view_of s)) x t" using o(4) x(1) t(1) unfolding cover_ok_def by (metis view_of_sel(3,7))
    moreover have "y \<in> dom (seen (re_objs s))" using job_refs_seen(2) [OF sinvD(2) [OF True] t(1,2)] by (simp add: job_refs_def)
    then have "seen (re_objs s) y = Some r" using t(3) by (auto simp: seen_Some)
    ultimately show ?thesis using t(2,4) by (simp add: covers_def)
  qed
  then show ?thesis unfolding slaves_covered_def by blast
next
  case False
  then show ?thesis using assms idle_fields by (simp add: run_inv_def slaves_covered_def)
qed

section \<open>Runs\<close>

definition small_cfg :: cfg where
  "small_cfg =
     \<lparr>vip = ''127.0.0.1'', port = 1, repl_port = 2, bind_ip = [], max_connections = 0, tempdir = ''/var/tmp'', user = [], group = [],
      threshold = Sev_info, logfile = [], buckets = 1, max_data_size = 8, heap_data_limit = 8, memory_limit = 8, repl_bufsize = 1,
      initial_repl_sleep_delay_usec = 0, secure_erase = False, lock_memory = False, workers = 2, gc_interval = 10, slave_timeout = 10,
      counter = \<lparr>cc_enable = False, cc_port = 3, cc_max_connections = 0, cc_buckets = 1, cc_stat_interval = 1\<rparr>\<rparr>"

abbreviation sockets :: "(nat \<times> nat) list \<Rightarrow> input" where
  "sockets ps \<equiv> no_input\<lparr>in_sockets := map Some ps\<rparr>"

definition readable :: "nat \<Rightarrow> epoll_event" where
  "readable fd = \<lparr>ev_fd = fd, ev_err = False, ev_hup = False, ev_in = True, ev_out = False\<rparr>"

text \<open>As the master: a client and a slave connect, and a worker receives from the client.\<close>

definition master_run :: "input list" where
  "master_run =
     [sockets [(3, 100)], sockets [(4, 101)], no_input\<lparr>in_is_master := True\<rparr>, sockets [(5, 102)],
      no_input\<lparr>in_events := Events [readable 4, readable 5]\<rparr>,
      no_input\<lparr>in_accept := [Accepted 6 103, Accept_again]\<rparr>, no_input\<lparr>in_accept := [Accepted 7 104, Accept_again]\<rparr>,
      no_input\<lparr>in_events := Events [readable 6]\<rparr>, no_input,
      no_input\<lparr>in_threads := [Worker_begins 0 103]\<rparr>]"

definition master_state :: "fault + server" where
  "master_state = serve 1 3 (\<lambda>_. 0) small_cfg (server_ctor small_cfg 0 master_run)"

lemma master_run_serves:
  "case master_state of
     Inl e \<Rightarrow> False
   | Inr s \<Rightarrow> th_job (sv_workers s ! 0) = Some (Recv_job 103) \<and> th_held (sv_workers s ! 0) = Some 103 \<and> sv_slaves s = [104] \<and> sv_new_slaves s = [104]"
  by code_simp

lemma master_run_orderly: "orderly 1 3 (\<lambda>_. 0) small_cfg (server_ctor small_cfg 0 master_run)" "workers small_cfg \<in> {1..MAX_WORKERS}"
  by code_simp+

text \<open>As a slave: the master closes the connection, and the interval elapses in the same round.\<close>

definition lost_run :: "input list" where
  "lost_run =
     [sockets [(3, 100)], sockets [(4, 101)], no_input, sockets [(5, 102)],
      no_input\<lparr>in_events := Events [readable 5]\<rparr>, no_input\<lparr>in_recv := [Recv_data []]\<rparr>, no_input\<lparr>in_elapsed := True, in_time := 1\<rparr>]"

text \<open>As a slave: sending a heartbeat fails, and two more intervals elapse.\<close>

definition heartbeat_run :: "input list" where
  "heartbeat_run =
     [sockets [(3, 100)], sockets [(4, 101)], no_input, sockets [(5, 102)],
      no_input, no_input\<lparr>in_elapsed := True, in_time := 1, in_sent := False\<rparr>,
      no_input, no_input\<lparr>in_elapsed := True, in_time := 2\<rparr>,
      no_input, no_input\<lparr>in_elapsed := True, in_time := 3\<rparr>]"

end
