(* ===== verification/Spec2Isabelle.thy ===== *)
theory Spec2Isabelle
  imports Memcache_Jobs Memcache_Gc Counter_System Server_Run
begin

text \<open>
  A verification of yrmcds, a memory object caching server with master/slave replication and a service of named counters
  (\<^emph>\<open>semaphores\<close> shared by connections).  File names are relative to the root of the repository.

  \<^bold>\<open>The program.\<close>  One thread, the \<^emph>\<open>reactor\<close> thread, owns every socket.  It waits for events, accepts connections, and hands a connection
  that has become readable to an idle \<^emph>\<open>worker\<close>; it never executes a request itself.  A worker receives bytes, executes the
  complete requests among them on the hash map of objects or on that of counters, answers, and sends each change to the
  \<^emph>\<open>slaves\<close> of the server.  A \<^emph>\<open>collector\<close> thread removes dead objects and sends the others to slaves that are new.  Sockets are destroyed
  only when nobody can refer to them any more: the reactor puts them aside as garbage, asks the \<^emph>\<open>syncer\<close> to wait until every
  worker has been idle once, and then frees them.  A server that does not have the virtual address is a slave: it applies
  the stream of its master, and starts as a master when the address has moved to it.

  \<^bold>\<open>How the code is represented.\<close>  A byte is a \<^typ>\<open>char\<close>, a buffer a \<^typ>\<open>string\<close>.  Fixed-width integers of the protocols and of the objects are
  words of their width and wrap around; \<^verbatim>\<open>size_t\<close> of containers and numbers of the configuration are natural numbers; \<^verbatim>\<open>time_t\<close> is an integer.  A
  function that may throw returns a sum with the exception on the left, composed by \<^const>\<open>bind_res\<close>.  A class is a record, an enumeration a
  datatype, a loop a recursive function.  The exceptions are the worker, where two threads share flags without a lock and each atomic access is
  a step of an inductive relation, and the counter service as a whole, a step relation over its connections.

  \<^bold>\<open>The library layer\<close> (\<^verbatim>\<open>cybozu/\<close>).
  \<^item> \<open>Prelude\<close>: types, results, and facts on lists, words and association lists.
  \<^item> \<open>Util\<close> (\<^verbatim>\<open>util.hpp\<close>): byte order, the tokenizer, clearing of memory.
  \<^item> \<open>Siphash\<close> (\<^verbatim>\<open>siphash.cpp\<close>): the loop over the message equals SipHash-2-4 of the padded message.
  \<^item> \<open>Nearest_Prime\<close> (\<^verbatim>\<open>hash_map.cpp\<close>): the least prime that is not below the argument.
  \<^item> \<open>Hash_Map\<close>, \<open>Hash_Map_Facts\<close> (\<^verbatim>\<open>hash_map.hpp\<close>): buckets are lists of items.  The locale \<open>keyed_store\<close> is what clients rely on; its interpretation
    \<open>hm\<close> shows that the buckets behave as one finite map, callbacks that change their object or throw included.
  \<^item> \<open>Dynbuf\<close> (\<^verbatim>\<open>dynbuf.hpp\<close>) and \<open>Tempfile\<close> (\<^verbatim>\<open>src/tempfile.cpp\<close>): two stores of bytes, both interpretations of the locale \<open>byte_store\<close>.
  \<^item> \<open>Config_Parser\<close>, \<open>Config\<close> (\<^verbatim>\<open>config_parser.cpp\<close>, \<^verbatim>\<open>src/config.cpp\<close>): round trip of a printed file, bounds of a configuration that loads.
  \<^item> \<open>Tcp_Socket\<close> (\<^verbatim>\<open>tcp.hpp\<close>, \<^verbatim>\<open>tcp.cpp\<close>): the send buffers.  The bytes reach the wire in order and none is lost, however little the kernel takes.
  \<^item> \<open>Worker\<close> (\<^verbatim>\<open>worker.hpp\<close>): jobs are run once and in order; \<^verbatim>\<open>stop\<close> returns for an idle worker, and two races in which it hangs or a job is lost.
  \<^item> \<open>Reactor\<close>, \<open>Reactor_Poll\<close> (\<^verbatim>\<open>reactor.hpp\<close>, \<^verbatim>\<open>reactor.cpp\<close>): resources at addresses, where the use of a freed address is a fault.  The locale \<open>reactor_client\<close>
    is the contract of \<^verbatim>\<open>cybozu::resource\<close>: if the hooks keep it, a round of \<^verbatim>\<open>poll\<close> has no fault.

  \<^bold>\<open>The memcache service\<close> (\<^verbatim>\<open>src/memcache/\<close>).
  \<^item> \<open>Object\<close>, \<open>Stats\<close>: the class \<^verbatim>\<open>object\<close> refines a plain value, on the heap and in a file; what freed blocks still hold.
  \<^item> \<open>Binary_Command\<close>, \<open>Binary_Request\<close>, \<open>Text_Request\<close>, \<open>Response\<close> (\<^verbatim>\<open>memcache.hpp\<close>, \<^verbatim>\<open>memcache.cpp\<close>): the parsers stay within their input, are
    independent of what follows a request and give back the fields a request was written from.
  \<^item> \<open>Replication\<close> (\<^verbatim>\<open>replication.cpp\<close>, \<^verbatim>\<open>repl_client_socket\<close>): both ends of the stream; the pieces in which it arrives do not matter.
  \<^item> \<open>Memcache_Socket\<close>, \<open>Memcache_Text\<close> (\<^verbatim>\<open>sockets.cpp\<close>): every command of both protocols, and the receiving job.
  \<^item> \<open>Memcache_Facts\<close>, \<open>Memcache_Handlers\<close>, \<open>Memcache_Commands\<close>, \<open>Memcache_Jobs\<close>: what a callback may do, that every callback of every command stays within it,
    and from this that a job returns, respects the locks of others and keeps a mirror a mirror.
  \<^item> \<open>Memcache_Gc\<close> (\<^verbatim>\<open>gc.cpp\<close>): which objects a collection removes, what it publishes, and the initial replication.

  \<^bold>\<open>The counter service\<close> (\<^verbatim>\<open>src/counter/\<close>).
  \<^item> \<open>Counter_Object\<close>, \<open>Counter_Protocol\<close>, \<open>Counter_Socket\<close>, \<open>Counter_Gc\<close>: the code; \<open>Counter_Client\<close>: the client of \<^verbatim>\<open>test/counter_client.hpp\<close>, for round trips.
  \<^item> \<open>Counter_Balance\<close>, \<open>Counter_System\<close>: in every interleaving the consumption of a counter is what the open connections hold of it.

  \<^bold>\<open>The server\<close> (\<^verbatim>\<open>src/server.cpp\<close>, \<^verbatim>\<open>src/memcache/handler.cpp\<close>, \<^verbatim>\<open>src/sync.hpp\<close>, the hooks in \<^verbatim>\<open>sockets.cpp\<close>).
  \<^item> \<open>Sync\<close>: a callback runs exactly when every worker was seen idle since the request.
  \<^item> \<open>Server_State\<close>, \<open>Memcache_Handler\<close>, \<open>Server\<close>: one record extends the reactor by the members of \<^verbatim>\<open>server\<close> and of the handlers; \<^const>\<open>serve\<close> is \<^verbatim>\<open>server::serve\<close> from the
    constructor on.  At this level a job is the sockets it refers to and uses, and what it does to the objects is arbitrary; the theories above
    say what it does.
  \<^item> \<open>Server_View\<close>: the part of the state on which the threads must agree, and its invariant.  \<open>Server_Threads\<close>: the other threads keep it.
    \<open>Server_Safety\<close>: so do the hooks and the interval in master mode (interpretation \<open>srv\<close> of \<open>reactor_client\<close>).  \<open>Server_Slave\<close>: the
    same for slave mode (\<open>idl\<close> without and \<open>slv\<close> with a connection to the master).  \<open>Server_Run\<close>: whole runs.
  \<^item> This theory: the properties of whole runs.

  \<^bold>\<open>Bounds.\<close>  Loops over data are total functions; none has fuel.  The two loops of the program that are meant to run for ever have a
  bound: \<open>serve m n\<close> makes at most \<open>m\<close> phases as a slave and at most \<open>n\<close> rounds of \<^verbatim>\<open>poll\<close> in each mode.  The properties of runs hold for all
  \<open>m\<close> and \<open>n\<close>, hence at every moment of a run that does not end.  What the program does not determine is a list of inputs: what the
  other threads do before the reactor thread goes on, the answers of the kernel, signals, the clock, and whether the machine has the virtual
  address.  The properties hold for every list.  A list that is used up goes on with inputs in which nothing happens.  The
  number of workers is between 1 and \<^const>\<open>MAX_WORKERS\<close>, which loading a configuration ensures.

  \<^bold>\<open>Parameters.\<close>  The seeded hash function of the map, the parser of network addresses, the answers of system calls, the sizes of C++ structures
  and the order in which an unordered map is traversed.

  \<^bold>\<open>Not modelled.\<close>
  \<^item> Logging, \<^verbatim>\<open>dump_stats\<close>, stack dumps and \<^verbatim>\<open>cybozu/test.hpp\<close>: they have no effect on the state.
  \<^item> \<^verbatim>\<open>src/main.cpp\<close>, \<^verbatim>\<open>cybozu/ip_address.cpp\<close>, \<^verbatim>\<open>cybozu/filesystem.cpp\<close>, options of sockets, corking and connecting: sequences of system calls; where the program
    depends on a result, the result is a parameter or an input.
  \<^item> \<^verbatim>\<open>cybozu/thread.hpp\<close> and \<^verbatim>\<open>cybozu/spinlock.hpp\<close>: what a lock protects is one step.  An exception that leaves a worker or the collector
    ends the process; in a run of the server the other threads do not throw, and the theories on jobs and collections say when that is so.
  \<^item> What happens when the process exits: \<^verbatim>\<open>invalidate\<close> of all resources, joining the collector, and stopping the workers, which is modelled for one worker only.
  \<^item> Memory orders weaker than sequential consistency, an exhausted heap, errors of \<^verbatim>\<open>epoll_wait\<close> other than an interruption, and events for descriptors that are
    not registered or are listed twice, which the kernel does not report.
  \<^item> The test of the workers by the syncer reads the flags of all workers at one moment; the code reads one after another, and a worker
    only changes from busy to idle in between.
\<close>

section \<open>Runs of the server\<close>

text \<open>
  C1: from the start of the process on, whatever the clients, the slaves, the kernel, the workers and the collector do, the reactor
  thread never uses a socket that was destroyed, never calls through a null pointer and never throws a logic error: a run
  ends early only with the exception for a system call that failed or read too little, or for a master that sends garbage.  Every socket that a
  worker, the collector, the handler or the reactor still refers to exists.  The runs are those in which no interval of slave mode comes after the
  connection to the master was removed.
\<close>

theorem serve_memory_safe:
  assumes "workers cfg \<in> {1..MAX_WORKERS}" "orderly m n hf cfg (server_ctor cfg now inputs)"
  shows "case serve m n hf cfg (server_ctor cfg now inputs) of Inl e \<Rightarrow> env_fault e | Inr s \<Rightarrow> refs_alive s"
  using serve_run_inv [OF assms] run_refs_alive
  by (cases "serve m n hf cfg (server_ctor cfg now inputs)") auto

theorem serve_memory_safe_witness:
  "case master_state of
     Inl e \<Rightarrow> False
   | Inr s \<Rightarrow> refs_alive s \<and> th_job (sv_workers s ! 0) = Some (Recv_job 103)"
  using serve_memory_safe [OF master_run_orderly(2,1)] master_run_serves unfolding master_state_def by (auto split: sum.splits)

text \<open>
  C4: in such a run, at most one worker receives from a connection at a time, and the flag \<^verbatim>\<open>m_busy\<close> of a registered connection is
  set exactly while one does: two workers never process the same bytes, and no connection stays marked busy without a worker.
\<close>

theorem serve_one_worker:
  assumes "workers cfg \<in> {1..MAX_WORKERS}" "orderly m n hf cfg (server_ctor cfg now inputs)"
  shows "case serve m n hf cfg (server_ctor cfg now inputs) of Inl e \<Rightarrow> env_fault e | Inr s \<Rightarrow> one_worker_each s"
  using serve_run_inv [OF assms] run_one_worker
  by (cases "serve m n hf cfg (server_ctor cfg now inputs)") auto

theorem serve_one_worker_witness:
  "case master_state of Inl e \<Rightarrow> False | Inr s \<Rightarrow> one_worker_each s \<and> th_job (sv_workers s ! 0) = Some (Recv_job 103)"
  using serve_one_worker [OF master_run_orderly(2,1)] master_run_serves unfolding master_state_def by (auto split: sum.splits)

text \<open>
  C3: in such a run, the descriptor that a worker or the collector is using inside \<^verbatim>\<open>with_fd\<close> is open and belongs to its socket alone: although
  the reactor closes descriptors as early as it can, it never closes one that is in use, and the kernel cannot have given it
  to another connection.
\<close>

theorem serve_descriptors_held:
  assumes "workers cfg \<in> {1..MAX_WORKERS}" "orderly m n hf cfg (server_ctor cfg now inputs)"
  shows "case serve m n hf cfg (server_ctor cfg now inputs) of Inl e \<Rightarrow> env_fault e | Inr s \<Rightarrow> descriptors_held s"
  using serve_run_inv [OF assms] run_descriptors_held
  by (cases "serve m n hf cfg (server_ctor cfg now inputs)") auto

theorem serve_descriptors_held_witness:
  "case master_state of Inl e \<Rightarrow> False | Inr s \<Rightarrow> descriptors_held s \<and> th_held (sv_workers s ! 0) = Some 103"
  using serve_descriptors_held [OF master_run_orderly(2,1)] master_run_serves unfolding master_state_def by (auto split: sum.splits)

text \<open>
  C2: in such a run, a listed slave whose initial replication is due or under way is in the list of slaves of every job that
  serves a memcache client: what the collector does not send because a client changes it later, the job of that client sends.
\<close>

theorem serve_slaves_covered:
  assumes "workers cfg \<in> {1..MAX_WORKERS}" "orderly m n hf cfg (server_ctor cfg now inputs)"
  shows "case serve m n hf cfg (server_ctor cfg now inputs) of Inl e \<Rightarrow> env_fault e | Inr s \<Rightarrow> slaves_covered s"
  using serve_run_inv [OF assms] run_slaves_covered
  by (cases "serve m n hf cfg (server_ctor cfg now inputs)") auto

theorem serve_slaves_covered_witness:
  "case master_state of Inl e \<Rightarrow> False | Inr s \<Rightarrow> slaves_covered s \<and> sv_new_slaves s = [104] \<and> th_job (sv_workers s ! 0) = Some (Recv_job 103)"
  using serve_slaves_covered [OF master_run_orderly(2,1)] master_run_serves unfolding master_state_def by (auto split: sum.splits)


end
